(* ===== verification/Prelude.thy ===== *)
theory Prelude
  imports Main "HOL-Library.Word"
begin

text \<open>
  Shared vocabulary of the csup development.

  \<^item> C strings are \<^typ>\<open>string\<close>s (character lists) without the terminating NUL; a pointer
    that may be NULL is an \<^typ>\<open>string option\<close>.
  \<^item> \<open>strchr\<close> and \<open>strrchr\<close> are the splits \<open>split_first\<close> and \<open>split_last\<close>: the text
    before and the text after the first (last) occurrence.
  \<^item> \<open>char_val sg c\<close> is the integer value of a C \<open>char\<close>; whether \<open>char\<close> is signed is
    implementation defined, so the flag \<open>sg\<close> is a parameter of everything that depends on it.
  \<^item> \<open>num_str\<close> is what \<open>printf\<close> prints for an unsigned number (\<open>%d\<close>, \<open>%o\<close>, \<open>%x\<close>);
    \<open>strtol_gen\<close> is the \<open>strtol\<close> family: value, whether \<open>errno\<close> was set, and the rest
    of the input. Types have their LP64 widths (\<open>int\<close> 32 bits, \<open>long\<close> 64 bits).
  The collection \<open>cstr\<close> holds the rewrite rules about these that the component proofs use.
\<close>

named_theorems cstr "facts about C strings and number scanning"

section \<open>Lists\<close>

lemma takeWhile_append_stop:
  "\<forall>x \<in> set xs. P x \<Longrightarrow> \<not> P y \<Longrightarrow> takeWhile P (xs @ y # ys) = xs"
  by (induction xs) auto

lemma dropWhile_append_stop:
  "\<forall>x \<in> set xs. P x \<Longrightarrow> \<not> P y \<Longrightarrow> dropWhile P (xs @ y # ys) = y # ys"
  by (induction xs) auto

lemma takeWhile_all: "\<forall>x \<in> set xs. P x \<Longrightarrow> takeWhile P xs = xs"
  by (induction xs) auto

lemma dropWhile_all: "\<forall>x \<in> set xs. P x \<Longrightarrow> dropWhile P xs = []"
  by (induction xs) auto

lemma length_dropWhile_less:
  "dropWhile P xs = y # ys \<Longrightarrow> length ys < length xs"
  by (metis Suc_le_lessD length_Cons length_dropWhile_le)

section \<open>strchr and strrchr\<close>

fun split_first :: "'a \<Rightarrow> 'a list \<Rightarrow> ('a list \<times> 'a list) option" where
  "split_first c [] = None"
| "split_first c (x # s) =
     (if x = c then Some ([], s)
      else map_option (\<lambda>(a, b). (x # a, b)) (split_first c s))"

definition split_last :: "'a \<Rightarrow> 'a list \<Rightarrow> ('a list \<times> 'a list) option" where
  "split_last c s =
     (case split_first c (rev s) of None \<Rightarrow> None | Some (a, b) \<Rightarrow> Some (rev b, rev a))"

lemma split_first_None [cstr]: "split_first c s = None \<longleftrightarrow> c \<notin> set s"
  by (induction s) auto

lemma split_first_SomeD: "split_first c s = Some (a, b) \<Longrightarrow> s = a @ c # b \<and> c \<notin> set a"
proof (induction s arbitrary: a)
  case (Cons x s)
  then show ?case by (cases "x = c") fastforce+
qed simp

lemma split_first_append [simp]: "c \<notin> set a \<Longrightarrow> split_first c (a @ c # b) = Some (a, b)"
  by (induction a) auto

lemma split_first_Some [cstr]:
  "split_first c s = Some (a, b) \<longleftrightarrow> s = a @ c # b \<and> c \<notin> set a"
  using split_first_SomeD split_first_append by fastforce

lemma split_last_None [cstr]: "split_last c s = None \<longleftrightarrow> c \<notin> set s"
proof -
  have "split_last c s = None \<longleftrightarrow> split_first c (rev s) = None"
    by (auto simp: split_last_def split: option.splits)
  then show ?thesis by (simp add: split_first_None)
qed

lemma split_last_Some [cstr]:
  "split_last c s = Some (a, b) \<longleftrightarrow> s = a @ c # b \<and> c \<notin> set b"
proof -
  have "split_last c s = Some (a, b) \<longleftrightarrow> split_first c (rev s) = Some (rev b, rev a)"
    by (auto simp: split_last_def split: option.splits)
  also have "\<dots> \<longleftrightarrow> rev s = rev b @ c # rev a \<and> c \<notin> set b"
    by (simp add: split_first_Some)
  also have "\<dots> \<longleftrightarrow> s = a @ c # b \<and> c \<notin> set b"
    by (metis append.assoc append_Cons append_Nil rev.simps(2) rev_append rev_rev_ident)
  finally show ?thesis .
qed

lemma split_first_length: "split_first c s = Some (a, b) \<Longrightarrow> length b < length s"
  by (auto simp: split_first_Some)

text \<open>All the pieces between separators, as repeated \<open>strchr\<close> finds them.\<close>

fun split_on :: "'a \<Rightarrow> 'a list \<Rightarrow> 'a list list" where
  "split_on c [] = [[]]"
| "split_on c (x # xs) =
     (if x = c then [] # split_on c xs
      else (case split_on c xs of [] \<Rightarrow> [[x]] | p # ps \<Rightarrow> (x # p) # ps))"

lemma split_on_not_Nil [simp]: "split_on c xs \<noteq> []"
  by (induction xs) (auto split: list.splits)

lemma split_on_append_sep [cstr]:
  "c \<notin> set a \<Longrightarrow> split_on c (a @ c # b) = a # split_on c b"
  by (induction a) (auto split: list.splits)

lemma split_on_no_sep [cstr]: "c \<notin> set a \<Longrightarrow> split_on c a = [a]"
  by (induction a) auto

lemma split_on_hd: "\<exists>b. xs = hd (split_on c xs) @ b \<and> (b = [] \<or> hd b = c)"
  by (induction xs) (auto split: list.splits)

lemma split_on_tail_memberD:
  "split_on c xs = q # qs \<Longrightarrow> p \<in> set qs \<Longrightarrow>
   \<exists>a b. xs = a @ p @ b \<and> (a \<noteq> [] \<and> last a = c) \<and> (b = [] \<or> hd b = c)"
proof (induction xs arbitrary: q qs)
  case (Cons x xs)
  obtain q' qs' where q': "split_on c xs = q' # qs'" by (cases "split_on c xs") auto
  show ?case
  proof (cases "x = c \<and> p = q'")
    case True
    then obtain b where "xs = p @ b" "b = [] \<or> hd b = c" using split_on_hd [of xs c] q' by auto
    with True show ?thesis by (intro exI [of _ "[x]"] exI [of _ b]) simp
  next
    case False
    have "x = c \<Longrightarrow> qs = q' # qs'" "x \<noteq> c \<Longrightarrow> qs = qs'" using Cons.prems(1) q' by simp_all
    with False Cons.prems(2) have "p \<in> set qs'" by (cases "x = c") simp_all
    then obtain a b where "xs = a @ p @ b" "a \<noteq> []" "last a = c" "b = [] \<or> hd b = c"
      using Cons.IH [OF q'] by blast
    then show ?thesis by (intro exI [of _ "x # a"] exI [of _ b]) auto
  qed
qed simp

lemma split_on_memberD:
  "p \<in> set (split_on c xs) \<Longrightarrow>
   \<exists>a b. xs = a @ p @ b \<and> (a = [] \<or> last a = c) \<and> (b = [] \<or> hd b = c)"
proof -
  assume p: "p \<in> set (split_on c xs)"
  obtain q qs where q: "split_on c xs = q # qs" by (cases "split_on c xs") auto
  with p consider "p = q" | "p \<in> set qs" by auto
  then show ?thesis
  proof cases
    case 1
    then obtain b where "xs = p @ b" "b = [] \<or> hd b = c" using split_on_hd [of xs c] q by auto
    then show ?thesis by (intro exI [of _ "[]"] exI [of _ b]) simp
  next
    case 2
    with split_on_tail_memberD [OF q] show ?thesis by blast
  qed
qed

section \<open>The value of a C char\<close>

definition char_val :: "bool \<Rightarrow> char \<Rightarrow> int" where
  "char_val sg c =
     (let v = int (of_char c) in if sg \<and> 128 \<le> v then v - 256 else v)"

lemma of_char_le_255: "(of_char c :: nat) \<le> 255"
  using nat_of_char_less_256 [of c] by linarith

lemma char_val_eq_iff [simp]: "char_val sg c = char_val sg d \<longleftrightarrow> c = d"
proof
  assume h: "char_val sg c = char_val sg d"
  have "(of_char c :: nat) = of_char d"
    using h of_char_le_255 [of c] of_char_le_255 [of d]
    unfolding char_val_def Let_def by (split if_split_asm; split if_split_asm; linarith)
  then show "c = d" by simp
qed simp

lemma char_val_range: "- 128 \<le> char_val sg c \<and> char_val sg c < 256"
  using of_char_le_255 [of c] unfolding char_val_def Let_def by (split if_split) linarith

lemma char_val_unsigned [simp]: "0 \<le> char_val False c"
  by (simp add: char_val_def)

section \<open>Character classes\<close>

definition c_isspace :: "char \<Rightarrow> bool" where
  "c_isspace c \<longleftrightarrow>
     c \<in> {CHR '' '', CHR 0x09, CHR 0x0A, CHR 0x0B, CHR 0x0C, CHR 0x0D}"

definition c_tolower :: "char \<Rightarrow> char" where
  "c_tolower c =
     (let n = (of_char c :: nat) in if 65 \<le> n \<and> n \<le> 90 then char_of (n + 32) else c)"

definition digit_val :: "char \<Rightarrow> nat option" where
  "digit_val c =
     (let n = (of_char c :: nat) in
      if 48 \<le> n \<and> n \<le> 57 then Some (n - 48)
      else if 97 \<le> n \<and> n \<le> 122 then Some (n - 87)
      else if 65 \<le> n \<and> n \<le> 90 then Some (n - 55)
      else None)"

definition c_isdigit :: "char \<Rightarrow> bool" where
  "c_isdigit c \<longleftrightarrow> (let n = (of_char c :: nat) in 48 \<le> n \<and> n \<le> 57)"

definition digit_char :: "nat \<Rightarrow> char" where
  "digit_char d = (if d < 10 then char_of (48 + d) else char_of (87 + d))"

lemma digit_val_digit_char [cstr]: "d < 16 \<Longrightarrow> digit_val (digit_char d) = Some d"
  by (auto simp: digit_val_def digit_char_def Let_def of_char_of)

section \<open>Printing unsigned numbers\<close>

function num_str :: "nat \<Rightarrow> nat \<Rightarrow> string" where
  "num_str b n =
     (if b < 2 \<or> n < b then [digit_char n]
      else num_str b (n div b) @ [digit_char (n mod b)])"
  by pat_completeness auto
termination
  by (relation "measure snd") auto

declare num_str.simps [simp del]

lemma num_str_not_Nil [simp]: "num_str b n \<noteq> []"
  by (subst num_str.simps) auto

lemma num_str_induct [case_names less step]:
  fixes b n :: nat
  assumes "2 \<le> b"
    and "\<And>n. n < b \<Longrightarrow> P n"
    and "\<And>n. b \<le> n \<Longrightarrow> P (n div b) \<Longrightarrow> P n"
  shows "P n"
proof (induction n rule: less_induct)
  case (less n)
  show ?case
  proof (cases "n < b")
    case True
    then show ?thesis by (rule assms(2))
  next
    case False
    with assms(1) have "n div b < n" by (intro div_less_dividend) auto
    then have "P (n div b)" by (rule less.IH)
    with False show ?thesis using assms(3) by simp
  qed
qed

lemma num_str_digits:
  assumes "2 \<le> b" and "b \<le> 16"
  shows "\<forall>c \<in> set (num_str b n). \<exists>d < b. digit_val c = Some d"
proof (induction n rule: num_str_induct [OF assms(1)])
  case (1 n)
  then show ?case using assms by (subst num_str.simps) (auto simp: digit_val_digit_char)
next
  case (2 n)
  have m: "n mod b < b" using assms by simp
  with assms(2) have "n mod b < 16" by linarith
  then have "digit_val (digit_char (n mod b)) = Some (n mod b)"
    by (rule digit_val_digit_char)
  with 2 assms m show ?case by (subst num_str.simps) auto
qed

section \<open>The strtol family\<close>

fun scan_digits :: "nat \<Rightarrow> nat \<Rightarrow> string \<Rightarrow> nat \<times> string" where
  "scan_digits b acc [] = (acc, [])"
| "scan_digits b acc (c # s) =
     (case digit_val c of
        Some d \<Rightarrow> if d < b then scan_digits b (acc * b + d) s else (acc, c # s)
      | None \<Rightarrow> (acc, c # s))"

definition starts_digit :: "nat \<Rightarrow> string \<Rightarrow> bool" where
  "starts_digit b s =
     (case s of [] \<Rightarrow> False
      | c # _ \<Rightarrow> (case digit_val c of Some d \<Rightarrow> d < b | None \<Rightarrow> False))"

lemma scan_digits_stop [cstr]: "\<not> starts_digit b s \<Longrightarrow> scan_digits b acc s = (acc, s)"
  by (cases s) (auto simp: starts_digit_def split: option.splits)

lemma scan_digits_num_str [cstr]:
  assumes "2 \<le> b" and "b \<le> 16" and "\<not> starts_digit b rest"
  shows "scan_digits b 0 (num_str b n @ rest) = (n, rest)"
proof -
  have "scan_digits b 0 (num_str b n @ r) = scan_digits b n r" for r
  proof (induction n arbitrary: r rule: num_str_induct [OF assms(1)])
    case (1 n)
    with assms show ?case by (subst num_str.simps) (simp add: digit_val_digit_char)
  next
    case (2 n)
    have m: "n mod b < b" using assms by simp
    with assms(2) have "n mod b < 16" by linarith
    then have "digit_val (digit_char (n mod b)) = Some (n mod b)"
      by (rule digit_val_digit_char)
    with 2 assms m show ?case by (subst num_str.simps) simp
  qed
  with assms show ?thesis by (simp add: scan_digits_stop)
qed

text \<open>The base and the digits to scan: \<open>0x\<close> prefixes and the automatic base 0.\<close>

definition strto_base :: "nat \<Rightarrow> string \<Rightarrow> nat \<times> string" where
  "strto_base b s =
     (case s of
        z # x # t \<Rightarrow>
          if z = CHR ''0'' \<and> (x = CHR ''x'' \<or> x = CHR ''X'') \<and>
             (b = 0 \<or> b = 16) \<and> starts_digit 16 t then (16, t)
          else if b = 0 then (if z = CHR ''0'' then 8 else 10, s) else (b, s)
      | [z] \<Rightarrow> if b = 0 then (if z = CHR ''0'' then 8 else 10, s) else (b, s)
      | [] \<Rightarrow> (if b = 0 then 10 else b, s))"

definition strto_sign :: "string \<Rightarrow> bool \<times> string" where
  "strto_sign s =
     (case s of
        c # t \<Rightarrow> if c = CHR ''-'' then (True, t) else if c = CHR ''+'' then (False, t) else (False, s)
      | [] \<Rightarrow> (False, s))"

definition strtol_gen :: "int \<Rightarrow> int \<Rightarrow> nat \<Rightarrow> string \<Rightarrow> int \<times> bool \<times> string" where
  "strtol_gen lo hi base s =
     (let (neg, s2) = strto_sign (dropWhile c_isspace s);
          (b, s3) = strto_base base s2
      in if \<not> starts_digit b s3 then (0, False, s)
         else let (n, rest) = scan_digits b 0 s3;
                  v = (if neg then - int n else int n)
              in if v < lo then (lo, True, rest)
                 else if v > hi then (hi, True, rest)
                 else (v, False, rest))"

definition LONG_MAX :: int where "LONG_MAX = 2 ^ 63 - 1"
definition LONG_MIN :: int where "LONG_MIN = - (2 ^ 63)"
definition ULONG_MAX :: int where "ULONG_MAX = 2 ^ 64 - 1"
definition INT_MAX :: int where "INT_MAX = 2 ^ 31 - 1"
definition INT_MIN :: int where "INT_MIN = - (2 ^ 31)"

lemmas int_limits = LONG_MAX_def LONG_MIN_def ULONG_MAX_def INT_MAX_def INT_MIN_def

definition strtol :: "nat \<Rightarrow> string \<Rightarrow> int \<times> bool \<times> string" where
  "strtol = strtol_gen LONG_MIN LONG_MAX"

text \<open>\<open>strtoul\<close> negates a signed number modulo \<open>2 ^ 64\<close>.\<close>

definition strtoul :: "nat \<Rightarrow> string \<Rightarrow> int \<times> bool \<times> string" where
  "strtoul base s =
     (case strtol_gen (- ULONG_MAX) ULONG_MAX base s of
        (v, True, rest) \<Rightarrow> (ULONG_MAX, True, rest)
      | (v, False, rest) \<Rightarrow> (v mod 2 ^ 64, False, rest))"

definition int_str :: "int \<Rightarrow> string" where
  "int_str i = (if i < 0 then CHR ''-'' # num_str 10 (nat (- i)) else num_str 10 (nat i))"

lemma digit_val_not_space: "digit_val c = Some d \<Longrightarrow> \<not> c_isspace c"
  by (auto simp: digit_val_def c_isspace_def Let_def split: if_splits)

lemma digit_val_not_sign: "digit_val c = Some d \<Longrightarrow> c \<noteq> CHR ''-'' \<and> c \<noteq> CHR ''+''"
  by (auto simp: digit_val_def Let_def split: if_splits)

lemma num_str_Cons:
  assumes "2 \<le> b" and "b \<le> 16"
  obtains c s d where "num_str b n = c # s" "digit_val c = Some d" "d < b"
  using num_str_digits [OF assms, of n] num_str_not_Nil [of b n]
  by (cases "num_str b n") auto

lemma strto_base_plain:
  assumes "b \<noteq> 0" and "s \<noteq> []" and "\<forall>x \<in> set s. x \<noteq> CHR ''x'' \<and> x \<noteq> CHR ''X''"
    and "rest = [] \<or> (hd rest \<noteq> CHR ''x'' \<and> hd rest \<noteq> CHR ''X'')"
  shows "strto_base b (s @ rest) = (b, s @ rest)"
  using assms
  by (cases s; cases "tl s"; cases rest) (auto simp: strto_base_def split: list.splits)

lemma strtol_gen_num_str:
  assumes b: "2 \<le> b" "b \<le> 16" and r: "\<not> starts_digit b rest"
    and x: "rest = [] \<or> (hd rest \<noteq> CHR ''x'' \<and> hd rest \<noteq> CHR ''X'')"
    and lo: "lo \<le> int n" and hi: "int n \<le> hi"
  shows "strtol_gen lo hi b (num_str b n @ rest) = (int n, False, rest)"
proof -
  obtain c s d where cs: "num_str b n = c # s" "digit_val c = Some d" "d < b"
    using num_str_Cons [OF b] by metis
  have nx: "\<forall>y \<in> set (num_str b n). y \<noteq> CHR ''x'' \<and> y \<noteq> CHR ''X''"
    using num_str_digits [OF b, of n] b by (fastforce simp: digit_val_def Let_def)
  have sp: "dropWhile c_isspace (num_str b n @ rest) = num_str b n @ rest"
    using cs by (simp add: digit_val_not_space)
  have sg: "strto_sign (num_str b n @ rest) = (False, num_str b n @ rest)"
    using digit_val_not_sign [OF cs(2)] cs(1) by (simp add: strto_sign_def)
  have sb: "strto_base b (num_str b n @ rest) = (b, num_str b n @ rest)"
    using b nx x by (intro strto_base_plain) auto
  have sd: "starts_digit b (num_str b n @ rest)"
    using cs by (simp add: starts_digit_def)
  show ?thesis
    unfolding strtol_gen_def
    using b r lo hi by (simp add: sp sg sb sd scan_digits_num_str)
qed

lemma strtol_gen_neg_num_str:
  assumes b: "2 \<le> b" "b \<le> 16" and r: "\<not> starts_digit b rest"
    and x: "rest = [] \<or> (hd rest \<noteq> CHR ''x'' \<and> hd rest \<noteq> CHR ''X'')"
    and lo: "lo \<le> - int n" and hi: "- int n \<le> hi"
  shows "strtol_gen lo hi b (CHR ''-'' # num_str b n @ rest) = (- int n, False, rest)"
proof -
  obtain c s d where cs: "num_str b n = c # s" "digit_val c = Some d" "d < b"
    using num_str_Cons [OF b] by metis
  have nx: "\<forall>y \<in> set (num_str b n). y \<noteq> CHR ''x'' \<and> y \<noteq> CHR ''X''"
    using num_str_digits [OF b, of n] b by (fastforce simp: digit_val_def Let_def)
  have sb: "strto_base b (num_str b n @ rest) = (b, num_str b n @ rest)"
    using b nx x by (intro strto_base_plain) auto
  have sd: "starts_digit b (num_str b n @ rest)"
    using cs by (simp add: starts_digit_def)
  have sp: "dropWhile c_isspace (CHR ''-'' # num_str b n @ rest) = CHR ''-'' # num_str b n @ rest"
    by (simp add: c_isspace_def)
  show ?thesis
    unfolding strtol_gen_def sp
    using b r lo hi
    by (simp add: strto_sign_def sb sd scan_digits_num_str)
qed

lemma strtol_gen_int_str:
  assumes "lo \<le> i" and "i \<le> hi" and "\<not> starts_digit 10 rest"
    and "rest = [] \<or> (hd rest \<noteq> CHR ''x'' \<and> hd rest \<noteq> CHR ''X'')"
  shows "strtol_gen lo hi 10 (int_str i @ rest) = (i, False, rest)"
  using strtol_gen_num_str [of 10 rest lo "nat i" hi]
    strtol_gen_neg_num_str [of 10 rest lo "nat (- i)" hi] assms
  by (auto simp: int_str_def)

section \<open>Results\<close>

text \<open>
  A step that may fail, as a sum with the failure on the left, and the rest of a computation:
  what \<open>if (error) return\<close> does. \<open>from_option\<close> is the failure \<open>e\<close> for a NULL.
\<close>

fun bindE :: "'e + 'a \<Rightarrow> ('a \<Rightarrow> 'e + 'b) \<Rightarrow> 'e + 'b" where
  "bindE (Inl e) f = Inl e"
| "bindE (Inr x) f = f x"

definition from_option :: "'e \<Rightarrow> 'a option \<Rightarrow> 'e + 'a" where
  "from_option e x = (case x of None \<Rightarrow> Inl e | Some y \<Rightarrow> Inr y)"

lemma from_option_simps [simp]: "from_option e None = Inl e" "from_option e (Some x) = Inr x"
  by (simp_all add: from_option_def)

lemma from_option_Inr [simp]: "from_option e x = Inr y \<longleftrightarrow> x = Some y"
  by (cases x) auto

lemma bindE_cong [fundef_cong]:
  "m = m' \<Longrightarrow> (\<And>x. m' = Inr x \<Longrightarrow> f x = g x) \<Longrightarrow> bindE m f = bindE m' g"
  by (cases m') auto

lemma bindE_assoc: "bindE (bindE m f) g = bindE m (\<lambda>x. bindE (f x) g)"
  by (cases m) auto

lemma bindE_Inr: "bindE m f = Inr y \<longleftrightarrow> (\<exists>x. m = Inr x \<and> f x = Inr y)"
  by (cases m) auto

text \<open>Insertion before the first element with a property, or at the end.\<close>

definition insert_where :: "('a \<Rightarrow> bool) \<Rightarrow> 'a \<Rightarrow> 'a list \<Rightarrow> 'a list" where
  "insert_where P x xs = takeWhile (\<lambda>y. \<not> P y) xs @ x # dropWhile (\<lambda>y. \<not> P y) xs"

lemma set_insert_where [simp]: "set (insert_where P x xs) = insert x (set xs)"
proof -
  have "set xs = set (takeWhile (\<lambda>y. \<not> P y) xs) \<union> set (dropWhile (\<lambda>y. \<not> P y) xs)"
    by (metis set_append takeWhile_dropWhile_id)
  then show ?thesis by (auto simp: insert_where_def)
qed

lemma insert_where_simps [simp]:
  "insert_where P x [] = [x]" "insert_where P x (y # ys) = (if P y then x # y # ys else y # insert_where P x ys)"
  by (simp_all add: insert_where_def)

end
