(* ===== verification/Misc.thy ===== *)
theory Misc
  imports Prelude
begin

text \<open>
  The pure part of \<open>misc.c\<close>: path comparison (\<open>pathcmp\<close>, \<open>commonpathlength\<close>,
  \<open>pathlast\<close>), the checks and constructions of file names (\<open>isrcs\<close>, \<open>checkoutpath\<close>,
  \<open>cvspath\<close>), RCS revision numbers (\<open>rcsnum_cmp\<close>, \<open>rcsrev_istrunk\<close>,
  \<open>rcsrev_prefix\<close>), the growable pattern list and \<open>asciitoint\<close>. The results:
  \<open>pathcmp\<close> is a total order that keeps the contents of a directory contiguous,
  \<open>commonpathlength\<close> is the longest common directory prefix, an accepted RCS file
  name never leaves the prefix directory, and \<open>rcsnum_cmp\<close> is the numeric
  lexicographic order on revision numbers.
\<close>

section \<open>asciitoint\<close>

definition asciitoint :: "string \<Rightarrow> nat \<Rightarrow> int option" where
  "asciitoint s base =
     (let (longval, err, end) = strtol base s in
      if err \<or> end \<noteq> [] then None
      else if longval > INT_MAX \<or> longval < INT_MIN then None
      else Some longval)"

section \<open>pathcmp\<close>

definition path_char :: "bool \<Rightarrow> char \<Rightarrow> int" where
  "path_char sg c = (if c = CHR ''/'' then 1 else char_val sg c)"

fun pathcmp :: "bool \<Rightarrow> string \<Rightarrow> string \<Rightarrow> int" where
  "pathcmp sg [] [] = 0"
| "pathcmp sg [] (d # t) = 0 - path_char sg d"
| "pathcmp sg (c # s) [] = path_char sg c - 0"
| "pathcmp sg (c # s) (d # t) =
     (if path_char sg c = path_char sg d then pathcmp sg s t
      else path_char sg c - path_char sg d)"

text \<open>
  A path holds neither NUL (it is a C string) nor byte 1, the value that \<open>pathcmp\<close>
  gives to the slash.
\<close>

definition path_ok :: "string \<Rightarrow> bool" where
  "path_ok s \<longleftrightarrow> CHR 0x00 \<notin> set s \<and> CHR 0x01 \<notin> set s"

lemma path_ok_simps [simp]:
  "path_ok []"
  "path_ok (c # s) \<longleftrightarrow> c \<noteq> CHR 0x00 \<and> c \<noteq> CHR 0x01 \<and> path_ok s"
  "path_ok (s @ t) \<longleftrightarrow> path_ok s \<and> path_ok t"
  by (auto simp: path_ok_def)

lemma char_val_0: "char_val sg c = 0 \<longleftrightarrow> c = CHR 0x00"
  using char_val_eq_iff [of sg c "CHR 0x00"] by (simp add: char_val_def [of sg "CHR 0x00"] del: char_val_eq_iff)

lemma char_val_1: "char_val sg c = 1 \<longleftrightarrow> c = CHR 0x01"
  using char_val_eq_iff [of sg c "CHR 0x01"] by (simp add: char_val_def [of sg "CHR 0x01"] del: char_val_eq_iff)

lemma path_char_eq:
  "c \<noteq> CHR 0x01 \<Longrightarrow> d \<noteq> CHR 0x01 \<Longrightarrow> path_char sg c = path_char sg d \<longleftrightarrow> c = d"
  using char_val_1 [of sg c] char_val_1 [of sg d] by (auto simp: path_char_def)

lemma path_char_nz: "c \<noteq> CHR 0x00 \<Longrightarrow> path_char sg c \<noteq> 0"
  by (simp add: path_char_def char_val_0)

lemma path_char_slash [simp]: "path_char sg (CHR ''/'') = 1"
  by (simp add: path_char_def)

lemma path_char_not_1:
  "c \<noteq> CHR 0x01 \<Longrightarrow> c \<noteq> CHR ''/'' \<Longrightarrow> path_char sg c \<noteq> 1"
  by (simp add: path_char_def char_val_1)

lemma pathcmp_refl [simp]: "pathcmp sg s s = 0"
  by (induction s) auto

lemma pathcmp_antisym: "pathcmp sg t s = - pathcmp sg s t"
  by (induction sg s t rule: pathcmp.induct) auto

lemma pathcmp_eq_0:
  "path_ok s \<Longrightarrow> path_ok t \<Longrightarrow> pathcmp sg s t = 0 \<longleftrightarrow> s = t"
proof (induction sg s t rule: pathcmp.induct)
  case (4 sg c s d t)
  then show ?case by (auto simp: path_char_eq)
qed (auto simp: path_char_nz)

lemma pathcmp_trans:
  "path_ok s \<Longrightarrow> path_ok t \<Longrightarrow> path_ok u \<Longrightarrow>
   pathcmp sg s t < 0 \<Longrightarrow> pathcmp sg t u < 0 \<Longrightarrow> pathcmp sg s u < 0"
proof (induction sg s t arbitrary: u rule: pathcmp.induct)
  case (2 sg d t)
  then show ?case by (cases u) (auto split: if_splits)
next
  case (3 sg c s)
  then show ?case by (cases u) (auto split: if_splits)
next
  case (4 sg c s d t)
  then show ?case by (cases u) (auto split: if_splits)
qed auto

lemma pathcmp_common [simp]: "pathcmp sg (p @ s) (p @ t) = pathcmp sg s t"
  by (induction p) auto

lemma pathcmp_between:
  assumes "path_ok p" and "path_ok q" and "pathcmp sg p q < 0" and "pathcmp sg q (p @ CHR ''/'' # x) < 0"
  shows "\<exists>y. q = p @ CHR ''/'' # y"
  using assms
proof (induction p arbitrary: q)
  case Nil
  show ?case
  proof (cases q)
    case Nil
    with Nil.prems show ?thesis by simp
  next
    case (Cons d t)
    with Nil.prems have "path_char sg d > 0" by simp
    with Nil.prems Cons have "d = CHR ''/''"
      using path_char_not_1 [of d sg] by (auto split: if_splits)
    with Cons show ?thesis by simp
  qed
next
  case (Cons c p)
  show ?case
  proof (cases q)
    case Nil
    with Cons.prems show ?thesis by simp
  next
    case (Cons d t)
    with Cons.prems have e: "path_char sg c = path_char sg d"
      by (auto split: if_splits)
    with Cons.prems Cons have t: "\<exists>y. t = p @ CHR ''/'' # y"
      by (intro Cons.IH) auto
    have "c = d" using e Cons.prems Cons by (auto simp: path_char_eq)
    with t Cons show ?thesis by simp
  qed
qed

section \<open>commonpathlength and pathlast\<close>

fun commonpath_loop :: "string \<Rightarrow> string \<Rightarrow> nat \<Rightarrow> nat \<Rightarrow> nat" where
  "commonpath_loop (x # a) (y # b) i lastslash =
     (if x \<noteq> y then lastslash
      else commonpath_loop a b (Suc i)
             (if x = CHR ''/'' then (if i = 0 then 1 else i) else lastslash))"
| "commonpath_loop (x # a) [] i lastslash = (if x = CHR ''/'' then i else lastslash)"
| "commonpath_loop [] (y # b) i lastslash = (if y = CHR ''/'' then i else lastslash)"
| "commonpath_loop [] [] i lastslash = i"

definition commonpathlength :: "string \<Rightarrow> string \<Rightarrow> nat" where
  "commonpathlength a b = commonpath_loop a b 0 0"

definition pathlast :: "string \<Rightarrow> string" where
  "pathlast path = (case split_last (CHR ''/'') path of None \<Rightarrow> path | Some (_, s) \<Rightarrow> s)"

text \<open>A directory prefix of \<open>p\<close>: the empty path, \<open>p\<close> itself, or \<open>p\<close> cut before a slash.\<close>

definition dir_prefix :: "string \<Rightarrow> string \<Rightarrow> bool" where
  "dir_prefix d p \<longleftrightarrow> d = [] \<or> d = p \<or> (\<exists>s. p = d @ CHR ''/'' # s)"

lemma dir_prefix_Nil [simp]: "dir_prefix [] p"
  by (simp add: dir_prefix_def)

lemma commonpath_loop_dir_prefix:
  assumes "commonpath_loop a b (length pre) (length ls) = n"
    and "dir_prefix ls (pre @ a)" and "dir_prefix ls (pre @ b)"
    and "pre \<noteq> [] \<or> \<not> (\<exists>s. a = CHR ''/'' # s)"
  shows "\<exists>d. length d = n \<and> dir_prefix d (pre @ a) \<and> dir_prefix d (pre @ b)"
  using assms
proof (induction a b "length pre" "length ls" arbitrary: pre ls rule: commonpath_loop.induct)
  case (1 x a y b pre ls)
  show ?case
  proof (cases "x = y")
    case False
    with 1 show ?thesis by auto
  next
    case True
    let ?ls = "if x = CHR ''/'' then pre else ls"
    have "x = CHR ''/'' \<Longrightarrow> pre \<noteq> []" using 1 by auto
    then have l: "(if x = CHR ''/'' then if length pre = 0 then 1 else length pre else length ls)
        = length ?ls" by auto
    have p: "dir_prefix ?ls (pre @ x # a)" "dir_prefix ?ls (pre @ x # b)"
      using 1 True by (auto simp: dir_prefix_def)
    have "\<exists>d. length d = n \<and> dir_prefix d ((pre @ [x]) @ a) \<and> dir_prefix d ((pre @ [x]) @ b)"
      using 1 True p l by (intro "1.hyps" [of "pre @ [x]" ?ls]) auto
    with True show ?thesis by simp
  qed
qed (auto simp: dir_prefix_def split: if_splits)

lemma dir_prefix_iff:
  "dir_prefix d p \<longleftrightarrow>
     length d \<le> length p \<and> d = take (length d) p \<and>
     (d = [] \<or> length d = length p \<or> p ! length d = CHR ''/'')"
proof
  assume "dir_prefix d p"
  then show "length d \<le> length p \<and> d = take (length d) p \<and>
      (d = [] \<or> length d = length p \<or> p ! length d = CHR ''/'')"
    by (auto simp: dir_prefix_def)
next
  assume h: "length d \<le> length p \<and> d = take (length d) p \<and>
      (d = [] \<or> length d = length p \<or> p ! length d = CHR ''/'')"
  show "dir_prefix d p"
  proof (cases "d = [] \<or> length d = length p")
    case True
    with h show ?thesis by (auto simp: dir_prefix_def)
  next
    case False
    with h have "p = take (length d) p @ p ! length d # drop (Suc (length d)) p"
      by (intro id_take_nth_drop) simp
    with h False show ?thesis by (metis dir_prefix_def)
  qed
qed

lemma dir_prefix_at:
  assumes "dir_prefix d (pre @ x # a)" and "length d = length pre" and "d \<noteq> []"
  shows "x = CHR ''/''"
  using assms by (auto simp: dir_prefix_iff)

lemma dir_prefix_beyond:
  assumes "dir_prefix d (pre @ x # a)" and "length pre < length d"
  shows "d ! length pre = x"
proof -
  have "d = take (length d) (pre @ x # a)" using assms(1) unfolding dir_prefix_iff by blast
  then have "d ! length pre = take (length d) (pre @ x # a) ! length pre" by simp
  also have "\<dots> = (pre @ x # a) ! length pre" using assms(2) by (rule nth_take)
  finally show ?thesis by simp
qed

lemma commonpath_loop_maximal:
  assumes "dir_prefix d (pre @ a)" and "dir_prefix d (pre @ b)"
    and "length d < length pre \<longrightarrow> length d \<le> ls" and "ls \<le> length pre"
  shows "length d \<le> commonpath_loop a b (length pre) ls"
  using assms
proof (induction a b "length pre" ls arbitrary: pre rule: commonpath_loop.induct)
  case (1 x a y b ls)
  have at: "length d = length pre \<Longrightarrow> d \<noteq> [] \<Longrightarrow> x = CHR ''/'' \<and> y = CHR ''/''"
    using "1.prems"(1,2) by (blast dest: dir_prefix_at)
  show ?case
  proof (cases "x = y")
    case False
    then have "\<not> length pre < length d"
      using "1.prems"(1,2) by (metis dir_prefix_beyond)
    with at False "1.prems"(3) show ?thesis by (cases "d = []") auto
  next
    case True
    let ?ls = "if x = CHR ''/'' then (if length pre = 0 then 1 else length pre) else ls"
    have "length d < Suc (length pre) \<longrightarrow> length d \<le> ?ls"
      using at "1.prems"(3,4) by (cases "d = []") auto
    then have "length d \<le> commonpath_loop a b (length (pre @ [x])) ?ls"
      using True "1.prems" by (intro "1.hyps") auto
    with True show ?thesis by simp
  qed
next
  case (2 x a ls)
  then have "length d \<le> length pre" by (simp add: dir_prefix_iff)
  with 2 dir_prefix_at [of d pre x a] show ?case by (cases "d = []") auto
next
  case (3 y b ls)
  then have "length d \<le> length pre" by (simp add: dir_prefix_iff)
  with 3 dir_prefix_at [of d pre y b] show ?case by (cases "d = []") auto
next
  case (4 ls)
  then show ?case by (simp add: dir_prefix_iff)
qed

lemma commonpathlength_dir_prefix:
  assumes "\<not> (\<exists>s. a = CHR ''/'' # s)"
  shows "\<exists>d. length d = commonpathlength a b \<and> dir_prefix d a \<and> dir_prefix d b"
  using commonpath_loop_dir_prefix [of a b "[]" "[]" "commonpathlength a b"] assms
  by (simp add: commonpathlength_def)

lemma commonpathlength_maximal:
  "dir_prefix d a \<Longrightarrow> dir_prefix d b \<Longrightarrow> length d \<le> commonpathlength a b"
  using commonpath_loop_maximal [of d "[]" a b 0] by (simp add: commonpathlength_def)

lemma dir_prefix_take: "dir_prefix d p \<Longrightarrow> take (length d) p = d"
  by (auto simp: dir_prefix_iff)

section \<open>RCS file names\<close>

text \<open>
  The \<open>strstr\<close> loop of \<open>isrcs\<close>: \<open>start\<close> says that the scan is at the first
  character, \<open>prev\<close> is the character before it otherwise. A match at the start, at the
  end or between two slashes is refused; any other match is skipped.
\<close>

fun isrcs_dots :: "bool \<Rightarrow> char \<Rightarrow> string \<Rightarrow> bool" where
  "isrcs_dots start prev (c # d # s) =
     (if c = CHR ''.'' \<and> d = CHR ''.'' then
        (if start \<or> s = [] \<or> (prev = CHR ''/'' \<and> hd s = CHR ''/'') then False
         else isrcs_dots False (CHR ''.'') s)
      else isrcs_dots False c (d # s))"
| "isrcs_dots start prev _ = True"

definition isrcs :: "string \<Rightarrow> nat option" where
  "isrcs file =
     (if file \<noteq> [] \<and> hd file = CHR ''/'' then None
      else if \<not> isrcs_dots True (CHR 0x00) file then None
      else let len = length file in
           if len < 2 \<or> file ! (len - 1) \<noteq> CHR ''v'' \<or> file ! (len - 2) \<noteq> CHR '',''
           then None else Some len)"

definition checkoutpath :: "string \<Rightarrow> string \<Rightarrow> string option" where
  "checkoutpath prefix file =
     (case isrcs file of None \<Rightarrow> None
      | Some len \<Rightarrow> Some (prefix @ ''/'' @ take (len - 2) file))"

definition cvspath :: "string \<Rightarrow> string \<Rightarrow> bool \<Rightarrow> string" where
  "cvspath prefix file attic =
     (let last = pathlast file in
      if attic then prefix @ ''/'' @ take (length file - length last) file @ ''Attic/'' @ last
      else prefix @ ''/'' @ file)"

lemma isrcs_dots_found:
  assumes "s = [] \<or> hd s = CHR ''/''"
  shows "\<not> isrcs_dots start prev (pre @ ''/..'' @ s)"
proof (induction pre arbitrary: start prev rule: length_induct)
  case (1 pre)
  show ?case
  proof (cases pre)
    case Nil
    with assms show ?thesis by auto
  next
    case (Cons c pre')
    then have IH: "\<not> isrcs_dots st pr (pre' @ ''/..'' @ s)" for st pr using 1 by simp
    show ?thesis
    proof (cases pre')
      case Nil
      with Cons IH show ?thesis by (cases "c = CHR ''.''") auto
    next
      case (Cons d pre'')
      have "\<not> isrcs_dots st pr (pre'' @ ''/..'' @ s)" for st pr
        using 1 \<open>pre = c # pre'\<close> Cons by simp
      with \<open>pre = c # pre'\<close> Cons IH show ?thesis by auto
    qed
  qed
qed

lemma isrcs_dots_component:
  assumes "isrcs_dots True (CHR 0x00) f" and "c \<in> set (split_on (CHR ''/'') f)"
  shows "c \<noteq> ''..''"
proof
  assume c: "c = ''..''"
  have s: "\<exists>p q. f = p @ c @ q \<and> (p = [] \<or> last p = CHR ''/'') \<and> (q = [] \<or> hd q = CHR ''/'')"
    using assms(2) by (rule split_on_memberD)
  then obtain p q where f: "f = p @ ''..'' @ q"
    and p: "p = [] \<or> last p = CHR ''/''" and q: "q = [] \<or> hd q = CHR ''/''"
    using c by blast
  show False
  proof (cases "p = []")
    case True
    with f assms(1) show ?thesis by simp
  next
    case False
    with p obtain r where r: "p = r @ ''/''" by (metis append_butlast_last_id)
    show ?thesis
    proof (cases q)
      case Nil
      with assms(1) f r isrcs_dots_found [of "[]" True "CHR 0x00" r] show ?thesis by simp
    next
      case (Cons x q')
      with q assms(1) f r isrcs_dots_found [of q True "CHR 0x00" r] show ?thesis by simp
    qed
  qed
qed

section \<open>RCS revision numbers\<close>

text \<open>
  \<open>strncmp\<close> promises only the sign of its result, so the model returns the sign.
\<close>

fun strcmp_sign :: "string \<Rightarrow> string \<Rightarrow> int" where
  "strcmp_sign [] [] = 0"
| "strcmp_sign [] (d # t) = - 1"
| "strcmp_sign (c # s) [] = 1"
| "strcmp_sign (c # s) (d # t) =
     (if (of_char c :: nat) < of_char d then - 1
      else if (of_char c :: nat) > of_char d then 1 else strcmp_sign s t)"

definition until_dot :: "string \<Rightarrow> string \<times> string" where
  "until_dot p = (case split_first (CHR ''.'') p of None \<Rightarrow> (p, []) | Some (n, r) \<Rightarrow> (n, r))"

lemma until_dot_length: "until_dot (c # p) = (n, r) \<Longrightarrow> length r < length (c # p)"
  by (auto simp: until_dot_def cstr split: option.splits if_splits dest!: split_first_length)

function rcsnum_cmp :: "string \<Rightarrow> string \<Rightarrow> int" where
  "rcsnum_cmp (c # s) (d # t) =
     (let (num1, ptr1) = until_dot (c # s);
          (num2, ptr2) = until_dot (d # t)
      in if length num1 > length num2 then 1
         else if length num1 < length num2 then - 1
         else let ret = strcmp_sign num1 num2 in
              if ret \<noteq> 0 then ret else rcsnum_cmp ptr1 ptr2)"
| "rcsnum_cmp (c # s) [] = 1"
| "rcsnum_cmp [] (d # t) = - 1"
| "rcsnum_cmp [] [] = 0"
  by pat_completeness auto
termination
  by (relation "measure (length o fst)") (auto dest!: until_dot_length [OF sym])

declare rcsnum_cmp.simps(1) [simp del]

definition rcsrev_istrunk :: "string \<Rightarrow> bool option" where
  "rcsrev_istrunk revnum =
     (case split_first (CHR ''.'') revnum of
        None \<Rightarrow> None
      | Some (_, tmp) \<Rightarrow> Some (CHR ''.'' \<notin> set tmp))"

definition rcsrev_prefix :: "string \<Rightarrow> string option" where
  "rcsrev_prefix revnum = map_option fst (split_last (CHR ''.'') revnum)"

text \<open>A revision number as the numbers it is written from, and their order.\<close>

fun show_rev :: "nat list \<Rightarrow> string" where
  "show_rev [] = []"
| "show_rev [n] = num_str 10 n"
| "show_rev (n # m # ns) = num_str 10 n @ CHR ''.'' # show_rev (m # ns)"

fun rev_order :: "nat list \<Rightarrow> nat list \<Rightarrow> int" where
  "rev_order [] [] = 0"
| "rev_order [] (y # ys) = - 1"
| "rev_order (x # xs) [] = 1"
| "rev_order (x # xs) (y # ys) = (if x < y then - 1 else if y < x then 1 else rev_order xs ys)"

lemma strcmp_sign_refl [simp]: "strcmp_sign s s = 0"
  by (induction s) auto

lemma strcmp_sign_append:
  "length a = length b \<Longrightarrow>
   strcmp_sign (a @ s) (b @ t) = (if strcmp_sign a b = 0 then strcmp_sign s t else strcmp_sign a b)"
  by (induction a b rule: list_induct2) auto

definition dec_cmp :: "string \<Rightarrow> string \<Rightarrow> int" where
  "dec_cmp a b =
     (if length a > length b then 1 else if length a < length b then - 1 else strcmp_sign a b)"

lemma of_char_digit: "d < 10 \<Longrightarrow> of_char (digit_char d) = 48 + d"
  by (simp add: digit_char_def of_char_of)

lemma dec_cmp_snoc:
  "x < 10 \<Longrightarrow> y < 10 \<Longrightarrow>
   dec_cmp (a @ [digit_char x]) (b @ [digit_char y]) =
     (if dec_cmp a b = 0 then (if x < y then - 1 else if y < x then 1 else 0) else dec_cmp a b)"
  by (auto simp: dec_cmp_def strcmp_sign_append of_char_digit)

lemma num_str_length_ge: "10 \<le> n \<Longrightarrow> 2 \<le> length (num_str 10 n)"
  by (subst num_str.simps) (auto simp: Suc_le_eq)

lemma less_by_digits:
  "(m::nat) < n \<longleftrightarrow> m div 10 < n div 10 \<or> (m div 10 = n div 10 \<and> m mod 10 < n mod 10)"
proof -
  have "10 * a + x < 10 * b + y \<longleftrightarrow> a < b \<or> (a = b \<and> x < y)" if "x < 10" "y < 10" for a b x y :: nat
    using that by arith
  from this [of "m mod 10" "n mod 10" "m div 10" "n div 10"] show ?thesis by simp
qed

lemma dec_cmp_num_str:
  "dec_cmp (num_str 10 m) (num_str 10 n) = (if m < n then - 1 else if n < m then 1 else 0)"
proof (induction m arbitrary: n rule: less_induct)
  case (less m)
  have small: "k < 10 \<Longrightarrow> num_str 10 k = [digit_char k]" for k
    by (subst num_str.simps) simp
  have big: "10 \<le> k \<Longrightarrow> num_str 10 k = num_str 10 (k div 10) @ [digit_char (k mod 10)]" for k
    by (subst num_str.simps) simp
  consider "m < 10" "n < 10" | "m < 10" "10 \<le> n" | "10 \<le> m" "n < 10" | "10 \<le> m" "10 \<le> n"
    by linarith
  then show ?case
  proof cases
    case 1
    then show ?thesis by (auto simp: small dec_cmp_def of_char_digit)
  next
    case 2
    with num_str_length_ge [of n] show ?thesis by (auto simp: small dec_cmp_def)
  next
    case 3
    with num_str_length_ge [of m] show ?thesis by (auto simp: small dec_cmp_def)
  next
    case 4
    then have IH: "dec_cmp (num_str 10 (m div 10)) (num_str 10 (n div 10)) =
        (if m div 10 < n div 10 then - 1 else if n div 10 < m div 10 then 1 else 0)"
      by (intro less.IH) simp
    show ?thesis
      unfolding big [OF 4(1)] big [OF 4(2)] less_by_digits [of m n] less_by_digits [of n m]
      by (subst dec_cmp_snoc) (auto simp: IH)
  qed
qed

lemma num_str_no_dot [simp]: "CHR ''.'' \<notin> set (num_str 10 n)"
  using num_str_digits [of 10 n] by (fastforce simp: digit_val_def Let_def)

lemma until_dot_show_rev:
  "until_dot (show_rev (n # ns)) = (num_str 10 n, show_rev ns)"
proof -
  have "split_first (CHR ''.'') (num_str 10 n) = None" by (simp add: split_first_None)
  then show ?thesis by (cases ns) (simp_all add: until_dot_def)
qed

lemma show_rev_Cons: "\<exists>c s. show_rev (n # ns) = c # s"
  using num_str_not_Nil [of 10 n] by (cases ns; cases "num_str 10 n") auto

lemma rcsnum_cmp_unfold:
  assumes "p1 \<noteq> []" and "p2 \<noteq> []" and "until_dot p1 = (n1, r1)" and "until_dot p2 = (n2, r2)"
  shows "rcsnum_cmp p1 p2 = (if dec_cmp n1 n2 \<noteq> 0 then dec_cmp n1 n2 else rcsnum_cmp r1 r2)"
  using assms by (cases p1; cases p2) (simp_all add: rcsnum_cmp.simps(1) dec_cmp_def)

lemma rcsnum_cmp_show_rev: "rcsnum_cmp (show_rev xs) (show_rev ys) = rev_order xs ys"
proof (induction xs ys rule: rev_order.induct)
  case (2 y ys)
  then show ?case using show_rev_Cons [of y ys] by auto
next
  case (3 x xs)
  then show ?case using show_rev_Cons [of x xs] by auto
next
  case (4 x xs y ys)
  have "show_rev (x # xs) \<noteq> []" "show_rev (y # ys) \<noteq> []"
    using show_rev_Cons [of x xs] show_rev_Cons [of y ys] by auto
  then show ?case
    using 4 by (simp add: rcsnum_cmp_unfold until_dot_show_rev dec_cmp_num_str del: show_rev.simps)
qed simp

section \<open>The pattern list\<close>

record pattlist =
  patterns :: "string list"
  patt_size :: nat

definition pattlist_new :: pattlist where
  "pattlist_new = \<lparr>patterns = [], patt_size = 4\<rparr>"

text \<open>\<open>in\<close> is the number of patterns stored; \<open>None\<close> is a failed assertion.\<close>

definition pattlist_add :: "pattlist \<Rightarrow> string \<Rightarrow> pattlist option" where
  "pattlist_add p pattern =
     (let p' = (if length (patterns p) = patt_size p then p\<lparr>patt_size := patt_size p * 2\<rparr> else p) in
      if \<not> length (patterns p') < patt_size p' then None
      else Some (p'\<lparr>patterns := patterns p' @ [pattern]\<rparr>))"

definition pattlist_get :: "pattlist \<Rightarrow> nat \<Rightarrow> string option" where
  "pattlist_get p i = (if i < length (patterns p) then Some (patterns p ! i) else None)"

definition pattlist_size :: "pattlist \<Rightarrow> nat" where
  "pattlist_size p = length (patterns p)"

definition pattlist_ok :: "pattlist \<Rightarrow> bool" where
  "pattlist_ok p \<longleftrightarrow> 0 < patt_size p \<and> length (patterns p) \<le> patt_size p"

lemma pattlist_new_ok [simp]: "pattlist_ok pattlist_new"
  by (simp add: pattlist_ok_def pattlist_new_def)

lemma pattlist_add_ok:
  "pattlist_ok p \<Longrightarrow>
   \<exists>p'. pattlist_add p s = Some p' \<and> pattlist_ok p' \<and> patterns p' = patterns p @ [s]"
  by (auto simp: pattlist_ok_def pattlist_add_def Let_def)

section \<open>Properties\<close>

text \<open>
  Claim C34. The order of the list file, \<open>pathcmp\<close>, is a strict total order on path names, for
  signed and unsigned \<open>char\<close> alike, and whatever lies between a directory and an entry of
  it lies in that directory: the contents of a directory follow it without a gap.
\<close>

theorem pathcmp_order:
  assumes "path_ok p" and "path_ok q" and "path_ok r"
  shows "(pathcmp sg p q = 0 \<longleftrightarrow> p = q) \<and> sgn (pathcmp sg q p) = - sgn (pathcmp sg p q) \<and>
    (pathcmp sg p q < 0 \<longrightarrow> pathcmp sg q r < 0 \<longrightarrow> pathcmp sg p r < 0) \<and>
    (pathcmp sg p q < 0 \<longrightarrow> pathcmp sg q (p @ CHR ''/'' # x) < 0 \<longrightarrow>
       (\<exists>y. q = p @ CHR ''/'' # y))"
proof (intro conjI impI)
  show "sgn (pathcmp sg q p) = - sgn (pathcmp sg p q)"
    by (simp add: pathcmp_antisym [of sg q p])
qed (use assms in \<open>auto simp: pathcmp_eq_0 intro: pathcmp_trans pathcmp_between\<close>)

theorem pathcmp_order_witness:
  "pathcmp True ''src'' ''src/a.c,v'' < 0 \<and> pathcmp True ''src/a.c,v'' ''src.old'' < 0 \<and>
   pathcmp True ''src'' ''src.old'' < 0"
proof -
  have "path_ok ''src''" "path_ok ''src/a.c,v''" "path_ok ''src.old''" by simp_all
  moreover have "pathcmp True ''src'' ''src/a.c,v'' < 0" "pathcmp True ''src/a.c,v'' ''src.old'' < 0"
    by (simp_all add: path_char_def char_val_def)
  ultimately show ?thesis
    using pathcmp_order [of "''src''" "''src/a.c,v''" "''src.old''" True "''x''"] by blast
qed

text \<open>
  Claim C35. For relative paths, \<open>commonpathlength\<close> is the length of the longest directory
  that both paths share: the prefix of that length is a directory prefix of both, and no
  longer directory prefix of both exists.
\<close>

theorem commonpathlength_longest:
  assumes "\<not> (\<exists>s. a = CHR ''/'' # s)"
  shows "dir_prefix (take (commonpathlength a b) a) a \<and>
    take (commonpathlength a b) a = take (commonpathlength a b) b \<and>
    dir_prefix (take (commonpathlength a b) b) b \<and>
    (\<forall>d. dir_prefix d a \<longrightarrow> dir_prefix d b \<longrightarrow> length d \<le> commonpathlength a b)"
proof -
  obtain d where "length d = commonpathlength a b" "dir_prefix d a" "dir_prefix d b"
    using commonpathlength_dir_prefix [OF assms] by blast
  then show ?thesis
    using commonpathlength_maximal dir_prefix_take [of d a] dir_prefix_take [of d b] by metis
qed

theorem commonpathlength_longest_witness:
  "commonpathlength ''src/bin/ls'' ''src/bison'' = 3 \<and>
   dir_prefix (take 3 ''src/bin/ls'') ''src/bison''"
proof -
  have e: "commonpathlength ''src/bin/ls'' ''src/bison'' = 3" by (simp add: commonpathlength_def)
  with commonpathlength_longest [of "''src/bin/ls''" "''src/bison''"] show ?thesis by simp
qed

text \<open>
  Claim C36. A name that \<open>isrcs\<close> accepts is relative, ends in \<open>,v\<close> and has no
  component \<open>..\<close>, so the RCS file it names stays under the collection's prefix.
\<close>

theorem isrcs_stays_inside:
  assumes "isrcs f = Some n"
  shows "n = length f \<and> hd f \<noteq> CHR ''/'' \<and> f = take (n - 2) f @ '',v'' \<and>
    ''..'' \<notin> set (split_on (CHR ''/'') f)"
proof -
  have d: "isrcs_dots True (CHR 0x00) f" and n: "n = length f" "2 \<le> n" "hd f \<noteq> CHR ''/''"
    and v: "f ! (n - 1) = CHR ''v''" "f ! (n - 2) = CHR '',''"
    using assms by (auto simp: isrcs_def Let_def split: if_splits)
  have "drop (n - 2) f = f ! (n - 2) # drop (Suc (n - 2)) f"
    using n by (intro Cons_nth_drop_Suc [symmetric]) simp
  moreover have "drop (n - 1) f = f ! (n - 1) # drop (Suc (n - 1)) f"
    using n by (intro Cons_nth_drop_Suc [symmetric]) simp
  moreover have "Suc (n - 2) = n - 1" "Suc (n - 1) = n" using n by simp_all
  ultimately have "drop (n - 2) f = [f ! (n - 2), f ! (n - 1)]" using n by simp
  with v have "f = take (n - 2) f @ '',v''" by (metis append_take_drop_id)
  with n isrcs_dots_component [OF d] show ?thesis by blast
qed

theorem isrcs_stays_inside_witness:
  "isrcs ''src/..a,v'' = Some 9 \<and> ''..'' \<notin> set (split_on (CHR ''/'') ''src/..a,v'')"
proof -
  have "isrcs ''src/..a,v'' = Some 9" by (simp add: isrcs_def)
  with isrcs_stays_inside [of "''src/..a,v''" 9] show ?thesis by blast
qed

text \<open>
  The check is made before the suffix is cut: a name accepted by \<open>isrcs\<close> can
  yield a checkout path that ends in \<open>..\<close> and leaves the prefix.
\<close>

lemma checkoutpath_dotdot:
  "checkoutpath prefix ''./..,v'' = Some (prefix @ ''/./..'')"
  by (simp add: checkoutpath_def isrcs_def)

text \<open>
  Claim C37. On revision numbers written in decimal, \<open>rcsnum_cmp\<close> is the lexicographic
  order of the numbers, although it only compares lengths and characters.
\<close>

theorem rcsnum_cmp_numeric:
  "rcsnum_cmp (show_rev xs) (show_rev ys) = rev_order xs ys"
  by (rule rcsnum_cmp_show_rev)

end
