(* ===== verification/Pathcomp.thy ===== *)
theory Pathcomp
  imports Misc
begin

text \<open>
  The path compressor of \<open>pathcomp.c\<close>: it turns a sorted sequence of path names into the
  directory moves between them, which the status file stores as \<open>D\<close> and \<open>U\<close> records.
  \<open>prev\<close> and \<open>target\<close> are the C buffers (the code cuts them by writing a NUL and puts
  the slash back at \<open>trashed\<close>), \<open>curlen\<close> and \<open>goal\<close> the lengths of the current and
  the wanted directory. A failed assertion is \<open>None\<close>. The main lemma says that draining
  the compressor after a \<open>pathcomp_put\<close> emits exactly the way up from the old directory to
  the common ancestor and down to the new one.
\<close>

section \<open>The compressor\<close>

datatype pc_type = PC_DIRDOWN | PC_FILE | PC_DIRUP

record pathcomp =
  target :: "string option"
  targetlen :: nat
  trashed :: "nat option"
  prev :: "string option"
  prevlen :: nat
  goal :: nat
  curlen :: nat

text \<open>The C code leaves \<open>goal\<close> uninitialised; every \<open>pathcomp_put\<close> sets it first.\<close>

definition pathcomp_new :: pathcomp where
  "pathcomp_new = \<lparr>target = None, targetlen = 0, trashed = None, prev = None, prevlen = 0,
     goal = 0, curlen = 0\<rparr>"

text \<open>The inner \<open>None\<close> is the return value -1 (an absolute path).\<close>

definition pathcomp_put :: "pathcomp \<Rightarrow> pc_type \<Rightarrow> string \<Rightarrow> pathcomp option option" where
  "pathcomp_put pc type path =
     (if target pc \<noteq> None then None
      else if path \<noteq> [] \<and> hd path = CHR ''/'' then Some None
      else
        let tlen = (case type of
                      PC_DIRDOWN \<Rightarrow> length path
                    | _ \<Rightarrow> (case split_last (CHR ''/'') path of None \<Rightarrow> 0 | Some (a, _) \<Rightarrow> length a));
            g = (case prev pc of
                   None \<Rightarrow> 0
                 | Some p \<Rightarrow> commonpathlength (take (prevlen pc) p) (take tlen path));
            g' = (if curlen pc = g then tlen else g)
        in Some (Some (pc\<lparr>target := Some path, targetlen := tlen, goal := g'\<rparr>)))"

definition c_string :: "string \<Rightarrow> string" where
  "c_string buf = takeWhile (\<lambda>c. c \<noteq> CHR 0x00) buf"

fun find_slash :: "string \<Rightarrow> nat \<Rightarrow> nat \<Rightarrow> nat" where
  "find_slash t pos 0 = pos"
| "find_slash t pos (Suc n) = (if t ! pos = CHR ''/'' then pos else find_slash t (Suc pos) n)"

definition restore :: "pathcomp \<Rightarrow> pathcomp" where
  "restore pc =
     (case (trashed pc, target pc) of
        (Some i, Some t) \<Rightarrow> pc\<lparr>target := Some (t[i := CHR ''/'']), trashed := None\<rparr>
      | _ \<Rightarrow> pc)"

definition pathcomp_up :: "pathcomp \<Rightarrow> (pathcomp \<times> (pc_type \<times> string) option) option" where
  "pathcomp_up pc =
     (case prev pc of
        None \<Rightarrow> None
      | Some p \<Rightarrow>
          let p' = p[curlen pc := CHR 0x00];
              slashpos = (case split_last (CHR ''/'') (take (curlen pc) p') of
                            None \<Rightarrow> 0 | Some (a, _) \<Rightarrow> length a);
              pc' = pc\<lparr>prev := Some p', curlen := slashpos\<rparr>
          in if slashpos < goal pc then None
             else Some (if slashpos = goal pc then pc'\<lparr>goal := targetlen pc\<rparr> else pc',
                        Some (PC_DIRUP, c_string p')))"

definition pathcomp_down :: "pathcomp \<Rightarrow> (pathcomp \<times> (pc_type \<times> string) option) option" where
  "pathcomp_down pc0 =
     (let pc = restore pc0 in
      case target pc of
        None \<Rightarrow> None
      | Some t \<Rightarrow>
          let start = (if curlen pc = 0 then curlen pc else curlen pc + 1);
              slashpos = find_slash t start (goal pc - start)
          in if slashpos < length t then
               if t ! slashpos \<noteq> CHR ''/'' then None
               else let t' = t[slashpos := CHR 0x00] in
                    Some (pc\<lparr>trashed := Some slashpos, target := Some t', curlen := slashpos\<rparr>,
                          Some (PC_DIRDOWN, c_string t'))
             else Some (pc\<lparr>curlen := slashpos\<rparr>, Some (PC_DIRDOWN, c_string t)))"

definition pathcomp_done :: "pathcomp \<Rightarrow> (pathcomp \<times> (pc_type \<times> string) option) option" where
  "pathcomp_done pc0 =
     (case target pc0 of
        None \<Rightarrow> Some (pc0, None)
      | Some _ \<Rightarrow>
          let pc = restore pc0 in
          Some (pc\<lparr>prev := Some (take (targetlen pc) (the (target pc))), prevlen := targetlen pc,
                    target := None, targetlen := 0\<rparr>, None))"

definition pathcomp_get :: "pathcomp \<Rightarrow> (pathcomp \<times> (pc_type \<times> string) option) option" where
  "pathcomp_get pc =
     (if curlen pc > goal pc then pathcomp_up pc
      else if curlen pc < goal pc then pathcomp_down pc
      else pathcomp_done pc)"

definition pathcomp_finish :: "pathcomp \<Rightarrow> pathcomp" where
  "pathcomp_finish pc = pc\<lparr>target := None, targetlen := 0, goal := 0\<rparr>"

text \<open>
  The loop \<open>while (pathcomp_get(pc, &type, &name))\<close> of the callers, with fuel: the
  names it gets and the compressor afterwards.
\<close>

fun pathcomp_drain :: "nat \<Rightarrow> pathcomp \<Rightarrow> ((pc_type \<times> string) list \<times> pathcomp) option" where
  "pathcomp_drain 0 pc = None"
| "pathcomp_drain (Suc n) pc =
     (case pathcomp_get pc of
        None \<Rightarrow> None
      | Some (pc', None) \<Rightarrow> Some ([], pc')
      | Some (pc', Some ev) \<Rightarrow>
          map_option (\<lambda>(evs, pc''). (ev # evs, pc'')) (pathcomp_drain n pc'))"

section \<open>Paths as lists of components\<close>

fun join_path :: "string list \<Rightarrow> string" where
  "join_path [] = []"
| "join_path [c] = c"
| "join_path (c # d # cs) = c @ CHR ''/'' # join_path (d # cs)"

definition clean :: "string list \<Rightarrow> bool" where
  "clean cs \<longleftrightarrow> (\<forall>c \<in> set cs. c \<noteq> [] \<and> CHR ''/'' \<notin> set c \<and> CHR 0x00 \<notin> set c)"

lemma clean_simps [simp]:
  "clean []"
  "clean (c # cs) \<longleftrightarrow> c \<noteq> [] \<and> CHR ''/'' \<notin> set c \<and> CHR 0x00 \<notin> set c \<and> clean cs"
  "clean (cs @ ds) \<longleftrightarrow> clean cs \<and> clean ds"
  by (auto simp: clean_def)

lemma clean_take [simp]: "clean cs \<Longrightarrow> clean (take n cs)"
  by (auto simp: clean_def dest: in_set_takeD)

lemma join_path_Cons: "cs \<noteq> [] \<Longrightarrow> join_path (c # cs) = c @ CHR ''/'' # join_path cs"
  by (cases cs) auto

lemma join_path_append:
  "cs \<noteq> [] \<Longrightarrow> ds \<noteq> [] \<Longrightarrow> join_path (cs @ ds) = join_path cs @ CHR ''/'' # join_path ds"
proof (induction cs)
  case (Cons c cs)
  then show ?case by (cases "cs = []") (auto simp: join_path_Cons)
qed simp

lemma join_path_snoc:
  "join_path (cs @ [c]) = (if cs = [] then c else join_path cs @ CHR ''/'' # c)"
  by (simp add: join_path_append)

lemma join_path_Nil_iff: "clean cs \<Longrightarrow> join_path cs = [] \<longleftrightarrow> cs = []"
  by (cases cs rule: join_path.cases) auto

lemma join_path_no_nul: "clean cs \<Longrightarrow> CHR 0x00 \<notin> set (join_path cs)"
  by (induction cs rule: join_path.induct) auto

lemma join_path_not_slash: "clean cs \<Longrightarrow> join_path cs \<noteq> CHR ''/'' # s"
  by (cases cs rule: join_path.cases) (auto simp: Cons_eq_append_conv append_eq_Cons_conv)

lemma split_on_join: "clean cs \<Longrightarrow> cs \<noteq> [] \<Longrightarrow> split_on (CHR ''/'') (join_path cs) = cs"
  by (induction cs rule: join_path.induct) (auto simp: cstr)

lemma join_path_inj: "clean cs \<Longrightarrow> clean ds \<Longrightarrow> join_path cs = join_path ds \<Longrightarrow> cs = ds"
  by (metis join_path.simps(1) join_path_Nil_iff split_on_join)

lemma dir_prefix_join_take: "clean cs \<Longrightarrow> dir_prefix (join_path (take i cs)) (join_path cs)"
proof -
  assume "clean cs"
  show ?thesis
  proof (cases "take i cs = [] \<or> drop i cs = []")
    case True
    then show ?thesis by (auto simp: dir_prefix_def)
  next
    case False
    then have "join_path cs = join_path (take i cs) @ CHR ''/'' # join_path (drop i cs)"
      by (metis append_take_drop_id join_path_append)
    then show ?thesis by (auto simp: dir_prefix_def)
  qed
qed

lemma dir_prefix_joinD:
  "clean cs \<Longrightarrow> dir_prefix d (join_path cs) \<Longrightarrow> \<exists>i \<le> length cs. d = join_path (take i cs)"
proof (induction cs arbitrary: d)
  case Nil
  then show ?case by (auto simp: dir_prefix_def)
next
  case (Cons c cs)
  from Cons.prems(2) consider "d = []" | "d = join_path (c # cs)"
    | s where "join_path (c # cs) = d @ CHR ''/'' # s" "d \<noteq> []"
    by (auto simp: dir_prefix_def)
  then show ?case
  proof cases
    case 1
    then show ?thesis by (intro exI [of _ 0]) simp
  next
    case 2
    then show ?thesis by (intro exI [of _ "length (c # cs)"]) simp
  next
    case 3
    have ne: "cs \<noteq> []"
    proof
      assume "cs = []"
      with 3 have "c = d @ CHR ''/'' # s" by simp
      with Cons.prems(1) show False by simp
    qed
    with 3 have eq: "c @ CHR ''/'' # join_path cs = d @ CHR ''/'' # s" by (simp add: join_path_Cons)
    show ?thesis
    proof (cases "CHR ''/'' \<in> set d")
      case False
      with eq Cons.prems(1) have "d = c"
        by (metis clean_simps(2) split_first_append option.inject prod.inject)
      then show ?thesis by (intro exI [of _ 1]) simp
    next
      case True
      then obtain d1 d2 where d: "d = d1 @ CHR ''/'' # d2" "CHR ''/'' \<notin> set d1"
        by (meson split_list_first)
      with eq Cons.prems(1) have "d1 = c \<and> join_path cs = d2 @ CHR ''/'' # s"
        by (metis append.assoc append_Cons clean_simps(2) split_first_append option.inject prod.inject)
      then have dc: "d = c @ CHR ''/'' # d2" and j: "join_path cs = d2 @ CHR ''/'' # s" using d by auto
      then have "dir_prefix d2 (join_path cs)" by (auto simp: dir_prefix_def)
      then obtain i where i: "i \<le> length cs" "d2 = join_path (take i cs)"
        using Cons by auto
      have "d2 \<noteq> []" using j Cons.prems(1) join_path_not_slash [of cs s] by auto
      with i have "take i cs \<noteq> []" by (metis join_path.simps(1))
      with i dc show ?thesis
        by (intro exI [of _ "Suc i"]) (auto simp: join_path_Cons)
    qed
  qed
qed

fun lcp :: "'a list \<Rightarrow> 'a list \<Rightarrow> 'a list" where
  "lcp (x # xs) (y # ys) = (if x = y then x # lcp xs ys else [])"
| "lcp _ _ = []"

lemma lcp_take1: "lcp xs ys = take (length (lcp xs ys)) xs"
  by (induction xs ys rule: lcp.induct) auto

lemma lcp_take2: "lcp xs ys = take (length (lcp xs ys)) ys"
  by (induction xs ys rule: lcp.induct) auto

lemma lcp_max: "i \<le> length xs \<Longrightarrow> take i xs = take j ys \<Longrightarrow> i \<le> length (lcp xs ys)"
proof (induction xs ys arbitrary: i j rule: lcp.induct)
  case (1 x xs y ys)
  show ?case
  proof (cases i)
    case (Suc i')
    with 1 obtain j' where "j = Suc j'" by (cases j) auto
    with 1 Suc show ?thesis by auto
  qed simp
qed (auto simp: take_eq_Nil)

lemma join_path_take_mono: "i \<le> j \<Longrightarrow> length (join_path (take i cs)) \<le> length (join_path (take j cs))"
proof -
  assume "i \<le> j"
  then obtain ds where d: "take j cs = take i cs @ ds" by (metis le_Suc_ex take_add)
  then show ?thesis by (cases "take i cs = []"; cases "ds = []") (auto simp: join_path_append)
qed

lemma commonpathlength_join:
  assumes c: "clean cs" "clean ds"
  shows "commonpathlength (join_path cs) (join_path ds) = length (join_path (lcp cs ds))"
proof (rule antisym)
  have "\<not> (\<exists>s. join_path cs = CHR ''/'' # s)" using join_path_not_slash [OF c(1)] by blast
  then obtain d where d: "length d = commonpathlength (join_path cs) (join_path ds)"
    "dir_prefix d (join_path cs)" "dir_prefix d (join_path ds)"
    using commonpathlength_dir_prefix by blast
  obtain i j where i: "i \<le> length cs" "d = join_path (take i cs)"
    and j: "j \<le> length ds" "d = join_path (take j ds)"
    using dir_prefix_joinD [OF c(1) d(2)] dir_prefix_joinD [OF c(2) d(3)] by blast
  have "take i cs = take j ds" using join_path_inj [of "take i cs" "take j ds"] c i j by simp
  then have "i \<le> length (lcp cs ds)" by (rule lcp_max [OF i(1)])
  then have "length (join_path (take i cs)) \<le> length (join_path (take (length (lcp cs ds)) cs))"
    by (rule join_path_take_mono)
  also have "\<dots> = length (join_path (lcp cs ds))" by (simp only: lcp_take1 [symmetric])
  finally show "commonpathlength (join_path cs) (join_path ds) \<le> length (join_path (lcp cs ds))"
    using d(1) i(2) by simp
next
  have "dir_prefix (join_path (lcp cs ds)) (join_path cs)"
    by (subst lcp_take1) (rule dir_prefix_join_take [OF c(1)])
  moreover have "dir_prefix (join_path (lcp cs ds)) (join_path ds)"
    by (subst lcp_take2) (rule dir_prefix_join_take [OF c(2)])
  ultimately show "length (join_path (lcp cs ds)) \<le> commonpathlength (join_path cs) (join_path ds)"
    by (rule commonpathlength_maximal)
qed

section \<open>The moves between two directories\<close>

definition ups :: "nat \<Rightarrow> nat \<Rightarrow> string list \<Rightarrow> (pc_type \<times> string) list" where
  "ups k n ds = map (\<lambda>i. (PC_DIRUP, join_path (take i ds))) (rev [Suc k..<Suc n])"

definition downs :: "nat \<Rightarrow> string list \<Rightarrow> (pc_type \<times> string) list" where
  "downs k ts = map (\<lambda>i. (PC_DIRDOWN, join_path (take i ts))) [Suc k..<Suc (length ts)]"

text \<open>The compressor at rest in directory \<open>ds\<close>, and where a record of a path wants to be.\<close>

definition at_dir :: "pathcomp \<Rightarrow> string list \<Rightarrow> bool" where
  "at_dir pc ds \<longleftrightarrow> target pc = None \<and> trashed pc = None \<and> curlen pc = length (join_path ds) \<and>
     (case prev pc of None \<Rightarrow> ds = [] | Some p \<Rightarrow> p = join_path ds \<and> prevlen pc = length p)"

definition record_dir :: "pc_type \<Rightarrow> string \<Rightarrow> string list \<Rightarrow> bool" where
  "record_dir type path ts \<longleftrightarrow>
     (if type = PC_DIRDOWN then path = join_path ts
      else \<exists>f. CHR ''/'' \<notin> set f \<and> CHR 0x00 \<notin> set f \<and> path = join_path (ts @ [f]))"

lemma at_dir_new: "at_dir pathcomp_new []"
  by (simp add: at_dir_def pathcomp_new_def)

lemma join_take_less:
  assumes "clean cs" and "i < j" and "j \<le> length cs"
  shows "length (join_path (take i cs)) < length (join_path (take j cs))"
proof -
  have d: "take j cs = take i cs @ drop i (take j cs)" using assms(2)
    by (metis append_take_drop_id less_imp_le min.absorb1 take_take)
  moreover have ne: "drop i (take j cs) \<noteq> []" using assms(2,3) by simp
  moreover have "join_path (drop i (take j cs)) \<noteq> []"
    using ne assms(1) by (subst join_path_Nil_iff) (auto simp: clean_def dest: in_set_dropD in_set_takeD)
  ultimately show ?thesis
    by (cases "take i cs = []") (metis append_Nil join_path.simps(1) length_greater_0_conv list.size(3),
        metis (no_types, lifting) join_path_append length_append length_Cons less_add_Suc1 add_Suc_right)
qed

text \<open>While going up: the current directory is \<open>take i ds\<close>, the ancestor wanted \<open>take k ds\<close>.\<close>

definition up_state :: "pathcomp \<Rightarrow> string \<Rightarrow> string list \<Rightarrow> nat \<Rightarrow> nat \<Rightarrow> string list \<Rightarrow> bool" where
  "up_state pc t0 ds k i ts \<longleftrightarrow>
     target pc = Some t0 \<and> trashed pc = None \<and> targetlen pc = length (join_path ts) \<and>
     k < i \<and> i \<le> length ds \<and> goal pc = length (join_path (take k ds)) \<and>
     curlen pc = length (join_path (take i ds)) \<and>
     (\<exists>p. prev pc = Some p \<and> curlen pc \<le> length p \<and> take (curlen pc) p = join_path (take i ds))"

definition down_state :: "pathcomp \<Rightarrow> string \<Rightarrow> nat \<Rightarrow> string list \<Rightarrow> bool" where
  "down_state pc t0 i ts \<longleftrightarrow>
     target (restore pc) = Some t0 \<and> trashed (restore pc) = None \<and>
     targetlen pc = length (join_path ts) \<and> goal pc = length (join_path ts) \<and>
     i \<le> length ts \<and> curlen pc = length (join_path (take i ts))"

definition target_text :: "string \<Rightarrow> string list \<Rightarrow> bool" where
  "target_text t0 ts \<longleftrightarrow> CHR 0x00 \<notin> set t0 \<and>
     (\<exists>r. t0 = join_path ts @ r \<and> (ts \<noteq> [] \<longrightarrow> r = [] \<or> hd r = CHR ''/''))"

lemma c_string_prefix:
  assumes "take n p = q" and "n \<le> length p" and "CHR 0x00 \<notin> set q"
  shows "c_string (p[n := CHR 0x00]) = q"
proof -
  have "\<forall>c \<in> set q. c \<noteq> CHR 0x00" using assms(3) by auto
  then show ?thesis
  proof (cases "n < length p")
    case True
    with \<open>\<forall>c \<in> set q. c \<noteq> CHR 0x00\<close> assms(1) show ?thesis
      by (simp add: c_string_def upd_conv_take_nth_drop takeWhile_append_stop)
  next
    case False
    with assms have "p[n := CHR 0x00] = q" by (simp add: list_update_beyond)
    with \<open>\<forall>c \<in> set q. c \<noteq> CHR 0x00\<close> show ?thesis by (simp add: c_string_def takeWhile_all)
  qed
qed

lemma take_snoc_nth: "0 < i \<Longrightarrow> i \<le> length ds \<Longrightarrow> take i ds = take (i - 1) ds @ [ds ! (i - 1)]"
  by (metis Suc_le_eq Suc_pred' take_Suc_conv_app_nth)

lemma split_last_join:
  assumes "clean ds" and "0 < i" and "i \<le> length ds"
  shows "(case split_last (CHR ''/'') (join_path (take i ds)) of None \<Rightarrow> 0 | Some (a, _) \<Rightarrow> length a)
    = length (join_path (take (i - 1) ds))"
proof -
  let ?c = "ds ! (i - 1)"
  have t: "take i ds = take (i - 1) ds @ [?c]" using assms(2,3) by (rule take_snoc_nth)
  have c: "CHR ''/'' \<notin> set ?c" using assms by (auto simp: clean_def)
  show ?thesis
  proof (cases "take (i - 1) ds = []")
    case True
    have "split_last (CHR ''/'') ?c = None" using c by (simp add: split_last_None)
    have "join_path (take (i - 1) ds) = []" by (simp only: True join_path.simps)
    moreover have "join_path (take i ds) = ?c" by (simp only: t True append_Nil join_path.simps)
    ultimately show ?thesis using \<open>split_last (CHR ''/'') ?c = None\<close> by (simp del: One_nat_def)
  next
    case False
    have "split_last (CHR ''/'') (join_path (take (i - 1) ds) @ CHR ''/'' # ?c)
        = Some (join_path (take (i - 1) ds), ?c)" using c by (simp add: split_last_Some)
    with t False show ?thesis by (simp add: join_path_snoc)
  qed
qed

lemma pathcomp_get_up:
  assumes c: "clean ds" and u: "up_state pc t0 ds k i ts"
  shows "\<exists>pc'. pathcomp_get pc = Some (pc', Some (PC_DIRUP, join_path (take i ds))) \<and>
    (if k < i - 1 then up_state pc' t0 ds k (i - 1) ts
     else target pc' = Some t0 \<and> trashed pc' = None \<and> targetlen pc' = length (join_path ts) \<and>
       goal pc' = length (join_path ts) \<and> curlen pc' = length (join_path (take k ds)))"
proof -
  obtain p where p: "prev pc = Some p" "curlen pc \<le> length p"
    "take (curlen pc) p = join_path (take i ds)"
    using u by (auto simp: up_state_def)
  have i: "k < i" "i \<le> length ds" "curlen pc = length (join_path (take i ds))"
    and g: "goal pc = length (join_path (take k ds))"
    using u by (auto simp: up_state_def)
  let ?p = "p[curlen pc := CHR 0x00]"
  let ?pos = "length (join_path (take (i - 1) ds))"
  have up: "goal pc < curlen pc" using join_take_less [OF c i(1,2)] i(3) g by simp
  have pos: "(case split_last (CHR ''/'') (take (curlen pc) ?p) of None \<Rightarrow> 0 | Some (a, _) \<Rightarrow> length a) = ?pos"
    using split_last_join [OF c] i p(3) by simp
  have name: "c_string ?p = join_path (take i ds)"
    using c_string_prefix [OF p(3,2)] join_path_no_nul [of "take i ds"] c by simp
  have ge: "goal pc \<le> ?pos" using i join_path_take_mono [of k "i - 1" ds] g by simp
  have eq: "?pos = goal pc \<longleftrightarrow> \<not> k < i - 1"
  proof (cases "k < i - 1")
    case True
    then have "length (join_path (take k ds)) < ?pos" using join_take_less [OF c] i(2) by simp
    with True g show ?thesis by simp
  next
    case False
    then have "i - 1 = k" using i(1) by simp
    with g show ?thesis by simp
  qed
  have lt: "?pos < curlen pc" using join_take_less [OF c, of "i - 1" i] i by simp
  have "take ?pos ?p = take ?pos (take (curlen pc) p)" using lt by (simp add: min_absorb1)
  also have "\<dots> = take ?pos (join_path (take i ds))" by (simp only: p(3))
  also have "\<dots> = join_path (take (i - 1) ds)"
  proof -
    have "dir_prefix (join_path (take (i - 1) (take i ds))) (join_path (take i ds))"
      using c by (intro dir_prefix_join_take) simp
    then show ?thesis using i by (simp add: min_absorb1 dir_prefix_take)
  qed
  finally have pre: "take ?pos ?p = join_path (take (i - 1) ds)" .
  let ?pc = "pc\<lparr>prev := Some ?p, curlen := ?pos\<rparr>"
  let ?pc' = "if ?pos = goal pc then ?pc\<lparr>goal := targetlen pc\<rparr> else ?pc"
  have get: "pathcomp_get pc = Some (?pc', Some (PC_DIRUP, join_path (take i ds)))"
    using up ge pos name p(1) by (simp add: pathcomp_get_def pathcomp_up_def Let_def)
  show ?thesis
  proof (cases "k < i - 1")
    case True
    then have "?pc' = ?pc" using eq by simp
    then have "up_state ?pc' t0 ds k (i - 1) ts"
      using u True i pre lt p(2) by (simp add: up_state_def)
    with get True show ?thesis by auto
  next
    case False
    then have "?pc' = ?pc\<lparr>goal := targetlen pc\<rparr>" "i - 1 = k" using eq i by auto
    with get False u show ?thesis by (intro exI [of _ ?pc']) (simp add: up_state_def)
  qed
qed

lemma find_slash_scan:
  assumes "t = pre @ c @ rest" and "CHR ''/'' \<notin> set c" and "length c \<le> n"
    and "length c = n \<or> (\<exists>r. rest = CHR ''/'' # r)"
  shows "find_slash t (length pre) n = length pre + length c"
  using assms
proof (induction c arbitrary: pre n)
  case Nil
  then show ?case by (cases n) auto
next
  case (Cons x c)
  then obtain m where n: "n = Suc m" by (cases n) auto
  have "find_slash t (length (pre @ [x])) m = length (pre @ [x]) + length c"
    using Cons.prems n by (intro Cons.IH) auto
  with Cons.prems n show ?case by auto
qed

lemma target_text_split:
  assumes "target_text t0 ts" and "i < length ts"
  shows "\<exists>rest. t0 = join_path (take (Suc i) ts) @ rest \<and> (rest = [] \<or> (\<exists>r. rest = CHR ''/'' # r)) \<and>
    (Suc i < length ts \<longrightarrow> rest \<noteq> [])"
proof -
  from assms obtain r where t0: "t0 = join_path ts @ r" and r: "r = [] \<or> hd r = CHR ''/''"
    by (cases ts) (auto simp: target_text_def)
  show ?thesis
  proof (cases "Suc i = length ts")
    case True
    then have "take (Suc i) ts = ts" by simp
    with t0 r True show ?thesis by (intro exI [of _ r]) (cases r; auto)
  next
    case False
    then have "take (Suc i) ts \<noteq> []" "drop (Suc i) ts \<noteq> []" using assms(2) by auto
    then have "join_path ts = join_path (take (Suc i) ts) @ CHR ''/'' # join_path (drop (Suc i) ts)"
      by (metis append_take_drop_id join_path_append)
    with t0 show ?thesis by simp
  qed
qed

lemma join_take_Suc:
  "i < length ts \<Longrightarrow> join_path (take (Suc i) ts) =
    (if i = 0 then ts ! i else join_path (take i ts) @ CHR ''/'' # ts ! i)"
  by (auto simp: take_Suc_conv_app_nth join_path_snoc)

lemma find_slash_component:
  assumes c: "clean ts" and t: "target_text t0 ts" and i: "i < length ts"
  defines "n \<equiv> length (join_path (take i ts))"
  defines "start \<equiv> if n = 0 then n else n + 1"
  shows "find_slash t0 start (length (join_path ts) - start) = length (join_path (take (Suc i) ts))"
proof -
  obtain rest where t0: "t0 = join_path (take (Suc i) ts) @ rest"
    and rest: "rest = [] \<or> (\<exists>r. rest = CHR ''/'' # r)" "Suc i < length ts \<longrightarrow> rest \<noteq> []"
    using target_text_split [OF t i] by auto
  have cl: "CHR ''/'' \<notin> set (ts ! i)" using c i by (auto simp: clean_def)
  have n0: "n = 0 \<longleftrightarrow> i = 0"
    unfolding n_def length_0_conv using c i by (subst join_path_Nil_iff) auto
  let ?pre = "if i = 0 then [] else join_path (take i ts) @ ''/''"
  have pre: "join_path (take (Suc i) ts) = ?pre @ ts ! i" using i by (simp add: join_take_Suc)
  have start: "start = length ?pre" using n0 by (auto simp: start_def n_def)
  have le: "length (join_path (take (Suc i) ts)) \<le> length (join_path ts)"
    using i join_path_take_mono [of "Suc i" "length ts" ts] by simp
  have "length (ts ! i) = length (join_path ts) - start \<or> (\<exists>r. rest = CHR ''/'' # r)"
  proof (cases "Suc i = length ts")
    case True
    then have "length (join_path ts) = length (join_path (take (Suc i) ts))" by simp
    then show ?thesis using pre start by simp
  next
    case False
    with rest i show ?thesis by auto
  qed
  then have "find_slash t0 (length ?pre) (length (join_path ts) - start) = length ?pre + length (ts ! i)"
    using t0 pre cl le start by (intro find_slash_scan [where rest = rest]) auto
  then show ?thesis using pre start by simp
qed

lemma restore_simps [simp]:
  "curlen (restore pc) = curlen pc" "goal (restore pc) = goal pc"
  "targetlen (restore pc) = targetlen pc" "prev (restore pc) = prev pc"
  "prevlen (restore pc) = prevlen pc"
  by (simp_all add: restore_def split: option.splits)

lemma restore_cut:
  "n < length t \<Longrightarrow> t ! n = CHR ''/'' \<Longrightarrow>
    restore (pc\<lparr>trashed := Some n, target := Some (t[n := CHR 0x00]), curlen := m\<rparr>)
      = pc\<lparr>trashed := None, target := Some t, curlen := m\<rparr>"
  by (simp add: restore_def list_update_same_conv)

lemma restore_id: "trashed pc = None \<Longrightarrow> restore pc = pc"
  by (simp add: restore_def)

lemma pathcomp_down_at:
  assumes "target (restore pc) = Some t"
    and "find_slash t (if curlen pc = 0 then curlen pc else curlen pc + 1)
      (goal pc - (if curlen pc = 0 then curlen pc else curlen pc + 1)) = pos"
    and "pos < length t \<Longrightarrow> t ! pos = CHR ''/''"
  shows "pathcomp_down pc = Some
    (if pos < length t
     then (restore pc\<lparr>trashed := Some pos, target := Some (t[pos := CHR 0x00]), curlen := pos\<rparr>,
           Some (PC_DIRDOWN, c_string (t[pos := CHR 0x00])))
     else (restore pc\<lparr>curlen := pos\<rparr>, Some (PC_DIRDOWN, c_string t)))"
  unfolding pathcomp_down_def Let_def assms(1) option.case restore_simps
  unfolding assms(2) using assms(3) by simp

lemma pathcomp_get_down:
  assumes c: "clean ts" and t: "target_text t0 ts" and d: "down_state pc t0 i ts" and i: "i < length ts"
  shows "\<exists>pc'. pathcomp_get pc = Some (pc', Some (PC_DIRDOWN, join_path (take (Suc i) ts))) \<and>
    down_state pc' t0 (Suc i) ts"
proof -
  let ?pos = "length (join_path (take (Suc i) ts))"
  let ?start = "if curlen pc = 0 then curlen pc else curlen pc + 1"
  let ?pc = "restore pc"
  have s: "target ?pc = Some t0" "trashed ?pc = None" "goal pc = length (join_path ts)"
    "curlen pc = length (join_path (take i ts))"
    using d by (simp_all add: down_state_def)
  have lt: "curlen pc < goal pc" using join_take_less [OF c, of i "length ts"] i s by simp
  obtain rest where t0: "t0 = join_path (take (Suc i) ts) @ rest"
    and rest: "rest = [] \<or> (\<exists>r. rest = CHR ''/'' # r)"
    using target_text_split [OF t i] by auto
  note down = pathcomp_down_at [OF s(1) find_slash_component [OF c t i, folded s(3,4)]]
  have nul: "CHR 0x00 \<notin> set (join_path (take (Suc i) ts))" using c by (simp add: join_path_no_nul)
  have name: "c_string (t0[?pos := CHR 0x00]) = join_path (take (Suc i) ts)"
    using t0 nul by (intro c_string_prefix) simp_all
  show ?thesis
  proof (cases "rest = []")
    case True
    then have "t0[?pos := CHR 0x00] = t0" using t0 by (simp add: list_update_beyond)
    then have "pathcomp_get pc = Some (?pc\<lparr>curlen := ?pos\<rparr>, Some (PC_DIRDOWN, join_path (take (Suc i) ts)))"
      using lt name t0 True down by (simp add: pathcomp_get_def)
    moreover have "down_state (?pc\<lparr>curlen := ?pos\<rparr>) t0 (Suc i) ts"
      using d i s by (simp add: down_state_def restore_id)
    ultimately show ?thesis by blast
  next
    case False
    with rest t0 have sl: "?pos < length t0" "t0 ! ?pos = CHR ''/''" by (auto simp: nth_append)
    let ?pc' = "?pc\<lparr>trashed := Some ?pos, target := Some (t0[?pos := CHR 0x00]), curlen := ?pos\<rparr>"
    have "pathcomp_get pc = Some (?pc', Some (PC_DIRDOWN, join_path (take (Suc i) ts)))"
      using lt name sl down by (simp add: pathcomp_get_def)
    moreover have "down_state ?pc' t0 (Suc i) ts"
      using d i s by (simp add: down_state_def restore_cut [OF sl])
    ultimately show ?thesis by blast
  qed
qed

lemma pathcomp_get_done:
  assumes t: "target_text t0 ts" and d: "down_state pc t0 (length ts) ts"
  shows "\<exists>pc'. pathcomp_get pc = Some (pc', None) \<and> at_dir pc' ts"
proof -
  have "target pc \<noteq> None" using d by (auto simp: down_state_def restore_def split: option.splits)
  moreover have "take (length (join_path ts)) t0 = join_path ts" using t by (auto simp: target_text_def)
  ultimately show ?thesis using d
    by (auto simp: pathcomp_get_def pathcomp_done_def down_state_def at_dir_def Let_def)
qed

lemma downs_Cons: "i < length ts \<Longrightarrow> downs i ts = (PC_DIRDOWN, join_path (take (Suc i) ts)) # downs (Suc i) ts"
  by (simp add: downs_def upt_conv_Cons del: upt_Suc)

lemma ups_step: "k < i \<Longrightarrow> ups k i ds = (PC_DIRUP, join_path (take i ds)) # ups k (i - 1) ds"
  by (cases i) (auto simp: ups_def)

lemma ups_self [simp]: "ups k k ds = []"
  by (simp add: ups_def)

lemma pathcomp_drain_down:
  assumes c: "clean ts" and t: "target_text t0 ts"
  shows "down_state pc t0 i ts \<Longrightarrow> i \<le> length ts \<Longrightarrow> length ts - i < n \<Longrightarrow>
    \<exists>pc'. pathcomp_drain n pc = Some (downs i ts, pc') \<and> at_dir pc' ts"
proof (induction n arbitrary: i pc)
  case (Suc n)
  show ?case
  proof (cases "i = length ts")
    case True
    then show ?thesis using pathcomp_get_done [OF t, of pc] Suc.prems by (auto simp: downs_def)
  next
    case False
    then have lt: "i < length ts" using Suc.prems by simp
    from pathcomp_get_down [OF c t Suc.prems(1) lt] obtain pc1 where
      "pathcomp_get pc = Some (pc1, Some (PC_DIRDOWN, join_path (take (Suc i) ts)))"
      "down_state pc1 t0 (Suc i) ts" by blast
    moreover from this(2) obtain pc' where "pathcomp_drain n pc1 = Some (downs (Suc i) ts, pc')" "at_dir pc' ts"
      using Suc.IH [of pc1 "Suc i"] Suc.prems(3) lt by (metis Suc_diff_Suc Suc_leI Suc_less_SucD)
    ultimately show ?thesis using lt by (auto simp: downs_Cons)
  qed
qed simp

lemma pathcomp_drain_up:
  assumes cd: "clean ds" and c: "clean ts" and t: "target_text t0 ts"
    and k: "k \<le> length ts" "take k ds = take k ts"
  shows "up_state pc t0 ds k i ts \<Longrightarrow> (i - k) + (length ts - k) < n \<Longrightarrow>
    \<exists>pc'. pathcomp_drain n pc = Some (ups k i ds @ downs k ts, pc') \<and> at_dir pc' ts"
proof (induction n arbitrary: i pc)
  case (Suc n)
  have ki: "k < i" using Suc.prems(1) by (simp add: up_state_def)
  from pathcomp_get_up [OF cd Suc.prems(1)] obtain pc1 where
    g: "pathcomp_get pc = Some (pc1, Some (PC_DIRUP, join_path (take i ds)))"
    and st: "if k < i - 1 then up_state pc1 t0 ds k (i - 1) ts
     else target pc1 = Some t0 \<and> trashed pc1 = None \<and> targetlen pc1 = length (join_path ts) \<and>
       goal pc1 = length (join_path ts) \<and> curlen pc1 = length (join_path (take k ds))" by blast
  have "\<exists>pc'. pathcomp_drain n pc1 = Some (ups k (i - 1) ds @ downs k ts, pc') \<and> at_dir pc' ts"
  proof (cases "k < i - 1")
    case True
    then show ?thesis using st Suc.IH [of pc1 "i - 1"] Suc.prems(2) by simp
  next
    case False
    with ki have i: "i - 1 = k" by simp
    have "down_state pc1 t0 k ts" using st False k by (simp add: down_state_def restore_id)
    then show ?thesis
      using pathcomp_drain_down [OF c t, of pc1 k n] k(1) Suc.prems(2) ki i by simp
  qed
  then show ?case using g ki by (auto simp: ups_step)
qed simp

lemma record_dir_text: "clean ts \<Longrightarrow> record_dir type path ts \<Longrightarrow> target_text path ts"
  by (auto simp: record_dir_def target_text_def join_path_no_nul join_path_snoc split: if_splits)

lemma record_dir_rel: "clean ts \<Longrightarrow> record_dir type path ts \<Longrightarrow> path \<noteq> [] \<longrightarrow> hd path \<noteq> CHR ''/''"
proof -
  assume c: "clean ts" and r: "record_dir type path ts"
  then obtain q where q: "path = join_path ts @ q" "ts = [] \<longrightarrow> CHR ''/'' \<notin> set q"
    by (auto simp: record_dir_def join_path_snoc split: if_splits)
  show ?thesis
  proof (cases ts)
    case Nil
    with q show ?thesis by (cases q) auto
  next
    case (Cons a xs)
    with c have "join_path ts \<noteq> []" by (subst join_path_Nil_iff) auto
    with q c join_path_not_slash [of ts] show ?thesis by (cases "join_path ts") auto
  qed
qed

lemma record_dir_len:
  assumes "clean ts" and "record_dir type path ts"
  shows "(case type of PC_DIRDOWN \<Rightarrow> length path
    | _ \<Rightarrow> (case split_last (CHR ''/'') path of None \<Rightarrow> 0 | Some (a, _) \<Rightarrow> length a)) = length (join_path ts)"
proof (cases "type = PC_DIRDOWN")
  case False
  with assms(2) obtain f where f: "CHR ''/'' \<notin> set f" "path = join_path (ts @ [f])"
    by (auto simp: record_dir_def)
  have "(case split_last (CHR ''/'') path of None \<Rightarrow> 0 | Some (a, _) \<Rightarrow> length a) = length (join_path ts)"
    using f split_last_None [of "CHR ''/''" f] split_last_Some [of "CHR ''/''" "join_path ts @ CHR ''/'' # f" "join_path ts" f]
    by (cases "ts = []") (simp_all add: join_path_snoc)
  with False show ?thesis by (cases type) simp_all
qed (use assms in \<open>simp add: record_dir_def\<close>)

lemma pathcomp_put_at_dir:
  assumes at: "at_dir pc ds" and c: "clean ds" "clean ts" and r: "record_dir type path ts"
  defines "k \<equiv> length (lcp ds ts)"
  shows "\<exists>pc1. pathcomp_put pc type path = Some (Some pc1) \<and>
    (if k < length ds then up_state pc1 path ds k (length ds) ts else down_state pc1 path k ts)"
proof -
  let ?g = "length (join_path (take k ds))"
  have kd: "k \<le> length ds" and kt: "k \<le> length ts" "take k ds = take k ts"
    unfolding k_def using lcp_take1 [of ds ts] lcp_take2 [of ds ts]
    by (metis length_take min.cobounded1, metis length_take min.cobounded1, metis)
  have pre: "take (length (join_path ts)) path = join_path ts"
    using record_dir_text [OF c(2) r] by (auto simp: target_text_def)
  have g: "(case prev pc of None \<Rightarrow> 0
      | Some p \<Rightarrow> commonpathlength (take (prevlen pc) p) (take (length (join_path ts)) path)) = ?g"
    using at commonpathlength_join [OF c] lcp_take1 [of ds ts]
    by (auto simp: at_dir_def pre k_def split: option.splits)
  let ?pc1 = "pc\<lparr>target := Some path, targetlen := length (join_path ts),
    goal := if curlen pc = ?g then length (join_path ts) else ?g\<rparr>"
  have put: "pathcomp_put pc type path = Some (Some ?pc1)"
    using at record_dir_rel [OF c(2) r]
    by (auto simp: pathcomp_put_def record_dir_len [OF c(2) r] g Let_def at_dir_def)
  have cur: "curlen pc = length (join_path ds)" and tr: "trashed pc = None"
    using at by (simp_all add: at_dir_def)
  show ?thesis
  proof (cases "k < length ds")
    case True
    then have lt: "?g < length (join_path ds)" using join_take_less [OF c(1), of k "length ds"] by simp
    from True obtain p where "prev pc = Some p" "p = join_path ds"
      using at by (auto simp: at_dir_def split: option.splits)
    then have "up_state ?pc1 path ds k (length ds) ts"
      using True lt cur tr by (simp add: up_state_def)
    with put True show ?thesis by auto
  next
    case False
    then have kl: "k = length ds" using kd by simp
    with kt have "take k ts = ds" by simp
    then have "down_state ?pc1 path k ts" using kl kt cur tr by (simp add: down_state_def restore_id)
    with put False show ?thesis by auto
  qed
qed

lemma pathcomp_move:
  assumes at: "at_dir pc ds" and c: "clean ds" "clean ts" and r: "record_dir type path ts"
  defines "k \<equiv> length (lcp ds ts)"
  assumes n: "length ds + length ts < n"
  shows "\<exists>pc1 pc2. pathcomp_put pc type path = Some (Some pc1) \<and>
    pathcomp_drain n pc1 = Some (ups k (length ds) ds @ downs k ts, pc2) \<and> at_dir pc2 ts"
proof -
  have kd: "k \<le> length ds" and kt: "k \<le> length ts" "take k ds = take k ts"
    unfolding k_def using lcp_take1 [of ds ts] lcp_take2 [of ds ts]
    by (metis length_take min.cobounded1, metis length_take min.cobounded1, metis)
  note t = record_dir_text [OF c(2) r]
  from pathcomp_put_at_dir [OF at c r] obtain pc1 where
    put: "pathcomp_put pc type path = Some (Some pc1)" and
    st: "if k < length ds then up_state pc1 path ds k (length ds) ts else down_state pc1 path k ts"
    unfolding k_def by blast
  show ?thesis
  proof (cases "k < length ds")
    case True
    with st have "up_state pc1 path ds k (length ds) ts" by simp
    from pathcomp_drain_up [OF c t kt this] n kd kt(1) put show ?thesis by auto
  next
    case False
    with kd have kl: "k = length ds" by simp
    from False st have "down_state pc1 path k ts" by simp
    from pathcomp_drain_down [OF c(2) t this kt(1)] n put kl show ?thesis by auto
  qed
qed

section \<open>A sequence of records\<close>

text \<open>
  Feeding a sequence of records to the compressor, each with \<open>pathcomp_put\<close> and the loop
  that drains it, as \<open>status_wr\<close> and \<open>status_delete\<close> do.
\<close>

fun pathcomp_run ::
  "nat \<Rightarrow> pathcomp \<Rightarrow> (pc_type \<times> string) list \<Rightarrow> ((pc_type \<times> string) list \<times> pathcomp) option" where
  "pathcomp_run n pc [] = Some ([], pc)"
| "pathcomp_run n pc ((type, path) # rs) =
     (case pathcomp_put pc type path of
        Some (Some pc1) \<Rightarrow>
          (case pathcomp_drain n pc1 of
             None \<Rightarrow> None
           | Some (evs, pc2) \<Rightarrow>
               map_option (\<lambda>(evs', pc'). (evs @ evs', pc')) (pathcomp_run n pc2 rs))
      | _ \<Rightarrow> None)"

fun moves :: "string list \<Rightarrow> string list list \<Rightarrow> (pc_type \<times> string) list" where
  "moves ds [] = []"
| "moves ds (ts # tss) =
     ups (length (lcp ds ts)) (length ds) ds @ downs (length (lcp ds ts)) ts @ moves ts tss"

definition records_in :: "(pc_type \<times> string) list \<Rightarrow> string list list \<Rightarrow> bool" where
  "records_in recs tss \<longleftrightarrow>
     list_all2 (\<lambda>(type, path) ts. clean ts \<and> record_dir type path ts) recs tss"

lemma pathcomp_run_at_dir:
  "at_dir pc ds \<Longrightarrow> clean ds \<Longrightarrow> records_in recs tss \<Longrightarrow> \<forall>ts \<in> set (ds # tss). 2 * length ts < n \<Longrightarrow>
    \<exists>pc'. pathcomp_run n pc recs = Some (moves ds tss, pc') \<and> at_dir pc' (last (ds # tss))"
proof (induction recs arbitrary: pc ds tss)
  case Nil
  then show ?case by (simp add: records_in_def)
next
  case (Cons r recs)
  obtain type path where r: "r = (type, path)" by force
  from Cons.prems(3) r obtain ts tss' where tss: "tss = ts # tss'" "clean ts" "record_dir type path ts"
    "records_in recs tss'"
    by (auto simp: records_in_def list_all2_Cons1)
  have "length ds + length ts < n" using Cons.prems(4) tss(1) by auto
  from pathcomp_move [OF Cons.prems(1,2) tss(2,3) this] obtain pc1 pc2 where
    "pathcomp_put pc type path = Some (Some pc1)"
    "pathcomp_drain n pc1 = Some (ups (length (lcp ds ts)) (length ds) ds @ downs (length (lcp ds ts)) ts, pc2)"
    and at: "at_dir pc2 ts" by blast
  moreover obtain pc' where "pathcomp_run n pc2 recs = Some (moves ts tss', pc')" "at_dir pc' (last (ts # tss'))"
    using Cons.IH [OF at tss(2,4)] Cons.prems(4) tss(1) by auto
  ultimately show ?case using r tss(1) by simp
qed

text \<open>
  Claim C24. For any sequence of records in directories \<open>tss\<close>, the compressor emits between two
  records exactly the directories left, from the deepest up to the common ancestor, and then
  those entered, from the ancestor down; it ends in the directory of the last record. No
  assertion fails and twice the greatest depth plus one rounds of the drain loop are enough.
\<close>

theorem pathcomp_emits_moves:
  assumes "records_in recs tss" and "0 < n" and "\<forall>ts \<in> set tss. 2 * length ts < n"
  shows "\<exists>pc'. pathcomp_run n pathcomp_new recs = Some (moves [] tss, pc') \<and> at_dir pc' (last ([] # tss))"
  using pathcomp_run_at_dir [OF at_dir_new _ assms(1), of n] assms(2,3) by simp

theorem pathcomp_emits_moves_witness:
  "\<exists>pc'. pathcomp_run 5 pathcomp_new [(PC_FILE, ''a/b/x''), (PC_DIRDOWN, ''a/c''), (PC_FILE, ''z'')] =
     Some ([(PC_DIRDOWN, ''a''), (PC_DIRDOWN, ''a/b''), (PC_DIRUP, ''a/b''), (PC_DIRDOWN, ''a/c''),
            (PC_DIRUP, ''a/c''), (PC_DIRUP, ''a'')], pc') \<and> at_dir pc' []"
  using pathcomp_emits_moves
    [of "[(PC_FILE, ''a/b/x''), (PC_DIRDOWN, ''a/c''), (PC_FILE, ''z'')]" "[[''a'', ''b''], [''a'', ''c''], []]" 5]
  by (simp add: records_in_def record_dir_def ups_def downs_def upt_rec)

end
