(* ===== verification/Stream.thy ===== *)
theory Stream
  imports Prelude
begin

text \<open>
  The buffered streams of \<open>stream.c\<close>: buffers (\<open>struct buf\<close>) as a byte list of
  \<open>size + 1\<close> cells with a window \<open>off\<close>, \<open>in\<close>; streams with a read and a write
  function over a cookie; the null, MD5, MD5RCS and zlib filters. A failed assertion, a NULL
  dereference or a loop that outruns its fuel is \<open>None\<close>; the C return value is an \<open>int\<close>,
  \<open>-1\<close> on error. MD5 and zlib are libraries: their functions are the record \<open>lib\<close>.
  The lemmas show that reading by lines and writing do not depend on how the underlying
  functions cut the data, nor on when the buffer is flushed, and that a write session ends with
  an error only over a write function that can fail. \<open>stream_close\<close> calls the close function last
  and returns its result.
\<close>

section \<open>Buffers\<close>

record buf =
  bdata :: string
  bsize :: nat
  bin :: nat
  boff :: nat

definition buf_avail :: "buf \<Rightarrow> nat" where
  "buf_avail b = bsize b - boff b - bin b"

definition buf_bytes :: "buf \<Rightarrow> string" where
  "buf_bytes b = take (bin b) (drop (boff b) (bdata b))"

definition poke :: "string \<Rightarrow> nat \<Rightarrow> string \<Rightarrow> string" where
  "poke xs off s = take off xs @ s @ drop (off + length s) xs"

definition buf_new :: "nat \<Rightarrow> buf" where
  "buf_new n = \<lparr>bdata = replicate (n + 1) (CHR 0x00), bsize = n, bin = 0, boff = 0\<rparr>"

text \<open>The loop of \<open>buf_grow\<close>: the next value of the form \<open>2^k * (size + 1) - 1\<close>.\<close>

function grow_size :: "nat \<Rightarrow> nat \<Rightarrow> nat" where
  "grow_size sz need = (if sz < need then grow_size (sz * 2 + 1) need else sz)"
  by auto
termination by (relation "measure (\<lambda>(sz, need). need - sz)") auto

declare grow_size.simps [simp del]

text \<open>The bytes \<open>realloc\<close> adds have no defined content; the model fills them with NUL.\<close>

definition buf_resize :: "buf \<Rightarrow> nat \<Rightarrow> buf" where
  "buf_resize b sz = b\<lparr>bdata := bdata b @ replicate (sz - bsize b) (CHR 0x00), bsize := sz\<rparr>"

definition buf_grow :: "buf \<Rightarrow> nat \<Rightarrow> buf option" where
  "buf_grow b need =
     (if need = 0 then Some (buf_resize b (bsize b * 2 + 1))
      else if need > bsize b then Some (buf_resize b (grow_size (bsize b) need))
      else None)"

definition buf_prewrite :: "buf \<Rightarrow> buf option" where
  "buf_prewrite b =
     (case (if bin b = bsize b then buf_grow b 0 else Some b) of
        None \<Rightarrow> None
      | Some b1 \<Rightarrow>
          Some (if bin b1 > 0 \<and> buf_avail b1 = 0
                then b1\<lparr>bdata := poke (bdata b1) 0 (buf_bytes b1), boff := 0\<rparr> else b1))"

definition buf_more :: "buf \<Rightarrow> nat \<Rightarrow> buf option" where
  "buf_more b n = (if n \<le> buf_avail b then Some (b\<lparr>bin := bin b + n\<rparr>) else None)"

definition buf_less :: "buf \<Rightarrow> nat \<Rightarrow> buf option" where
  "buf_less b n =
     (if n \<le> bin b then
        Some (if bin b - n = 0 then b\<lparr>bin := 0, boff := 0\<rparr>
              else b\<lparr>bin := bin b - n, boff := boff b + n\<rparr>)
      else None)"

text \<open>\<open>memcpy\<close> of new bytes behind those in the buffer.\<close>

definition buf_copyin :: "buf \<Rightarrow> string \<Rightarrow> buf" where
  "buf_copyin b s = b\<lparr>bdata := poke (bdata b) (boff b + bin b) s\<rparr>"

definition buf_ok :: "buf \<Rightarrow> bool" where
  "buf_ok b \<longleftrightarrow> length (bdata b) = bsize b + 1 \<and> boff b + bin b \<le> bsize b \<and> (bin b = 0 \<longrightarrow> boff b = 0)"

lemma length_poke [simp]: "off + length s \<le> length xs \<Longrightarrow> length (poke xs off s) = length xs"
  by (simp add: poke_def)

lemma grow_size_ge: "need \<le> grow_size sz need" "sz \<le> grow_size sz need"
proof (induction sz need rule: grow_size.induct)
  case (1 sz need)
  { case 1 show ?case using "1.IH" by (subst grow_size.simps) auto
  next case 2 show ?case using "1.IH" by (subst grow_size.simps) auto }
qed

lemma buf_new_ok [simp]: "buf_ok (buf_new n)" "buf_bytes (buf_new n) = []" "bin (buf_new n) = 0"
  "buf_avail (buf_new n) = n" "bsize (buf_new n) = n"
  by (simp_all add: buf_new_def buf_ok_def buf_bytes_def buf_avail_def)

lemma buf_bytes_length [simp]: "buf_ok b \<Longrightarrow> length (buf_bytes b) = bin b"
  by (auto simp: buf_ok_def buf_bytes_def)

lemma buf_bytes_Nil: "buf_ok b \<Longrightarrow> buf_bytes b = [] \<longleftrightarrow> bin b = 0"
  by (metis buf_bytes_length length_0_conv)

lemma buf_resize_ok:
  "buf_ok b \<Longrightarrow> bsize b \<le> sz \<Longrightarrow> buf_ok (buf_resize b sz) \<and> buf_bytes (buf_resize b sz) = buf_bytes b \<and>
    bin (buf_resize b sz) = bin b \<and> boff (buf_resize b sz) = boff b \<and> bsize (buf_resize b sz) = sz"
  by (auto simp: buf_ok_def buf_resize_def buf_bytes_def)

lemma buf_grow_ok:
  "buf_ok b \<Longrightarrow> need = 0 \<or> bsize b < need \<Longrightarrow>
    \<exists>b'. buf_grow b need = Some b' \<and> buf_ok b' \<and> buf_bytes b' = buf_bytes b \<and> bin b' = bin b \<and>
      boff b' = boff b \<and> need \<le> bsize b' \<and> bsize b < bsize b'"
proof -
  assume ok: "buf_ok b" and n: "need = 0 \<or> bsize b < need"
  let ?sz = "if need = 0 then bsize b * 2 + 1 else grow_size (bsize b) need"
  have "need \<le> ?sz" "bsize b < ?sz" using n grow_size_ge(1) [of need "bsize b"] by auto
  moreover have "buf_grow b need = Some (buf_resize b ?sz)" using n by (auto simp: buf_grow_def)
  ultimately show ?thesis using buf_resize_ok [OF ok, of ?sz] by auto
qed

lemma buf_prewrite_ok:
  assumes "buf_ok b"
  shows "\<exists>b'. buf_prewrite b = Some b' \<and> buf_ok b' \<and> buf_bytes b' = buf_bytes b \<and> bin b' = bin b \<and> 0 < buf_avail b'"
proof -
  obtain b1 where b1: "(if bin b = bsize b then buf_grow b 0 else Some b) = Some b1"
    "buf_ok b1" "buf_bytes b1 = buf_bytes b" "bin b1 = bin b" "bin b1 < bsize b1"
  proof (cases "bin b = bsize b")
    case True
    with buf_grow_ok [OF assms, of 0] that show ?thesis by auto
  next
    case False
    with assms that [of b] show ?thesis by (auto simp: buf_ok_def)
  qed
  show ?thesis
  proof (cases "bin b1 > 0 \<and> buf_avail b1 = 0")
    case True
    let ?b = "b1\<lparr>bdata := poke (bdata b1) 0 (buf_bytes b1), boff := 0\<rparr>"
    have len: "length (buf_bytes b1) = bin b1" using b1(2) by simp
    have "length (poke (bdata b1) 0 (buf_bytes b1)) = length (bdata b1)"
      using b1(2) len by (intro length_poke) (simp add: buf_ok_def)
    then have "buf_ok ?b" using b1(2) True by (auto simp: buf_ok_def)
    moreover have "buf_bytes ?b = buf_bytes b1" using len by (simp add: buf_bytes_def poke_def)
    ultimately show ?thesis using True b1 by (auto simp: buf_prewrite_def buf_avail_def)
  next
    case False
    moreover have "0 < buf_avail b1" if "bin b1 = 0"
      using that b1(2,5) by (simp add: buf_ok_def buf_avail_def)
    ultimately show ?thesis using b1 by (auto simp: buf_prewrite_def)
  qed
qed

lemma buf_less_ok:
  "buf_ok b \<Longrightarrow> n \<le> bin b \<Longrightarrow> \<exists>b'. buf_less b n = Some b' \<and> buf_ok b' \<and>
    buf_bytes b' = drop n (buf_bytes b) \<and> bin b' = bin b - n \<and> bsize b' = bsize b"
  by (auto simp: buf_less_def buf_ok_def buf_bytes_def drop_take add.commute)

lemma poke_window:
  assumes "o1 + i + length s \<le> length d"
  shows "take (i + length s) (drop o1 (poke d (o1 + i) s)) = take i (drop o1 d) @ s"
proof -
  have "drop o1 (poke d (o1 + i) s) = take i (drop o1 d) @ s @ drop (o1 + i + length s) d"
    using assms by (simp add: poke_def take_drop add.commute)
  then show ?thesis using assms by simp
qed

lemma buf_copyin_more:
  assumes "buf_ok b" and "length s \<le> buf_avail b"
  shows "\<exists>b'. buf_more (buf_copyin b s) (length s) = Some b' \<and> buf_ok b' \<and>
    buf_bytes b' = buf_bytes b @ s \<and> bin b' = bin b + length s \<and> bsize b' = bsize b"
proof (cases "s = []")
  case True
  with assms show ?thesis
    by (auto simp: buf_more_def buf_copyin_def poke_def buf_ok_def buf_bytes_def)
next
  case False
  with assms have le: "boff b + bin b + length s \<le> bsize b" by (auto simp: buf_ok_def buf_avail_def)
  then have len: "length (poke (bdata b) (boff b + bin b) s) = bsize b + 1"
    using assms(1) by (simp add: buf_ok_def)
  have d: "length (bdata b) = bsize b + 1" using assms(1) by (simp add: buf_ok_def)
  have bytes: "take (bin b + length s) (drop (boff b) (poke (bdata b) (boff b + bin b) s))
      = take (bin b) (drop (boff b) (bdata b)) @ s"
    using le d by (intro poke_window) simp
  let ?b = "buf_copyin b s\<lparr>bin := bin b + length s\<rparr>"
  have "buf_more (buf_copyin b s) (length s) = Some ?b"
    using assms(2) by (simp add: buf_more_def buf_copyin_def buf_avail_def)
  moreover have "buf_ok ?b" using assms(1) le len False by (auto simp: buf_ok_def buf_copyin_def)
  moreover have "buf_bytes ?b = buf_bytes b @ s" using bytes by (simp add: buf_bytes_def buf_copyin_def)
  ultimately show ?thesis by (auto simp: buf_copyin_def)
qed

section \<open>Streams\<close>

datatype stream_filter_t = STREAM_FILTER_NULL | STREAM_FILTER_ZLIB | STREAM_FILTER_MD5 | STREAM_FILTER_MD5RCS

datatype stream_flush_t = STREAM_FLUSH_NORMAL | STREAM_FLUSH_CLOSING

text \<open>What a write function may do: take some bytes, be interrupted (\<open>EINTR\<close>), or fail.\<close>

datatype wres = Wrote nat | WIntr | WFail

datatype zflush = Z_SYNC_FLUSH | Z_FINISH

datatype zres = Z_OK | Z_STREAM_END | Z_BUF_ERROR | Z_ERROR

text \<open>
  The library functions: MD5 over a context, and one call of \<open>inflate\<close> or \<open>deflate\<close>
  with the bytes offered and the room given, yielding the new state, the number of bytes eaten,
  the bytes produced and the return code.
\<close>

record ('c, 'z) lib =
  MD5_Init :: 'c
  MD5_Update :: "'c \<Rightarrow> string \<Rightarrow> 'c"
  MD5_End :: "'c \<Rightarrow> string"
  inflateInit :: 'z
  deflateInit :: 'z
  inflate :: "'z \<Rightarrow> string \<Rightarrow> nat \<Rightarrow> 'z \<times> nat \<times> string \<times> zres"
  deflate :: "'z \<Rightarrow> zflush \<Rightarrow> string \<Rightarrow> nat \<Rightarrow> 'z \<times> nat \<times> string \<times> zres"

datatype md5_state = PRINT | WS | STRING | SEEN

record 'c md5filter =
  ctx :: 'c
  lastc :: char
  state :: md5_state

record 'z zfilter =
  zeof :: bool
  zrdbuf :: "buf option"
  zwrbuf :: "buf option"
  rdstate :: 'z
  wrstate :: 'z

datatype ('c, 'z) fdata = FD_none | FD_zlib "'z zfilter" | FD_md5 "'c md5filter"

text \<open>
  A stream. \<open>digest\<close> is the buffer the MD5 filters were given, filled when they end.
\<close>

record ('k, 'c, 'z) stream =
  cookie :: 'k
  rdbuf :: "buf option"
  wrbuf :: "buf option"
  readfn :: "('k \<Rightarrow> nat \<Rightarrow> 'k \<times> string option) option"
  writefn :: "('k \<Rightarrow> string \<Rightarrow> 'k \<times> wres) option"
  closefn :: "('k \<Rightarrow> 'k \<times> int) option"
  eof :: bool
  sfilter :: stream_filter_t
  fdata :: "('c, 'z) fdata"
  digest :: "string option"

definition STREAM_BUFSIZ :: nat where
  "STREAM_BUFSIZ = 1023"

definition stream_new ::
  "'k \<Rightarrow> ('k \<Rightarrow> nat \<Rightarrow> 'k \<times> string option) option \<Rightarrow> ('k \<Rightarrow> string \<Rightarrow> 'k \<times> wres) option \<Rightarrow>
    ('k \<Rightarrow> 'k \<times> int) option \<Rightarrow> ('k, 'c, 'z) stream option" where
  "stream_new k rfn wfn cfn =
     (if rfn = None \<and> wfn = None then None
      else Some \<lparr>cookie = k,
        rdbuf = (if rfn \<noteq> None then Some (buf_new STREAM_BUFSIZ) else None),
        wrbuf = (if wfn \<noteq> None then Some (buf_new STREAM_BUFSIZ) else None),
        readfn = rfn, writefn = wfn, closefn = cfn, eof = False,
        sfilter = STREAM_FILTER_NULL, fdata = FD_none, digest = None\<rparr>)"

subsection \<open>Filling and flushing\<close>

definition stream_fill_default ::
  "('k, 'c, 'z) stream \<Rightarrow> buf \<Rightarrow> (('k, 'c, 'z) stream \<times> buf \<times> int) option" where
  "stream_fill_default st b =
     (if eof st then Some (st, b, 0)
      else if buf_avail b = 0 then None
      else case readfn st of
        None \<Rightarrow> None
      | Some rf \<Rightarrow>
          (case rf (cookie st) (buf_avail b) of
             (k, None) \<Rightarrow> Some (st\<lparr>cookie := k\<rparr>, b, -1)
           | (k, Some s) \<Rightarrow>
               if s = [] then Some (st\<lparr>cookie := k, eof := True\<rparr>, b, 0)
               else map_option (\<lambda>b'. (st\<lparr>cookie := k\<rparr>, b', int (length s)))
                      (buf_more (buf_copyin b s) (length s))))"

fun stream_flush_default ::
  "nat \<Rightarrow> ('k, 'c, 'z) stream \<Rightarrow> buf \<Rightarrow> (('k, 'c, 'z) stream \<times> buf \<times> int) option" where
  "stream_flush_default 0 st b = None"
| "stream_flush_default (Suc n) st b =
     (if bin b = 0 then Some (st, b, 0)
      else case writefn st of
        None \<Rightarrow> None
      | Some wrf \<Rightarrow>
          (case wrf (cookie st) (buf_bytes b) of
             (k, WIntr) \<Rightarrow> stream_flush_default n (st\<lparr>cookie := k\<rparr>) b
           | (k, WFail) \<Rightarrow> Some (st\<lparr>cookie := k\<rparr>, b, -1)
           | (k, Wrote m) \<Rightarrow>
               if m = 0 then Some (st\<lparr>cookie := k\<rparr>, b, -1)
               else (case buf_less b m of
                       None \<Rightarrow> None
                     | Some b' \<Rightarrow> stream_flush_default n (st\<lparr>cookie := k\<rparr>) b')))"

subsection \<open>The zlib filter\<close>

fun zfill_loop ::
  "nat \<Rightarrow> ('c, 'z) lib \<Rightarrow> ('k, 'c, 'z) stream \<Rightarrow> 'z zfilter \<Rightarrow> buf \<Rightarrow> buf \<Rightarrow>
    (('k, 'c, 'z) stream \<times> buf \<times> int) option" where
  "zfill_loop 0 x st zf zbuf b = None"
| "zfill_loop (Suc n) x st zf zbuf b =
     (if bin zbuf = 0 then None
      else case inflate x (rdstate zf) (buf_bytes zbuf) (buf_avail b) of
        (z, ate, out, rv) \<Rightarrow>
          (case buf_less zbuf ate of
             None \<Rightarrow> None
           | Some zbuf1 \<Rightarrow>
               let zf1 = zf\<lparr>rdstate := z\<rparr> in
               if out = [] \<and> rv \<noteq> Z_STREAM_END then
                 (case stream_fill_default st zbuf1 of
                    None \<Rightarrow> None
                  | Some (st2, zbuf2, r) \<Rightarrow>
                      if r = -1 \<or> r = 0
                      then Some (st2\<lparr>fdata := FD_zlib (zf1\<lparr>zrdbuf := Some zbuf2\<rparr>)\<rparr>, b, r)
                      else zfill_loop n x st2 zf1 zbuf2 b)
               else if rv \<noteq> Z_STREAM_END \<and> rv \<noteq> Z_OK then None
               else
                 let zf2 = zf1\<lparr>zrdbuf := Some zbuf1, zeof := (zeof zf1 \<or> rv = Z_STREAM_END)\<rparr> in
                 map_option (\<lambda>b'. (st\<lparr>fdata := FD_zlib zf2\<rparr>, b', int (length out)))
                   (buf_more (buf_copyin b out) (length out))))"

definition zfilter_fill ::
  "nat \<Rightarrow> ('c, 'z) lib \<Rightarrow> ('k, 'c, 'z) stream \<Rightarrow> buf \<Rightarrow> (('k, 'c, 'z) stream \<times> buf \<times> int) option" where
  "zfilter_fill n x st b =
     (if buf_avail b = 0 then None
      else case fdata st of
        FD_zlib zf \<Rightarrow>
          (case zrdbuf zf of
             None \<Rightarrow> None
           | Some zbuf \<Rightarrow>
               if bin zbuf = 0 then
                 (case stream_fill_default st zbuf of
                    None \<Rightarrow> None
                  | Some (st1, zbuf1, r) \<Rightarrow>
                      if r \<le> 0 then Some (st1\<lparr>fdata := FD_zlib (zf\<lparr>zrdbuf := Some zbuf1\<rparr>)\<rparr>, b, r)
                      else zfill_loop n x st1 zf zbuf1 b)
               else zfill_loop n x st zf zbuf b)
      | _ \<Rightarrow> None)"

fun zflush_loop ::
  "nat \<Rightarrow> ('c, 'z) lib \<Rightarrow> zflush \<Rightarrow> zres \<Rightarrow> ('k, 'c, 'z) stream \<Rightarrow> 'z zfilter \<Rightarrow> buf \<Rightarrow> buf \<Rightarrow>
    (('k, 'c, 'z) stream \<times> buf \<times> int) option" where
  "zflush_loop 0 x flags rv st zf zbuf b = None"
| "zflush_loop (Suc n) x flags rv st zf zbuf b =
     (case (if buf_avail zbuf < 6 \<and> flags = Z_SYNC_FLUSH \<or> rv = Z_BUF_ERROR \<or> buf_avail b = 0
            then stream_flush_default n st zbuf else Some (st, zbuf, 0)) of
        None \<Rightarrow> None
      | Some (st1, zbuf1, err) \<Rightarrow>
          if err \<noteq> 0 then Some (st1\<lparr>fdata := FD_zlib (zf\<lparr>zwrbuf := Some zbuf1\<rparr>)\<rparr>, b, err)
          else case deflate x (wrstate zf) flags (buf_bytes b) (buf_avail zbuf1) of
            (z, ate, out, rv1) \<Rightarrow>
              if rv1 = Z_ERROR then None
              else case (buf_less b ate, buf_more (buf_copyin zbuf1 out) (length out)) of
                (Some b1, Some zbuf2) \<Rightarrow>
                  let zf1 = zf\<lparr>wrstate := z\<rparr> in
                  if flags = Z_SYNC_FLUSH \<and> bin b1 > 0 \<or> flags = Z_FINISH \<and> rv1 \<noteq> Z_STREAM_END \<or>
                     rv1 = Z_BUF_ERROR
                  then zflush_loop n x flags rv1 st1 zf1 zbuf2 b1
                  else if \<not> (rv1 = Z_OK \<or> rv1 = Z_STREAM_END \<and> flags = Z_FINISH) then None
                  else map_option
                    (\<lambda>(st2, zbuf3, r). (st2\<lparr>fdata := FD_zlib (zf1\<lparr>zwrbuf := Some zbuf3\<rparr>)\<rparr>, b1, r))
                    (stream_flush_default n st1 zbuf2)
              | _ \<Rightarrow> None)"

definition zfilter_flush ::
  "nat \<Rightarrow> ('c, 'z) lib \<Rightarrow> ('k, 'c, 'z) stream \<Rightarrow> buf \<Rightarrow> stream_flush_t \<Rightarrow>
    (('k, 'c, 'z) stream \<times> buf \<times> int) option" where
  "zfilter_flush n x st b how =
     (case fdata st of
        FD_zlib zf \<Rightarrow>
          (case zwrbuf zf of
             None \<Rightarrow> None
           | Some zbuf \<Rightarrow>
               zflush_loop n x (if how = STREAM_FLUSH_NORMAL then Z_SYNC_FLUSH else Z_FINISH) Z_OK st zf zbuf b)
      | _ \<Rightarrow> None)"

definition zfilter_init :: "('c, 'z) lib \<Rightarrow> ('k, 'c, 'z) stream \<Rightarrow> ('k, 'c, 'z) stream" where
  "zfilter_init x st =
     st\<lparr>rdbuf := map_option (\<lambda>b. buf_new (bsize b)) (rdbuf st),
        wrbuf := map_option (\<lambda>b. buf_new (bsize b)) (wrbuf st),
        fdata := FD_zlib \<lparr>zeof = False, zrdbuf = rdbuf st, zwrbuf = wrbuf st,
                          rdstate = inflateInit x, wrstate = deflateInit x\<rparr>\<rparr>"

definition zfilter_fini ::
  "nat \<Rightarrow> ('c, 'z) lib \<Rightarrow> ('k, 'c, 'z) stream \<Rightarrow> ('k, 'c, 'z) stream option" where
  "zfilter_fini n x st =
     (case fdata st of
        FD_zlib zf \<Rightarrow>
          (case (if zrdbuf zf = None then Some st
                 else case rdbuf st of
                   None \<Rightarrow> None
                 | Some b \<Rightarrow> if zeof zf then Some st
                             else map_option (\<lambda>(st1, _, _). st1) (zfilter_fill n x st b)) of
             None \<Rightarrow> None
           | Some st1 \<Rightarrow>
               (case fdata st1 of
                  FD_zlib zf1 \<Rightarrow>
                    let st2 = (if zrdbuf zf1 = None then st1 else st1\<lparr>rdbuf := zrdbuf zf1\<rparr>) in
                    if zwrbuf zf1 = None then Some st2
                    else (case wrbuf st2 of
                      None \<Rightarrow> None
                    | Some b \<Rightarrow>
                        (case zfilter_flush n x st2 b STREAM_FLUSH_CLOSING of
                           None \<Rightarrow> None
                         | Some (st3, _, _) \<Rightarrow>
                             (case fdata st3 of
                                FD_zlib zf3 \<Rightarrow> Some (st3\<lparr>wrbuf := zwrbuf zf3\<rparr>)
                              | _ \<Rightarrow> None)))
                | _ \<Rightarrow> None))
      | _ \<Rightarrow> None)"

subsection \<open>The MD5 filters\<close>

definition IS_WS :: "char \<Rightarrow> bool" where
  "IS_WS c \<longleftrightarrow> c \<in> {CHR '' '', CHR 0x0A, CHR 0x09, CHR 0x08, CHR 0x0B, CHR 0x0C, CHR 0x0D}"

definition IS_SPECIAL :: "char \<Rightarrow> bool" where
  "IS_SPECIAL c \<longleftrightarrow> c \<in> {CHR ''$'', CHR '','', CHR '':'', CHR '';'', CHR ''@''}"

definition IS_PRINT :: "char \<Rightarrow> bool" where
  "IS_PRINT c \<longleftrightarrow> \<not> IS_WS c \<and> c \<noteq> CHR ''@''"

definition md5filter_init :: "('c, 'z) lib \<Rightarrow> ('k, 'c, 'z) stream \<Rightarrow> ('k, 'c, 'z) stream" where
  "md5filter_init x st = st\<lparr>fdata := FD_md5 \<lparr>ctx = MD5_Init x, lastc = CHR '';'', state = PRINT\<rparr>\<rparr>"

definition md5filter_fini :: "('c, 'z) lib \<Rightarrow> ('k, 'c, 'z) stream \<Rightarrow> ('k, 'c, 'z) stream option" where
  "md5filter_fini x st =
     (case fdata st of
        FD_md5 mf \<Rightarrow> Some (st\<lparr>digest := Some (MD5_End x (ctx mf)), fdata := FD_none\<rparr>)
      | _ \<Rightarrow> None)"

definition md5filter_fill ::
  "('k, 'c, 'z) stream \<Rightarrow> buf \<Rightarrow> (('k, 'c, 'z) stream \<times> buf \<times> int) option" where
  "md5filter_fill st b = (if buf_avail b = 0 then None else stream_fill_default st b)"

definition md5filter_flush ::
  "nat \<Rightarrow> ('c, 'z) lib \<Rightarrow> ('k, 'c, 'z) stream \<Rightarrow> buf \<Rightarrow> (('k, 'c, 'z) stream \<times> buf \<times> int) option" where
  "md5filter_flush n x st b =
     (case fdata st of
        FD_md5 mf \<Rightarrow>
          stream_flush_default n
            (st\<lparr>fdata := FD_md5 (mf\<lparr>ctx := MD5_Update x (ctx mf) (buf_bytes b)\<rparr>)\<rparr>) b
      | _ \<Rightarrow> None)"

definition md5_feed :: "('c, 'z) lib \<Rightarrow> 'c md5filter \<Rightarrow> string \<Rightarrow> 'c md5filter" where
  "md5_feed x mf s = mf\<lparr>ctx := MD5_Update x (ctx mf) s\<rparr>"

text \<open>The state machine of \<open>md5rcsfilter_flush\<close> over the bytes of the buffer.\<close>

function md5rcs_loop :: "('c, 'z) lib \<Rightarrow> 'c md5filter \<Rightarrow> string \<Rightarrow> 'c md5filter" where
  "md5rcs_loop x mf s =
     (if s = [] then mf
      else case state mf of
        PRINT \<Rightarrow>
          let a = takeWhile IS_PRINT s; r = dropWhile IS_PRINT s;
              mf1 = md5_feed x (mf\<lparr>lastc := (if a = [] then lastc mf else last a)\<rparr>) a
          in if r = [] then mf1
             else if hd r = CHR ''@'' then md5rcs_loop x ((md5_feed x mf1 [hd r])\<lparr>state := STRING\<rparr>) (tl r)
             else md5rcs_loop x (mf1\<lparr>state := WS\<rparr>) r
      | WS \<Rightarrow>
          let r = dropWhile IS_WS s
          in if r = [] then mf
             else if hd r = CHR ''@'' then
               md5rcs_loop x
                 ((md5_feed x (if lastc mf = CHR ''@'' then md5_feed x mf '' '' else mf) [hd r])
                    \<lparr>state := STRING\<rparr>) (tl r)
             else md5rcs_loop x
                 ((if \<not> IS_SPECIAL (hd r) \<and> \<not> IS_SPECIAL (lastc mf) then md5_feed x mf '' '' else mf)
                    \<lparr>state := PRINT\<rparr>) r
      | STRING \<Rightarrow>
          let a = takeWhile (\<lambda>c. c \<noteq> CHR ''@'') s; r = dropWhile (\<lambda>c. c \<noteq> CHR ''@'') s;
              mf1 = md5_feed x mf a
          in if r = [] then mf1 else md5rcs_loop x ((md5_feed x mf1 [hd r])\<lparr>state := SEEN\<rparr>) (tl r)
      | SEEN \<Rightarrow>
          if hd s = CHR ''@'' then md5rcs_loop x ((md5_feed x mf [hd s])\<lparr>state := STRING\<rparr>) (tl s)
          else if IS_WS (hd s) then md5rcs_loop x (mf\<lparr>lastc := CHR ''@'', state := WS\<rparr>) s
          else md5rcs_loop x (mf\<lparr>state := PRINT\<rparr>) s)"
  by pat_completeness auto

definition md5rcs_rank :: "md5_state \<Rightarrow> string \<Rightarrow> nat" where
  "md5rcs_rank q s = 3 * length s +
     (case q of PRINT \<Rightarrow> if s \<noteq> [] \<and> IS_PRINT (hd s) then 0 else 1
              | WS \<Rightarrow> if s \<noteq> [] \<and> IS_WS (hd s) then 0 else 1
              | STRING \<Rightarrow> 0 | SEEN \<Rightarrow> 2)"

lemma md5rcs_rank_less: "length r < length s \<Longrightarrow> md5rcs_rank q r < md5rcs_rank q' s"
  by (auto simp: md5rcs_rank_def split: md5_state.splits)

lemma dropWhile_shorter: "dropWhile P s \<noteq> [] \<Longrightarrow> length (tl (dropWhile P s)) < length s"
  using length_dropWhile_le [of P s] by (cases "dropWhile P s") auto

lemma dropWhile_moves:
  assumes "dropWhile P s \<noteq> []"
  shows "dropWhile P s = s \<and> \<not> P (hd s) \<or> length (dropWhile P s) < length s"
proof (cases s)
  case (Cons c s')
  then show ?thesis using length_dropWhile_le [of P s'] by auto
qed (use assms in simp)

lemma md5rcs_rank_tl: "dropWhile P s \<noteq> [] \<Longrightarrow> md5rcs_rank q (tl (dropWhile P s)) < md5rcs_rank q' s"
  by (rule md5rcs_rank_less [OF dropWhile_shorter])

lemma md5_feed_simps [simp]:
  "state (md5_feed x mf s) = state mf" "lastc (md5_feed x mf s) = lastc mf"
  "ctx (md5_feed x mf s) = MD5_Update x (ctx mf) s"
  by (simp_all add: md5_feed_def)

lemma md5rcs_rank_print:
  assumes "dropWhile IS_PRINT s \<noteq> []" and "hd (dropWhile IS_PRINT s) \<noteq> CHR ''@''"
  shows "md5rcs_rank WS (dropWhile IS_PRINT s) < md5rcs_rank PRINT s"
proof -
  have "IS_WS (hd (dropWhile IS_PRINT s))"
    using hd_dropWhile [OF assms(1)] assms(2) by (simp add: IS_PRINT_def)
  with dropWhile_moves [OF assms(1)] assms(1) show ?thesis
    by (auto simp: md5rcs_rank_def)
qed

lemma md5rcs_rank_ws:
  assumes "dropWhile IS_WS s \<noteq> []" and "hd (dropWhile IS_WS s) \<noteq> CHR ''@''"
  shows "md5rcs_rank PRINT (dropWhile IS_WS s) < md5rcs_rank WS s"
proof -
  have "IS_PRINT (hd (dropWhile IS_WS s))"
    using hd_dropWhile [OF assms(1)] assms(2) by (simp add: IS_PRINT_def)
  with dropWhile_moves [OF assms(1)] assms(1) show ?thesis
    by (auto simp: md5rcs_rank_def)
qed

lemma md5rcs_rank_seen:
  "s \<noteq> [] \<Longrightarrow> IS_WS (hd s) \<Longrightarrow> md5rcs_rank WS s < md5rcs_rank SEEN s"
  "s \<noteq> [] \<Longrightarrow> md5rcs_rank PRINT s < md5rcs_rank SEEN s"
  by (simp_all add: md5rcs_rank_def)

termination md5rcs_loop
proof (relation "measure (\<lambda>(x, mf, s). md5rcs_rank (state mf) s)", goal_cases)
  case (2 x mf s a r mf1)
  then show ?case using md5rcs_rank_tl [of IS_PRINT s] by simp
next
  case (3 x mf s a r mf1)
  then show ?case using md5rcs_rank_print [of s] by simp
next
  case (4 x mf s r)
  then show ?case using md5rcs_rank_tl [of IS_WS s] by simp
next
  case (5 x mf s r)
  then show ?case using md5rcs_rank_ws [of s] by simp
next
  case (6 x mf s a r mf1)
  then show ?case using md5rcs_rank_tl [of "\<lambda>c. c \<noteq> CHR ''@''" s] by simp
next
  case (7 x mf s)
  then show ?case by (simp add: md5rcs_rank_less)
next
  case (8 x mf s)
  then show ?case using md5rcs_rank_seen(1) [of s] by simp
next
  case (9 x mf s)
  then show ?case using md5rcs_rank_seen(2) [of s] by simp
qed simp

declare md5rcs_loop.simps [simp del]

text \<open>The machine one byte at a time, the specification of the loop.\<close>

definition md5rcs_step :: "('c, 'z) lib \<Rightarrow> 'c md5filter \<Rightarrow> char \<Rightarrow> 'c md5filter" where
  "md5rcs_step x mf c =
     (let print = (\<lambda>mf. md5_feed x (mf\<lparr>state := PRINT, lastc := c\<rparr>) [c]);
          to_string = (\<lambda>mf. (md5_feed x mf [c])\<lparr>state := STRING\<rparr>)
      in case state mf of
        PRINT \<Rightarrow> if c = CHR ''@'' then to_string mf
                 else if IS_WS c then mf\<lparr>state := WS\<rparr> else print mf
      | WS \<Rightarrow> if IS_WS c then mf
              else if c = CHR ''@'' then to_string (if lastc mf = CHR ''@'' then md5_feed x mf '' '' else mf)
              else print (if \<not> IS_SPECIAL c \<and> \<not> IS_SPECIAL (lastc mf) then md5_feed x mf '' '' else mf)
      | STRING \<Rightarrow> if c = CHR ''@'' then (md5_feed x mf [c])\<lparr>state := SEEN\<rparr> else md5_feed x mf [c]
      | SEEN \<Rightarrow> if c = CHR ''@'' then to_string mf
                else if IS_WS c then mf\<lparr>lastc := CHR ''@'', state := WS\<rparr> else print mf)"

text \<open>What the filter relies on: \<open>MD5_Update\<close> digests the concatenation of what it is given.\<close>

definition md5_appends :: "('c, 'z) lib \<Rightarrow> bool" where
  "md5_appends x \<longleftrightarrow> (\<forall>c. MD5_Update x c [] = c) \<and>
     (\<forall>c a b. MD5_Update x (MD5_Update x c a) b = MD5_Update x c (a @ b))"

lemma md5_feed_append: "md5_appends x \<Longrightarrow> md5_feed x (md5_feed x mf a) b = md5_feed x mf (a @ b)"
  by (simp add: md5_feed_def md5_appends_def)

lemma md5_feed_Nil: "md5_appends x \<Longrightarrow> md5_feed x mf [] = mf"
  by (simp add: md5_feed_def md5_appends_def)

lemma steps_print:
  assumes x: "md5_appends x"
  shows "state mf = PRINT \<Longrightarrow> \<forall>c \<in> set a. IS_PRINT c \<Longrightarrow>
    foldl (md5rcs_step x) mf a = md5_feed x (mf\<lparr>lastc := (if a = [] then lastc mf else last a)\<rparr>) a"
proof (induction a arbitrary: mf)
  case Nil
  then show ?case by (simp add: md5_feed_Nil [OF x])
next
  case (Cons c a)
  have step: "md5rcs_step x mf c = md5_feed x (mf\<lparr>lastc := c\<rparr>) [c]"
    using Cons.prems by (simp add: md5rcs_step_def IS_PRINT_def md5_feed_def)
  have "foldl (md5rcs_step x) (md5rcs_step x mf c) a
      = md5_feed x ((md5rcs_step x mf c)\<lparr>lastc := (if a = [] then lastc (md5rcs_step x mf c) else last a)\<rparr>) a"
    using Cons.prems step by (intro Cons.IH) simp_all
  then show ?case using x by (simp add: step md5_feed_def md5_appends_def)
qed

lemma steps_ws: "state mf = WS \<Longrightarrow> \<forall>c \<in> set a. IS_WS c \<Longrightarrow> foldl (md5rcs_step x) mf a = mf"
  by (induction a) (simp_all add: md5rcs_step_def)

lemma steps_string:
  assumes x: "md5_appends x"
  shows "state mf = STRING \<Longrightarrow> \<forall>c \<in> set a. c \<noteq> CHR ''@'' \<Longrightarrow>
    foldl (md5rcs_step x) mf a = md5_feed x mf a"
  by (induction a arbitrary: mf)
    (simp_all add: md5rcs_step_def md5_feed_Nil [OF x] md5_feed_append [OF x])

lemma foldl_takeWhile:
  "foldl f a s = foldl f (foldl f a (takeWhile P s)) (dropWhile P s)"
  by (metis foldl_append takeWhile_dropWhile_id)

lemma md5rcs_loop_steps:
  "md5_appends x \<Longrightarrow> md5rcs_loop x mf s = foldl (md5rcs_step x) mf s"
proof (induction x mf s rule: md5rcs_loop.induct)
  case (1 x mf s)
  note x = "1.prems"
  show ?case
  proof (cases "s = []")
    case True
    then show ?thesis by (simp add: md5rcs_loop.simps)
  next
    case False
    show ?thesis
    proof (cases "state mf")
      case PRINT
      define a where "a = takeWhile IS_PRINT s"
      define r where "r = dropWhile IS_PRINT s"
      define mf1 where "mf1 = md5_feed x (mf\<lparr>lastc := (if a = [] then lastc mf else last a)\<rparr>) a"
      have fold: "foldl (md5rcs_step x) mf s = foldl (md5rcs_step x) mf1 r"
        unfolding mf1_def r_def a_def
        by (subst foldl_takeWhile [of _ _ s IS_PRINT], subst steps_print [OF x PRINT])
          (auto dest: set_takeWhileD)
      have st: "state mf1 = PRINT" using PRINT by (simp add: mf1_def)
      have loop: "md5rcs_loop x mf s = (if r = [] then mf1
          else if hd r = CHR ''@'' then md5rcs_loop x ((md5_feed x mf1 [hd r])\<lparr>state := STRING\<rparr>) (tl r)
          else md5rcs_loop x (mf1\<lparr>state := WS\<rparr>) r)"
        unfolding mf1_def r_def a_def by (subst md5rcs_loop.simps) (simp add: False PRINT Let_def)
      show ?thesis
      proof (cases r)
        case Nil
        with loop fold show ?thesis by simp
      next
        case (Cons c r')
        have np: "\<not> IS_PRINT c" using Cons by (simp add: r_def dropWhile_eq_Cons_conv)
        note IH = "1.IH"(1) [OF False PRINT a_def r_def mf1_def _ _ x] "1.IH"(2) [OF False PRINT a_def r_def mf1_def _ _ x]
        have "md5rcs_step x mf1 c = (if c = CHR ''@'' then (md5_feed x mf1 [c])\<lparr>state := STRING\<rparr> else mf1\<lparr>state := WS\<rparr>)"
          using np st by (auto simp: md5rcs_step_def IS_PRINT_def Let_def)
        moreover have "c \<noteq> CHR ''@'' \<Longrightarrow> md5rcs_step x (mf1\<lparr>state := WS\<rparr>) c = mf1\<lparr>state := WS\<rparr>"
          using np by (auto simp: md5rcs_step_def IS_PRINT_def)
        ultimately show ?thesis using loop fold IH Cons by (cases "c = CHR ''@''") simp_all
      qed
    next
      case WS
      define r where "r = dropWhile IS_WS s"
      have fold: "foldl (md5rcs_step x) mf s = foldl (md5rcs_step x) mf r"
        unfolding r_def
        by (subst foldl_takeWhile [of _ _ s IS_WS], subst steps_ws [OF WS]) (auto dest: set_takeWhileD)
      have loop: "md5rcs_loop x mf s = (if r = [] then mf
          else if hd r = CHR ''@'' then md5rcs_loop x
              ((md5_feed x (if lastc mf = CHR ''@'' then md5_feed x mf '' '' else mf) [hd r])\<lparr>state := STRING\<rparr>) (tl r)
          else md5rcs_loop x
              ((if \<not> IS_SPECIAL (hd r) \<and> \<not> IS_SPECIAL (lastc mf) then md5_feed x mf '' '' else mf)\<lparr>state := PRINT\<rparr>) r)"
        unfolding r_def by (subst md5rcs_loop.simps) (simp add: False WS Let_def)
      show ?thesis
      proof (cases r)
        case Nil
        with loop fold show ?thesis by simp
      next
        case (Cons c r')
        have np: "\<not> IS_WS c" using Cons by (simp add: r_def dropWhile_eq_Cons_conv)
        note IH = "1.IH"(3) [OF False WS r_def _ _ x] "1.IH"(4) [OF False WS r_def _ _ x]
        have "md5rcs_step x mf c = (if c = CHR ''@''
            then (md5_feed x (if lastc mf = CHR ''@'' then md5_feed x mf '' '' else mf) [c])\<lparr>state := STRING\<rparr>
            else md5rcs_step x ((if \<not> IS_SPECIAL c \<and> \<not> IS_SPECIAL (lastc mf) then md5_feed x mf '' ''
              else mf)\<lparr>state := PRINT\<rparr>) c)"
          using np WS by (simp add: md5rcs_step_def md5_feed_def Let_def)
        with loop fold IH Cons show ?thesis by (cases "c = CHR ''@''") simp_all
      qed
    next
      case STRING
      define a where "a = takeWhile (\<lambda>c. c \<noteq> CHR ''@'') s"
      define r where "r = dropWhile (\<lambda>c. c \<noteq> CHR ''@'') s"
      define mf1 where "mf1 = md5_feed x mf a"
      have fold: "foldl (md5rcs_step x) mf s = foldl (md5rcs_step x) mf1 r"
        unfolding mf1_def r_def a_def
        by (subst foldl_takeWhile [of _ _ s "\<lambda>c. c \<noteq> CHR ''@''"], subst steps_string [OF x STRING])
          (auto dest: set_takeWhileD)
      have loop: "md5rcs_loop x mf s = (if r = [] then mf1
          else md5rcs_loop x ((md5_feed x mf1 [hd r])\<lparr>state := SEEN\<rparr>) (tl r))"
        unfolding mf1_def r_def a_def by (subst md5rcs_loop.simps) (simp add: False STRING Let_def)
      show ?thesis
      proof (cases r)
        case Nil
        with loop fold show ?thesis by simp
      next
        case (Cons c r')
        have np: "c = CHR ''@''" using Cons by (simp add: r_def dropWhile_eq_Cons_conv)
        note IH = "1.IH"(5) [OF False STRING a_def r_def mf1_def _ x]
        have "md5rcs_step x mf1 c = (md5_feed x mf1 [c])\<lparr>state := SEEN\<rparr>"
          using np STRING by (simp add: md5rcs_step_def mf1_def)
        with loop fold IH Cons show ?thesis by simp
      qed
    next
      case SEEN
      obtain c r where s: "s = c # r" using False by (cases s) auto
      have loop: "md5rcs_loop x mf s =
         (if c = CHR ''@'' then md5rcs_loop x ((md5_feed x mf [c])\<lparr>state := STRING\<rparr>) r
          else if IS_WS c then md5rcs_loop x (mf\<lparr>lastc := CHR ''@'', state := WS\<rparr>) s
          else md5rcs_loop x (mf\<lparr>state := PRINT\<rparr>) s)"
        by (subst md5rcs_loop.simps) (simp add: False SEEN s)
      have "md5rcs_step x mf c =
         (if c = CHR ''@'' then (md5_feed x mf [c])\<lparr>state := STRING\<rparr>
          else if IS_WS c then md5rcs_step x (mf\<lparr>lastc := CHR ''@'', state := WS\<rparr>) c
          else md5rcs_step x (mf\<lparr>state := PRINT\<rparr>) c)"
        using SEEN by (simp add: md5rcs_step_def md5_feed_def Let_def)
      with loop "1.IH"(6) [OF False SEEN _ x] "1.IH"(7) [OF False SEEN _ _ x] "1.IH"(8) [OF False SEEN _ _ x] s
      show ?thesis by (cases "c = CHR ''@''"; cases "IS_WS c") simp_all
    qed
  qed
qed

definition md5rcsfilter_flush ::
  "nat \<Rightarrow> ('c, 'z) lib \<Rightarrow> ('k, 'c, 'z) stream \<Rightarrow> buf \<Rightarrow> (('k, 'c, 'z) stream \<times> buf \<times> int) option" where
  "md5rcsfilter_flush n x st b =
     (case fdata st of
        FD_md5 mf \<Rightarrow> stream_flush_default n (st\<lparr>fdata := FD_md5 (md5rcs_loop x mf (buf_bytes b))\<rparr>) b
      | _ \<Rightarrow> None)"

subsection \<open>The stream operations\<close>

definition stream_flush_int ::
  "nat \<Rightarrow> ('c, 'z) lib \<Rightarrow> ('k, 'c, 'z) stream \<Rightarrow> stream_flush_t \<Rightarrow> (('k, 'c, 'z) stream \<times> int) option" where
  "stream_flush_int n x st how =
     (case wrbuf st of
        None \<Rightarrow> None
      | Some b \<Rightarrow>
          map_option (\<lambda>(st', b', r). (st'\<lparr>wrbuf := Some b'\<rparr>, r))
            (case sfilter st of
               STREAM_FILTER_NULL \<Rightarrow> stream_flush_default n st b
             | STREAM_FILTER_ZLIB \<Rightarrow> zfilter_flush n x st b how
             | STREAM_FILTER_MD5 \<Rightarrow> md5filter_flush n x st b
             | STREAM_FILTER_MD5RCS \<Rightarrow> md5rcsfilter_flush n x st b))"

definition stream_flush ::
  "nat \<Rightarrow> ('c, 'z) lib \<Rightarrow> ('k, 'c, 'z) stream \<Rightarrow> (('k, 'c, 'z) stream \<times> int) option" where
  "stream_flush n x st = stream_flush_int n x st STREAM_FLUSH_NORMAL"

definition stream_fill ::
  "nat \<Rightarrow> ('c, 'z) lib \<Rightarrow> ('k, 'c, 'z) stream \<Rightarrow> (('k, 'c, 'z) stream \<times> int) option" where
  "stream_fill n x st =
     (case Option.bind (rdbuf st) buf_prewrite of
        None \<Rightarrow> None
      | Some b \<Rightarrow>
          (case (case sfilter st of
                   STREAM_FILTER_NULL \<Rightarrow> stream_fill_default st b
                 | STREAM_FILTER_ZLIB \<Rightarrow> zfilter_fill n x st b
                 | _ \<Rightarrow> md5filter_fill st b) of
             None \<Rightarrow> None
           | Some (st', b', r) \<Rightarrow>
               if r > 0 \<and> r = int (bin b') - int (bin b) \<or> r \<le> 0 \<and> bin b' = bin b
               then Some (st'\<lparr>rdbuf := Some b'\<rparr>, r) else None))"

definition stream_read ::
  "nat \<Rightarrow> ('c, 'z) lib \<Rightarrow> ('k, 'c, 'z) stream \<Rightarrow> nat \<Rightarrow> (('k, 'c, 'z) stream \<times> string option) option" where
  "stream_read n x st sz =
     (case rdbuf st of
        None \<Rightarrow> None
      | Some b0 \<Rightarrow>
          (case (if bin b0 = 0 then stream_fill n x st else Some (st, 1)) of
             None \<Rightarrow> None
           | Some (st1, r) \<Rightarrow>
               if r \<le> 0 then Some (st1, None)
               else (case rdbuf st1 of
                  None \<Rightarrow> None
                | Some b \<Rightarrow>
                    let m = min sz (bin b) in
                    map_option (\<lambda>b'. (st1\<lparr>rdbuf := Some b'\<rparr>, Some (take m (buf_bytes b)))) (buf_less b m))))"

text \<open>
  \<open>stream_getln\<close>: \<open>find_nl\<close> is \<open>memchr\<close>; the loop looks for the newline in the bytes not yet
  searched and refills. The position is kept relative to the start of the line, since filling
  may move the bytes. With \<open>want_len\<close> the line is returned with its length, as a byte list;
  otherwise it is the C string left in the buffer.
\<close>

fun find_nl :: "string \<Rightarrow> nat option" where
  "find_nl [] = None"
| "find_nl (c # s) = (if c = CHR 0x0A then Some 0 else map_option Suc (find_nl s))"

fun getln_loop ::
  "nat \<Rightarrow> ('c, 'z) lib \<Rightarrow> ('k, 'c, 'z) stream \<Rightarrow> nat \<Rightarrow> (('k, 'c, 'z) stream \<times> nat option) option" where
  "getln_loop 0 x st ndone = None"
| "getln_loop (Suc n) x st ndone =
     (case stream_fill n x st of
        None \<Rightarrow> None
      | Some (st1, r) \<Rightarrow>
          if r < 0 then Some (st1, None)
          else (case rdbuf st1 of
             None \<Rightarrow> None
           | Some b \<Rightarrow>
               if r = 0 then Some (st1, Some (bin b - 1))
               else (case find_nl (drop ndone (buf_bytes b)) of
                       Some i \<Rightarrow> Some (st1, Some (ndone + i))
                     | None \<Rightarrow> getln_loop n x st1 (ndone + nat r))))"

definition getln_find ::
  "nat \<Rightarrow> ('c, 'z) lib \<Rightarrow> ('k, 'c, 'z) stream \<Rightarrow> (('k, 'c, 'z) stream \<times> nat option) option" where
  "getln_find n x st =
     (case rdbuf st of
        None \<Rightarrow> None
      | Some b0 \<Rightarrow>
          (case (if bin b0 = 0 then stream_fill n x st else Some (st, 1)) of
             None \<Rightarrow> None
           | Some (st1, r) \<Rightarrow>
               if r \<le> 0 then Some (st1, None)
               else (case rdbuf st1 of
                  None \<Rightarrow> None
                | Some b \<Rightarrow>
                    (case find_nl (buf_bytes b) of
                       Some i \<Rightarrow> Some (st1, Some i)
                     | None \<Rightarrow> getln_loop n x st1 (bin b)))))"

definition stream_getln ::
  "nat \<Rightarrow> ('c, 'z) lib \<Rightarrow> ('k, 'c, 'z) stream \<Rightarrow> bool \<Rightarrow> (('k, 'c, 'z) stream \<times> string option) option" where
  "stream_getln n x st want_len =
     (case getln_find n x st of
        None \<Rightarrow> None
      | Some (st1, None) \<Rightarrow> Some (st1, None)
      | Some (st1, Some i) \<Rightarrow>
          (case rdbuf st1 of
             None \<Rightarrow> None
           | Some b \<Rightarrow>
               (case buf_less b (i + 1) of
                  None \<Rightarrow> None
                | Some b1 \<Rightarrow>
                    let line = boff b in
                    if want_len then Some (st1\<lparr>rdbuf := Some b1\<rparr>, Some (take (i + 1) (drop line (bdata b))))
                    else
                      let pos = (if bdata b ! (line + i) = CHR 0x0A then line + i else line + i + 1);
                          d = (bdata b)[pos := CHR 0x00]
                      in Some (st1\<lparr>rdbuf := Some (b1\<lparr>bdata := d\<rparr>)\<rparr>,
                               Some (takeWhile (\<lambda>c. c \<noteq> CHR 0x00) (drop line d))))))"

definition stream_write ::
  "nat \<Rightarrow> ('c, 'z) lib \<Rightarrow> ('k, 'c, 'z) stream \<Rightarrow> string \<Rightarrow> (('k, 'c, 'z) stream \<times> int) option" where
  "stream_write n x st src =
     (case Option.bind (wrbuf st) (\<lambda>b. if length src > bsize b then buf_grow b (length src) else Some b) of
        None \<Rightarrow> None
      | Some b \<Rightarrow>
          let st0 = st\<lparr>wrbuf := Some b\<rparr> in
          (case (if length src > buf_avail b then stream_flush_int n x st0 STREAM_FLUSH_NORMAL
                 else Some (st0, 0)) of
             None \<Rightarrow> None
           | Some (st1, err) \<Rightarrow>
               if err \<noteq> 0 then Some (st1, -1)
               else (case wrbuf st1 of
                  None \<Rightarrow> None
                | Some b1 \<Rightarrow>
                    map_option (\<lambda>b2. (st1\<lparr>wrbuf := Some b2\<rparr>, int (length src)))
                      (buf_more (buf_copyin b1 src) (length src)))))"

text \<open>
  \<open>stream_printf\<close> of a format whose output is \<open>out\<close>: \<open>vsnprintf\<close> leaves the first
  bytes of it and a NUL in the room there is, and returns its full length.
\<close>

definition vsnprintf :: "buf \<Rightarrow> string \<Rightarrow> buf" where
  "vsnprintf b out =
     (if buf_avail b = 0 then b else buf_copyin b (take (buf_avail b - 1) out @ [CHR 0x00]))"

fun stream_printf ::
  "nat \<Rightarrow> ('c, 'z) lib \<Rightarrow> ('k, 'c, 'z) stream \<Rightarrow> string \<Rightarrow> (('k, 'c, 'z) stream \<times> int) option" where
  "stream_printf 0 x st out = None"
| "stream_printf (Suc n) x st out =
     (case wrbuf st of
        None \<Rightarrow> None
      | Some b0 \<Rightarrow>
          let b = vsnprintf b0 out; ret = length out in
          if ret \<ge> buf_avail b then
            (case (if ret \<ge> bsize b then buf_grow b (ret + 1) else Some b) of
               None \<Rightarrow> None
             | Some b1 \<Rightarrow>
                 let st1 = st\<lparr>wrbuf := Some b1\<rparr> in
                 if ret \<ge> buf_avail b1 then
                   (case stream_flush_int n x st1 STREAM_FLUSH_NORMAL of
                      None \<Rightarrow> None
                    | Some (st2, err) \<Rightarrow> if err \<noteq> 0 then Some (st2, -1) else stream_printf n x st2 out)
                 else stream_printf n x st1 out)
          else map_option (\<lambda>b'. (st\<lparr>wrbuf := Some b'\<rparr>, int ret)) (buf_more b ret))"

definition stream_eof :: "('k, 'c, 'z) stream \<Rightarrow> bool" where
  "stream_eof st = eof st"

definition stream_filter_init :: "('c, 'z) lib \<Rightarrow> ('k, 'c, 'z) stream \<Rightarrow> ('k, 'c, 'z) stream" where
  "stream_filter_init x st =
     (case sfilter st of
        STREAM_FILTER_NULL \<Rightarrow> st
      | STREAM_FILTER_ZLIB \<Rightarrow> zfilter_init x st
      | _ \<Rightarrow> md5filter_init x st)"

definition stream_filter_fini ::
  "nat \<Rightarrow> ('c, 'z) lib \<Rightarrow> ('k, 'c, 'z) stream \<Rightarrow> ('k, 'c, 'z) stream option" where
  "stream_filter_fini n x st =
     (case sfilter st of
        STREAM_FILTER_NULL \<Rightarrow> Some st
      | STREAM_FILTER_ZLIB \<Rightarrow> zfilter_fini n x st
      | _ \<Rightarrow> md5filter_fini x st)"

definition stream_filter_start ::
  "nat \<Rightarrow> ('c, 'z) lib \<Rightarrow> ('k, 'c, 'z) stream \<Rightarrow> stream_filter_t \<Rightarrow> ('k, 'c, 'z) stream option" where
  "stream_filter_start n x st f =
     (if f = sfilter st then Some st
      else map_option (\<lambda>st1. stream_filter_init x (st1\<lparr>sfilter := f, fdata := FD_none\<rparr>))
             (stream_filter_fini n x st))"

definition stream_filter_stop ::
  "nat \<Rightarrow> ('c, 'z) lib \<Rightarrow> ('k, 'c, 'z) stream \<Rightarrow> ('k, 'c, 'z) stream option" where
  "stream_filter_stop n x st = stream_filter_start n x st STREAM_FILTER_NULL"

definition stream_close ::
  "nat \<Rightarrow> ('c, 'z) lib \<Rightarrow> ('k, 'c, 'z) stream \<Rightarrow> (('k, 'c, 'z) stream \<times> int) option" where
  "stream_close n x st =
     (case (if wrbuf st \<noteq> None then stream_flush_int n x st STREAM_FLUSH_CLOSING else Some (st, 0)) of
        None \<Rightarrow> None
      | Some (st1, err) \<Rightarrow>
          map_option (\<lambda>st2.
            (case closefn st2 of
               None \<Rightarrow> (st2, err)
             | Some cf \<Rightarrow> (case cf (cookie st2) of (k, e) \<Rightarrow> (st2\<lparr>cookie := k\<rparr>, e))))
            (stream_filter_fini n x st1))"

text \<open>Character buffers as the other end: \<open>in\<close> is the read and \<open>off\<close> the write offset.\<close>

definition stream_read_buf :: "buf \<Rightarrow> nat \<Rightarrow> buf \<times> string option" where
  "stream_read_buf b sz =
     (let avail = boff b - bin b; m = (if avail < sz then avail else sz)
      in (b\<lparr>bin := bin b + m\<rparr>, Some (take m (drop (bin b) (bdata b)))))"

definition stream_append_buf :: "buf \<Rightarrow> string \<Rightarrow> buf \<times> wres" where
  "stream_append_buf b s =
     (case (if length s > bsize b - boff b then buf_grow b (bsize b + length s) else Some b) of
        None \<Rightarrow> (b, WFail)
      | Some b1 \<Rightarrow>
          let d = poke (bdata b1) (boff b1) s; o' = boff b1 + length s in
          (b1\<lparr>bdata := d[o' := CHR 0x00], boff := o'\<rparr>, Wrote (length s)))"

definition stream_close_buf :: "buf \<Rightarrow> buf \<times> int" where
  "stream_close_buf b = (b, 0)"

definition stream_open_buf :: "buf \<Rightarrow> (buf, 'c, 'z) stream option" where
  "stream_open_buf b =
     stream_new (b\<lparr>bin := 0\<rparr>) (Some stream_read_buf) (Some stream_append_buf) (Some stream_close_buf)"

definition stream_truncate_buf :: "buf \<Rightarrow> int \<Rightarrow> buf" where
  "stream_truncate_buf b off = b\<lparr>boff := nat (int (boff b) + off)\<rparr>"

section \<open>Writing\<close>

lemma buf_copyin_window:
  assumes "buf_ok b" and "length s \<le> buf_avail b"
  shows "buf_ok (buf_copyin b s) \<and> buf_bytes (buf_copyin b s) = buf_bytes b \<and>
    buf_avail (buf_copyin b s) = buf_avail b \<and> bin (buf_copyin b s) = bin b \<and> bsize (buf_copyin b s) = bsize b"
proof -
  have len: "length (bdata b) = bsize b + 1" and le: "boff b + bin b \<le> bsize b"
    using assms(1) by (simp_all add: buf_ok_def)
  have fit: "boff b + bin b + length s \<le> length (bdata b)"
    using assms(2) len le by (simp add: buf_avail_def)
  then have "length (poke (bdata b) (boff b + bin b) s) = length (bdata b)" by simp
  moreover have "take (bin b) (drop (boff b) (poke (bdata b) (boff b + bin b) s)) = take (bin b) (drop (boff b) (bdata b))"
    using arg_cong [OF poke_window [OF fit], of "take (bin b)"] fit by (simp add: min_absorb1)
  ultimately show ?thesis using assms(1) by (simp add: buf_ok_def buf_bytes_def buf_copyin_def buf_avail_def)
qed

lemma vsnprintf_ok:
  assumes "buf_ok b"
  shows "buf_ok (vsnprintf b out) \<and> buf_bytes (vsnprintf b out) = buf_bytes b \<and>
    buf_avail (vsnprintf b out) = buf_avail b \<and> bin (vsnprintf b out) = bin b \<and>
    bsize (vsnprintf b out) = bsize b"
proof (cases "buf_avail b = 0")
  case False
  then have "length (take (buf_avail b - 1) out @ [CHR 0x00]) \<le> buf_avail b" by simp
  from buf_copyin_window [OF assms this] False show ?thesis by (simp add: vsnprintf_def)
qed (use assms in \<open>simp add: vsnprintf_def\<close>)

lemma vsnprintf_more:
  assumes "buf_ok b" and "length out < buf_avail b"
  shows "\<exists>b'. buf_more (vsnprintf b out) (length out) = Some b' \<and> buf_ok b' \<and>
    buf_bytes b' = buf_bytes b @ out \<and> bin b' = bin b + length out \<and> bsize b' = bsize b"
proof -
  let ?s = "out @ [CHR 0x00]"
  have le: "length ?s \<le> buf_avail b" using assms(2) by simp
  have v: "vsnprintf b out = buf_copyin b ?s" using assms(2) by (simp add: vsnprintf_def)
  from buf_copyin_more [OF assms(1) le] obtain b1 where b1: "buf_more (buf_copyin b ?s) (length ?s) = Some b1"
    "buf_ok b1" "buf_bytes b1 = buf_bytes b @ ?s" "bsize b1 = bsize b" by blast
  then have b1': "b1 = buf_copyin b ?s\<lparr>bin := bin b + length ?s\<rparr>"
    by (auto simp: buf_more_def buf_copyin_def split: if_splits)
  let ?b = "buf_copyin b ?s\<lparr>bin := bin b + length out\<rparr>"
  have "buf_more (vsnprintf b out) (length out) = Some ?b"
    using assms(2) by (simp add: v buf_more_def buf_copyin_def buf_avail_def)
  moreover have "buf_ok ?b" using b1(2) assms(1) by (auto simp: b1' buf_ok_def buf_copyin_def)
  moreover have "buf_bytes ?b = buf_bytes b @ out"
  proof -
    have "buf_bytes ?b = take (bin b + length out) (buf_bytes b1)"
      by (simp add: b1' buf_bytes_def)
    then show ?thesis using b1(3) assms(1) by simp
  qed
  ultimately show ?thesis by (auto simp: buf_copyin_def)
qed

text \<open>
  What a stream relies on from its write function: \<open>sent k\<close> is what has gone out over the
  cookie \<open>k\<close>, \<open>tries k\<close> bounds the interruptions to come, \<open>kok k\<close> is its invariant.
\<close>

definition md5_start :: "('c, 'z) lib \<Rightarrow> 'c md5filter" where
  "md5_start x = \<lparr>ctx = MD5_Init x, lastc = CHR '';'', state = PRINT\<rparr>"

definition filter_digested :: "('c, 'z) lib \<Rightarrow> stream_filter_t \<Rightarrow> string \<Rightarrow> ('c, 'z) fdata \<Rightarrow> bool" where
  "filter_digested x f F fd =
     (case f of
        STREAM_FILTER_NULL \<Rightarrow> True
      | STREAM_FILTER_ZLIB \<Rightarrow> False
      | STREAM_FILTER_MD5 \<Rightarrow> fd = FD_md5 (md5_feed x (md5_start x) F)
      | STREAM_FILTER_MD5RCS \<Rightarrow> fd = FD_md5 (foldl (md5rcs_step x) (md5_start x) F))"

lemma filter_flush_digested:
  assumes "md5_appends x" and "filter_digested x (sfilter st) F (fdata st)"
  shows "\<exists>fd. filter_digested x (sfilter st) (F @ buf_bytes b) fd \<and>
    (case sfilter st of
       STREAM_FILTER_NULL \<Rightarrow> stream_flush_default n st b
     | STREAM_FILTER_ZLIB \<Rightarrow> zfilter_flush n x st b how
     | STREAM_FILTER_MD5 \<Rightarrow> md5filter_flush n x st b
     | STREAM_FILTER_MD5RCS \<Rightarrow> md5rcsfilter_flush n x st b) = stream_flush_default n (st\<lparr>fdata := fd\<rparr>) b"
proof (cases "sfilter st")
  case STREAM_FILTER_NULL
  then show ?thesis by (intro exI [of _ "fdata st"]) (simp add: filter_digested_def)
next
  case STREAM_FILTER_MD5
  then show ?thesis using assms
    by (intro exI [of _ "FD_md5 (md5_feed x (md5_start x) (F @ buf_bytes b))"])
      (simp add: filter_digested_def md5filter_flush_def md5_feed_def md5_appends_def)
next
  case STREAM_FILTER_MD5RCS
  then show ?thesis using assms
    by (intro exI [of _ "FD_md5 (foldl (md5rcs_step x) (md5_start x) (F @ buf_bytes b))"])
      (simp add: filter_digested_def md5rcsfilter_flush_def md5rcs_loop_steps)
qed (use assms in \<open>simp add: filter_digested_def\<close>)

definition filter_digest :: "('c, 'z) lib \<Rightarrow> stream_filter_t \<Rightarrow> string \<Rightarrow> string" where
  "filter_digest x f F =
     MD5_End x (if f = STREAM_FILTER_MD5RCS then ctx (foldl (md5rcs_step x) (md5_start x) F)
                else MD5_Update x (MD5_Init x) F)"

text \<open>A sequence of \<open>stream_write\<close> and \<open>stream_printf\<close> calls, up to the first error, then \<open>stream_close\<close>.\<close>

fun stream_puts ::
  "nat \<Rightarrow> ('c, 'z) lib \<Rightarrow> ('k, 'c, 'z) stream \<Rightarrow> (bool \<times> string) list \<Rightarrow> (('k, 'c, 'z) stream \<times> int) option" where
  "stream_puts n x st [] = stream_close n x st"
| "stream_puts n x st ((how, s) # ps) =
     (case (if how then stream_printf n x st s else stream_write n x st s) of
        None \<Rightarrow> None
      | Some (st', r) \<Rightarrow> if r = -1 then Some (st', -1) else stream_puts n x st' ps)"

text \<open>
  The close function is none for the streams of the protocol (\<open>proto.c\<close>), \<open>stream_close_buf\<close>
  for \<open>stream_open_buf\<close> and \<open>stream_close_fd\<close> for every stream of \<open>stream_open_file\<close>.
\<close>

definition open_writer ::
  "nat \<Rightarrow> ('c, 'z) lib \<Rightarrow> 'k \<Rightarrow> ('k \<Rightarrow> string \<Rightarrow> 'k \<times> wres) \<Rightarrow> ('k \<Rightarrow> 'k \<times> int) option \<Rightarrow> stream_filter_t \<Rightarrow>
   ('k, 'c, 'z) stream option" where
  "open_writer n x k wfn cfn f =
     Option.bind (stream_new k None (Some wfn) cfn) (\<lambda>st. stream_filter_start n x st f)"

fun close_call :: "('k \<Rightarrow> 'k \<times> int) option \<Rightarrow> 'k \<Rightarrow> 'k \<times> int" where
  "close_call None k = (k, 0)"
| "close_call (Some c) k = c k"

text \<open>A write function that can fail: \<open>stream_flush_default\<close> takes zero bytes for a failure too.\<close>

definition write_can_fail :: "('k \<Rightarrow> string \<Rightarrow> 'k \<times> wres) \<Rightarrow> ('k \<Rightarrow> bool) \<Rightarrow> bool" where
  "write_can_fail wfn kok \<longleftrightarrow> (\<exists>k s k'. kok k \<and> s \<noteq> [] \<and> (wfn k s = (k', WFail) \<or> wfn k s = (k', Wrote 0)))"

locale writer =
  fixes wfn :: "'k \<Rightarrow> string \<Rightarrow> 'k \<times> wres"
    and sent :: "'k \<Rightarrow> string"
    and tries :: "'k \<Rightarrow> nat"
    and kok :: "'k \<Rightarrow> bool"
  assumes wrote: "kok k \<Longrightarrow> s \<noteq> [] \<Longrightarrow> wfn k s = (k', Wrote m) \<Longrightarrow>
      kok k' \<and> m \<le> length s \<and> sent k' = sent k @ take m s \<and> tries k' \<le> tries k"
    and interrupted: "kok k \<Longrightarrow> s \<noteq> [] \<Longrightarrow> wfn k s = (k', WIntr) \<Longrightarrow>
      kok k' \<and> sent k' = sent k \<and> tries k' < tries k"
    and failed: "kok k \<Longrightarrow> s \<noteq> [] \<Longrightarrow> wfn k s = (k', WFail) \<Longrightarrow>
      kok k' \<and> sent k' = sent k \<and> tries k' \<le> tries k"
begin

definition flush_post :: "'k \<Rightarrow> buf \<Rightarrow> 'k \<Rightarrow> buf \<Rightarrow> int \<Rightarrow> bool" where
  "flush_post k b k' b' r \<longleftrightarrow> kok k' \<and> buf_ok b' \<and>
     sent k' @ buf_bytes b' = sent k @ buf_bytes b \<and> tries k' \<le> tries k \<and>
     bsize b' = bsize b \<and> bin b' \<le> bin b \<and> (r = 0 \<and> bin b' = 0 \<or> r = -1 \<and> write_can_fail wfn kok)"

text \<open>
  A stream that gave up: a write failed, and what went out since \<open>w0\<close> is the first part of the
  text \<open>T\<close>.
\<close>

definition gave_up :: "string \<Rightarrow> string \<Rightarrow> 'k \<Rightarrow> bool" where
  "gave_up w0 T k \<longleftrightarrow> write_can_fail wfn kok \<and> kok k \<and> (\<exists>t u. T = t @ u \<and> sent k = w0 @ t)"

lemma gave_up_more: "gave_up w0 T k \<Longrightarrow> gave_up w0 (T @ U) k"
  unfolding gave_up_def by (metis append.assoc)

lemma gave_upI:
  "write_can_fail wfn kok \<Longrightarrow> kok k \<Longrightarrow> sent k @ u = w0 @ F @ s \<Longrightarrow> length u \<le> length s \<Longrightarrow> gave_up w0 (F @ s) k"
proof -
  assume c: "write_can_fail wfn kok" "kok k" and eq: "sent k @ u = w0 @ F @ s" and le: "length u \<le> length s"
  from eq le have "sent k = take (length (sent k)) (w0 @ F @ s)" "length w0 \<le> length (sent k)"
    by (metis append_eq_conv_conj) (use eq le in \<open>auto dest: arg_cong [of _ _ length]\<close>)
  then have "sent k = w0 @ take (length (sent k) - length w0) (F @ s)" by simp
  then show "gave_up w0 (F @ s) k" unfolding gave_up_def using c
    by (metis append_take_drop_id)
qed

lemma flush_default:
  "writefn st = Some wfn \<Longrightarrow> kok (cookie st) \<Longrightarrow> buf_ok b \<Longrightarrow> bin b + tries (cookie st) < n \<Longrightarrow>
    \<exists>k b' r. stream_flush_default n st b = Some (st\<lparr>cookie := k\<rparr>, b', r) \<and> flush_post (cookie st) b k b' r"
proof (induction n arbitrary: st b)
  case (Suc n)
  show ?case
  proof (cases "bin b = 0")
    case True
    with Suc.prems have "stream_flush_default (Suc n) st b = Some (st\<lparr>cookie := cookie st\<rparr>, b, 0)" by simp
    moreover have "flush_post (cookie st) b (cookie st) b 0" using Suc.prems True by (simp add: flush_post_def)
    ultimately show ?thesis by blast
  next
    case False
    then have ne: "buf_bytes b \<noteq> []" using Suc.prems(3) by (simp add: buf_bytes_Nil)
    obtain k w where w: "wfn (cookie st) (buf_bytes b) = (k, w)" by force
    show ?thesis
    proof (cases w)
      case WIntr
      note k = interrupted [OF Suc.prems(2) ne w [unfolded WIntr]]
      obtain k' b' r where "stream_flush_default n (st\<lparr>cookie := k\<rparr>) b = Some (st\<lparr>cookie := k\<rparr>\<lparr>cookie := k'\<rparr>, b', r)"
        "flush_post k b k' b' r"
        using Suc.IH [of "st\<lparr>cookie := k\<rparr>" b] Suc.prems k by auto
      then have "stream_flush_default (Suc n) st b = Some (st\<lparr>cookie := k'\<rparr>, b', r)"
        "flush_post (cookie st) b k' b' r"
        using Suc.prems False w WIntr k by (auto simp: flush_post_def)
      then show ?thesis by blast
    next
      case WFail
      note k = failed [OF Suc.prems(2) ne w [unfolded WFail]]
      then have "stream_flush_default (Suc n) st b = Some (st\<lparr>cookie := k\<rparr>, b, -1)"
        "flush_post (cookie st) b k b (-1)"
        using Suc.prems False w WFail ne unfolding flush_post_def write_can_fail_def by auto
      then show ?thesis by blast
    next
      case (Wrote m)
      note k = wrote [OF Suc.prems(2) ne w [unfolded Wrote]]
      show ?thesis
      proof (cases "m = 0")
        case True
        then have "stream_flush_default (Suc n) st b = Some (st\<lparr>cookie := k\<rparr>, b, -1)"
          "flush_post (cookie st) b k b (-1)"
          using Suc.prems False w Wrote k ne unfolding flush_post_def write_can_fail_def by auto
        then show ?thesis by blast
      next
        case m: False
        have "m \<le> bin b" using k Suc.prems(3) by simp
        from buf_less_ok [OF Suc.prems(3) this] obtain b1 where b1: "buf_less b m = Some b1" "buf_ok b1"
          "buf_bytes b1 = drop m (buf_bytes b)" "bin b1 = bin b - m" "bsize b1 = bsize b" by auto
        have "bin b1 + tries k < n" using b1(4) m \<open>m \<le> bin b\<close> Suc.prems(4) k by linarith
        then obtain k' b' r where "stream_flush_default n (st\<lparr>cookie := k\<rparr>) b1 = Some (st\<lparr>cookie := k\<rparr>\<lparr>cookie := k'\<rparr>, b', r)"
          "flush_post k b1 k' b' r"
          using Suc.IH [of "st\<lparr>cookie := k\<rparr>" b1] Suc.prems(1) k b1(2) by auto
        then have "stream_flush_default (Suc n) st b = Some (st\<lparr>cookie := k'\<rparr>, b', r)"
          "flush_post (cookie st) b k' b' r"
          using Suc.prems False w Wrote k b1 m by (auto simp: flush_post_def)
        then show ?thesis by blast
      qed
    qed
  qed
qed simp

text \<open>
  The invariant of a stream open for writing: what went out since \<open>w0\<close> is \<open>F\<close>, and the
  filter has digested exactly that.
\<close>

definition out_inv :: "('c, 'z) lib \<Rightarrow> string \<Rightarrow> string \<Rightarrow> ('k, 'c, 'z) stream \<Rightarrow> buf \<Rightarrow> bool" where
  "out_inv x w0 F st b \<longleftrightarrow> writefn st = Some wfn \<and> wrbuf st = Some b \<and> buf_ok b \<and> kok (cookie st) \<and>
     sent (cookie st) = w0 @ F \<and> filter_digested x (sfilter st) F (fdata st)"

lemma flush_int:
  assumes x: "md5_appends x" and i: "out_inv x w0 F st b" and n: "bin b + tries (cookie st) < n"
  shows "\<exists>st' b' r. stream_flush_int n x st how = Some (st', r) \<and> tries (cookie st') \<le> tries (cookie st) \<and>
    bsize b' = bsize b \<and> sfilter st' = sfilter st \<and> closefn st' = closefn st \<and> wrbuf st' = Some b' \<and>
    filter_digested x (sfilter st) (F @ buf_bytes b) (fdata st') \<and>
    (r = 0 \<and> bin b' = 0 \<and> out_inv x w0 (F @ buf_bytes b) st' b' \<or>
     r = -1 \<and> gave_up w0 (F @ buf_bytes b) (cookie st'))"
proof -
  have s: "writefn st = Some wfn" "wrbuf st = Some b" "buf_ok b" "kok (cookie st)" "sent (cookie st) = w0 @ F"
    and d: "filter_digested x (sfilter st) F (fdata st)"
    using i by (simp_all add: out_inv_def)
  from d obtain fd where fd: "filter_digested x (sfilter st) (F @ buf_bytes b) fd"
    and eq: "stream_flush_int n x st how = map_option (\<lambda>(st', b', r). (st'\<lparr>wrbuf := Some b'\<rparr>, r))
      (stream_flush_default n (st\<lparr>fdata := fd\<rparr>) b)"
    using s(2) filter_flush_digested [OF x d, of b n how] by (auto simp: stream_flush_int_def)
  from flush_default [of "st\<lparr>fdata := fd\<rparr>" b n] s n obtain k b' r where
    f: "stream_flush_default n (st\<lparr>fdata := fd\<rparr>) b = Some (st\<lparr>fdata := fd, cookie := k\<rparr>, b', r)"
    and p: "flush_post (cookie st) b k b' r" by auto
  let ?st = "st\<lparr>fdata := fd, cookie := k, wrbuf := Some b'\<rparr>"
  have "stream_flush_int n x st how = Some (?st, r)" using eq f by simp
  moreover have "r = 0 \<and> bin b' = 0 \<and> out_inv x w0 (F @ buf_bytes b) ?st b' \<or>
      r = -1 \<and> gave_up w0 (F @ buf_bytes b) (cookie ?st)"
  proof (cases "r = 0")
    case True
    with p have "bin b' = 0" "kok k" "buf_ok b'" "sent k @ buf_bytes b' = sent (cookie st) @ buf_bytes b"
      by (auto simp: flush_post_def)
    moreover from calculation have "buf_bytes b' = []" by (simp add: buf_bytes_Nil)
    ultimately have "sent k = w0 @ F @ buf_bytes b" using s(5) by simp
    with True \<open>bin b' = 0\<close> \<open>kok k\<close> \<open>buf_ok b'\<close> s(1) fd show ?thesis by (simp add: out_inv_def)
  next
    case False
    with p have "r = -1" "write_can_fail wfn kok" "kok k" "buf_ok b'" "bin b' \<le> bin b"
      "sent k @ buf_bytes b' = w0 @ F @ buf_bytes b" using s(5) by (auto simp: flush_post_def)
    moreover have "length (buf_bytes b') \<le> length (buf_bytes b)"
      using calculation s(3) by simp
    ultimately show ?thesis by (simp add: gave_upI)
  qed
  ultimately show ?thesis using p fd
    by (intro exI [of _ ?st] exI [of _ b'] exI [of _ r]) (simp add: flush_post_def)
qed

text \<open>\<open>room n st b\<close>: enough fuel for the operations on a stream with write buffer \<open>b\<close>.\<close>

definition room :: "nat \<Rightarrow> 'k \<Rightarrow> buf \<Rightarrow> bool" where
  "room n k b \<longleftrightarrow> bin b + tries k + 2 < n"

definition written :: "('c, 'z) lib \<Rightarrow> string \<Rightarrow> string \<Rightarrow> ('k, 'c, 'z) stream \<Rightarrow> bool" where
  "written x w0 w st \<longleftrightarrow> (\<exists>b F. out_inv x w0 F st b \<and> w = F @ buf_bytes b)"

lemma out_inv_wrbuf: "out_inv x w0 F st b \<Longrightarrow> buf_ok b' \<Longrightarrow> out_inv x w0 F (st\<lparr>wrbuf := Some b'\<rparr>) b'"
  by (simp add: out_inv_def)

lemma write_ok:
  assumes x: "md5_appends x" and i: "out_inv x w0 F st b" and n: "room n (cookie st) b"
  shows "\<exists>st' r. stream_write n x st src = Some (st', r) \<and> sfilter st' = sfilter st \<and>
    closefn st' = closefn st \<and> tries (cookie st') \<le> tries (cookie st) \<and>
    (r = int (length src) \<and> (\<exists>F' b'. out_inv x w0 F' st' b' \<and> F' @ buf_bytes b' = F @ buf_bytes b @ src \<and>
       bin b' \<le> bin b + length src) \<or> r = -1 \<and> gave_up w0 (F @ buf_bytes b @ src) (cookie st'))"
proof -
  have ok: "buf_ok b" and wb: "wrbuf st = Some b" using i by (simp_all add: out_inv_def)
  obtain b0 where b0: "(if length src > bsize b then buf_grow b (length src) else Some b) = Some b0"
    "buf_ok b0" "buf_bytes b0 = buf_bytes b" "bin b0 = bin b" "length src \<le> bsize b0"
  proof (cases "length src > bsize b")
    case True
    with buf_grow_ok [OF ok, of "length src"] that show ?thesis by auto
  next
    case False
    with ok that [of b] show ?thesis by auto
  qed
  let ?st0 = "st\<lparr>wrbuf := Some b0\<rparr>"
  have i0: "out_inv x w0 F ?st0 b0" using i b0(2) by (rule out_inv_wrbuf)
  show ?thesis
  proof (cases "length src > buf_avail b0")
    case False
    then obtain b2 where b2: "buf_more (buf_copyin b0 src) (length src) = Some b2" "buf_ok b2"
      "buf_bytes b2 = buf_bytes b0 @ src" "bin b2 = bin b0 + length src"
      using buf_copyin_more [OF b0(2), of src] by auto
    have "stream_write n x st src = Some (st\<lparr>wrbuf := Some b2\<rparr>, int (length src))"
      using wb b0(1) False b2(1) by (simp add: stream_write_def Let_def)
    moreover have "out_inv x w0 F (st\<lparr>wrbuf := Some b2\<rparr>) b2" using i b2(2) by (rule out_inv_wrbuf)
    ultimately have w: "stream_write n x st src = Some (st\<lparr>wrbuf := Some b2\<rparr>, int (length src))"
      "\<exists>F' b'. out_inv x w0 F' (st\<lparr>wrbuf := Some b2\<rparr>) b' \<and>
        F' @ buf_bytes b' = F @ buf_bytes b @ src \<and> bin b' \<le> bin b + length src"
      using b2(3,4) b0(3,4) by (auto intro!: exI [of _ F] exI [of _ b2])
    show ?thesis
      by (rule exI [of _ "st\<lparr>wrbuf := Some b2\<rparr>"], rule exI [of _ "int (length src)"]) (use w in simp)
  next
    case True
    have "bin b0 + tries (cookie ?st0) < n" using n b0(4) by (simp add: room_def)
    from flush_int [OF x i0 this, of STREAM_FLUSH_NORMAL] obtain st1 b1 r where
      f: "stream_flush_int n x ?st0 STREAM_FLUSH_NORMAL = Some (st1, r)" "tries (cookie st1) \<le> tries (cookie st)"
        "bsize b1 = bsize b0" "sfilter st1 = sfilter st" "closefn st1 = closefn st" "wrbuf st1 = Some b1"
        "r = 0 \<and> bin b1 = 0 \<and> out_inv x w0 (F @ buf_bytes b0) st1 b1 \<or>
         r = -1 \<and> gave_up w0 (F @ buf_bytes b0) (cookie st1)"
      by auto
    show ?thesis
    proof (cases "r = 0")
      case False
      then have "stream_write n x st src = Some (st1, -1)"
        using wb b0(1) True f(1) by (simp add: stream_write_def Let_def)
      moreover have "gave_up w0 (F @ buf_bytes b @ src) (cookie st1)"
        using f(7) False gave_up_more [of w0 "F @ buf_bytes b0" _ src] b0(3) by auto
      ultimately show ?thesis using f by auto
    next
      case r0: True
      with f(7) have i1: "bin b1 = 0" "out_inv x w0 (F @ buf_bytes b0) st1 b1" by auto
      then have ok1: "buf_ok b1" by (simp add: out_inv_def)
      have "length src \<le> buf_avail b1" using ok1 i1(1) b0(5) f(3) by (simp add: buf_ok_def buf_avail_def)
      from buf_copyin_more [OF ok1 this] obtain b2 where
        b2: "buf_more (buf_copyin b1 src) (length src) = Some b2" "buf_ok b2"
          "buf_bytes b2 = buf_bytes b1 @ src" "bin b2 = bin b1 + length src" by blast
      have "stream_write n x st src = Some (st1\<lparr>wrbuf := Some b2\<rparr>, int (length src))"
        using wb b0(1) True f(1,6) r0 b2(1) by (simp add: stream_write_def Let_def)
      moreover have "out_inv x w0 (F @ buf_bytes b0) (st1\<lparr>wrbuf := Some b2\<rparr>) b2"
        using i1(2) b2(2) by (rule out_inv_wrbuf)
      moreover have "buf_bytes b1 = []" using ok1 i1(1) by (simp add: buf_bytes_Nil)
      ultimately have w: "stream_write n x st src = Some (st1\<lparr>wrbuf := Some b2\<rparr>, int (length src))"
        "\<exists>F' b'. out_inv x w0 F' (st1\<lparr>wrbuf := Some b2\<rparr>) b' \<and>
          F' @ buf_bytes b' = F @ buf_bytes b @ src \<and> bin b' \<le> bin b + length src"
        using b2(3,4) b0(3) i1(1) by (auto intro!: exI [of _ "F @ buf_bytes b"] exI [of _ b2])
      show ?thesis
        by (rule exI [of _ "st1\<lparr>wrbuf := Some b2\<rparr>"], rule exI [of _ "int (length src)"])
          (use w f(2,4,5) in simp)
    qed
  qed
qed

definition wrote_text ::
  "('c, 'z) lib \<Rightarrow> string \<Rightarrow> string \<Rightarrow> buf \<Rightarrow> string \<Rightarrow> ('k, 'c, 'z) stream \<Rightarrow> ('k, 'c, 'z) stream \<Rightarrow> int \<Rightarrow> bool" where
  "wrote_text x w0 F b src st st' r \<longleftrightarrow> sfilter st' = sfilter st \<and> closefn st' = closefn st \<and>
    tries (cookie st') \<le> tries (cookie st) \<and>
    (r = int (length src) \<and> (\<exists>F' b'. out_inv x w0 F' st' b' \<and> F' @ buf_bytes b' = F @ buf_bytes b @ src \<and>
       bin b' \<le> bin b + length src) \<or> r = -1 \<and> gave_up w0 (F @ buf_bytes b @ src) (cookie st'))"

lemma printf_fits:
  assumes i: "out_inv x w0 F st b" and fit: "length out < buf_avail b"
  shows "\<exists>st'. stream_printf (Suc n) x st out = Some (st', int (length out)) \<and>
    wrote_text x w0 F b out st st' (int (length out))"
proof -
  have ok: "buf_ok b" and wb: "wrbuf st = Some b" using i by (simp_all add: out_inv_def)
  from vsnprintf_more [OF ok fit] obtain b' where b': "buf_more (vsnprintf b out) (length out) = Some b'"
    "buf_ok b'" "buf_bytes b' = buf_bytes b @ out" "bin b' = bin b + length out" by blast
  have "stream_printf (Suc n) x st out = Some (st\<lparr>wrbuf := Some b'\<rparr>, int (length out))"
    using wb fit b'(1) vsnprintf_ok [OF ok, of out] by (simp add: Let_def)
  moreover have "wrote_text x w0 F b out st (st\<lparr>wrbuf := Some b'\<rparr>) (int (length out))"
    using out_inv_wrbuf [OF i b'(2)] b'(3,4)
    by (auto simp: wrote_text_def intro!: exI [of _ F] exI [of _ b'])
  ultimately show ?thesis by blast
qed

lemma wrote_text_from:
  assumes "wrote_text x w0 F1 b1 src st1 st' r" and "F1 @ buf_bytes b1 = F @ buf_bytes b" and "bin b1 \<le> bin b"
    and "sfilter st1 = sfilter st" "closefn st1 = closefn st" "tries (cookie st1) \<le> tries (cookie st)"
  shows "wrote_text x w0 F b src st st' r"
proof -
  from assms(1) consider F' b' where "r = int (length src)" "out_inv x w0 F' st' b'"
      "F' @ buf_bytes b' = F1 @ buf_bytes b1 @ src" "bin b' \<le> bin b1 + length src"
    | "r = -1" "gave_up w0 (F1 @ buf_bytes b1 @ src) (cookie st')"
    by (auto simp: wrote_text_def)
  then show ?thesis
  proof cases
    case 1
    from 1(3) have "F' @ buf_bytes b' = F @ buf_bytes b @ src"
      by (metis append.assoc assms(2))
    with 1 assms show ?thesis by (auto simp: wrote_text_def intro!: exI [of _ F'] exI [of _ b'])
  next
    case 2
    moreover have "F1 @ buf_bytes b1 @ src = F @ buf_bytes b @ src" by (metis append.assoc assms(2))
    ultimately show ?thesis using assms by (simp add: wrote_text_def)
  qed
qed

lemma printf_ok:
  assumes x: "md5_appends x" and i: "out_inv x w0 F st b" and n: "room n (cookie st) b"
  shows "\<exists>st' r. stream_printf n x st out = Some (st', r) \<and> wrote_text x w0 F b out st st' r"
proof -
  obtain m where m: "n = Suc (Suc m)" "bin b + tries (cookie st) < Suc m"
    using n by (auto simp: room_def less_iff_Suc_add)
  have ok: "buf_ok b" and wb: "wrbuf st = Some b" using i by (simp_all add: out_inv_def)
  let ?b = "vsnprintf b out"
  note v = vsnprintf_ok [OF ok, of out]
  show ?thesis
  proof (cases "length out < buf_avail b")
    case True
    from printf_fits [OF i this] m(1) show ?thesis by blast
  next
    case False
    obtain b1 where b1: "(if length out \<ge> bsize ?b then buf_grow ?b (length out + 1) else Some ?b) = Some b1"
      "buf_ok b1" "buf_bytes b1 = buf_bytes b" "bin b1 = bin b" "length out < bsize b1"
    proof (cases "length out \<ge> bsize ?b")
      case True
      with v buf_grow_ok [of ?b "length out + 1"] that show ?thesis by auto
    next
      case False
      with v that [of ?b] show ?thesis by auto
    qed
    let ?st1 = "st\<lparr>wrbuf := Some b1\<rparr>"
    have i1: "out_inv x w0 F ?st1 b1" using i b1(2) by (rule out_inv_wrbuf)
    have pr: "stream_printf n x st out = (if length out \<ge> buf_avail b1 then
        (case stream_flush_int (Suc m) x ?st1 STREAM_FLUSH_NORMAL of None \<Rightarrow> None
         | Some (st2, err) \<Rightarrow> if err \<noteq> 0 then Some (st2, -1) else stream_printf (Suc m) x st2 out)
      else stream_printf (Suc m) x ?st1 out)"
      unfolding m(1) by (subst stream_printf.simps(2)) (use wb False v b1(1) in \<open>simp add: Let_def\<close>)
    show ?thesis
    proof (cases "length out \<ge> buf_avail b1")
      case nofit: False
      then have "length out < buf_avail b1" by simp
      from printf_fits [OF i1 this, of m] obtain st' where
        st': "stream_printf (Suc m) x ?st1 out = Some (st', int (length out))"
        "wrote_text x w0 F b1 out ?st1 st' (int (length out))" by blast
      have "wrote_text x w0 F b out st st' (int (length out))"
        using st'(2) by (rule wrote_text_from) (simp_all add: b1)
      with pr nofit st'(1) show ?thesis by auto
    next
      case True
      have "bin b1 + tries (cookie ?st1) < Suc m" using m(2) b1(4) by simp
      from flush_int [OF x i1 this, of STREAM_FLUSH_NORMAL] obtain st2 b2 r where
        f: "stream_flush_int (Suc m) x ?st1 STREAM_FLUSH_NORMAL = Some (st2, r)" "tries (cookie st2) \<le> tries (cookie st)"
          "bsize b2 = bsize b1" "sfilter st2 = sfilter st" "closefn st2 = closefn st"
          "r = 0 \<and> bin b2 = 0 \<and> out_inv x w0 (F @ buf_bytes b1) st2 b2 \<or>
           r = -1 \<and> gave_up w0 (F @ buf_bytes b1) (cookie st2)"
        by auto
      show ?thesis
      proof (cases "r = 0")
        case False
        then have "stream_printf n x st out = Some (st2, -1)" using pr True f(1) by simp
        moreover have "gave_up w0 (F @ buf_bytes b @ out) (cookie st2)"
          using f(6) False gave_up_more [of w0 "F @ buf_bytes b1" _ out] b1(3) by auto
        ultimately show ?thesis using f by (auto simp: wrote_text_def)
      next
        case r0: True
        with f(6) have i2: "bin b2 = 0" "out_inv x w0 (F @ buf_bytes b1) st2 b2" by auto
        then have ok2: "buf_ok b2" by (simp add: out_inv_def)
        have "length out < buf_avail b2" using ok2 i2(1) b1(5) f(3) by (simp add: buf_ok_def buf_avail_def)
        from printf_fits [OF i2(2) this, of m] obtain st' where
          st': "stream_printf (Suc m) x st2 out = Some (st', int (length out))"
          "wrote_text x w0 (F @ buf_bytes b1) b2 out st2 st' (int (length out))" by blast
        have "buf_bytes b2 = []" using ok2 i2(1) by (simp add: buf_bytes_Nil)
        then have "wrote_text x w0 F b out st st' (int (length out))"
          by (intro wrote_text_from [OF st'(2)]) (simp_all add: b1 f i2(1))
        with pr True f(1) r0 st'(1) show ?thesis by auto
      qed
    qed
  qed
qed

lemma write_ok':
  assumes "md5_appends x" and "out_inv x w0 F st b" and "room n (cookie st) b"
  shows "\<exists>st' r. stream_write n x st src = Some (st', r) \<and> wrote_text x w0 F b src st st' r"
  using write_ok [OF assms, of src] unfolding wrote_text_def .

text \<open>
  How a session ends: the cookie \<open>k1\<close> is handed to the close function, whose result is the
  result of the session, whatever became of the flush before it.
\<close>

definition session_end ::
  "('c, 'z) lib \<Rightarrow> ('k \<Rightarrow> 'k \<times> int) option \<Rightarrow> stream_filter_t \<Rightarrow> string \<Rightarrow> string \<Rightarrow> 'k \<Rightarrow> ('k, 'c, 'z) stream \<Rightarrow> int \<Rightarrow> bool" where
  "session_end x cfn f w0 T k1 st' r \<longleftrightarrow> kok k1 \<and>
     ((cookie st', r) = close_call cfn k1 \<and> sent k1 = w0 @ T \<and>
        (f = STREAM_FILTER_NULL \<or> digest st' = Some (filter_digest x f T)) \<or>
      gave_up w0 T k1 \<and> ((cookie st', r) = (k1, -1) \<or> (\<exists>c. cfn = Some c \<and> (cookie st', r) = c k1)))"

lemma close_ok:
  assumes x: "md5_appends x" and i: "out_inv x w0 F st b" and n: "room n (cookie st) b"
  shows "\<exists>st' r k1. stream_close n x st = Some (st', r) \<and>
    session_end x (closefn st) (sfilter st) w0 (F @ buf_bytes b) k1 st' r"
proof -
  have "bin b + tries (cookie st) < n" using n by (simp add: room_def)
  from flush_int [OF x i this, of STREAM_FLUSH_CLOSING] obtain st1 b1 r where
    f: "stream_flush_int n x st STREAM_FLUSH_CLOSING = Some (st1, r)" "sfilter st1 = sfilter st" "closefn st1 = closefn st"
      "filter_digested x (sfilter st) (F @ buf_bytes b) (fdata st1)"
      "r = 0 \<and> bin b1 = 0 \<and> out_inv x w0 (F @ buf_bytes b) st1 b1 \<or>
       r = -1 \<and> gave_up w0 (F @ buf_bytes b) (cookie st1)"
    by auto
  from f(2,4) obtain st2 where st2: "stream_filter_fini n x st1 = Some st2" "cookie st2 = cookie st1"
    "closefn st2 = closefn st1"
    "sfilter st = STREAM_FILTER_NULL \<or> digest st2 = Some (filter_digest x (sfilter st) (F @ buf_bytes b))"
    by (auto simp: stream_filter_fini_def filter_digested_def md5filter_fini_def filter_digest_def md5_start_def
      split: stream_filter_t.splits)
  let ?e = "if closefn st = None then r else snd (close_call (closefn st) (cookie st1))"
  let ?st = "st2\<lparr>cookie := fst (close_call (closefn st) (cookie st1))\<rparr>"
  have "stream_close n x st = Some (?st, ?e)"
    using i f(1,3) st2(1,2,3) by (cases "closefn st") (simp_all add: stream_close_def out_inv_def split: prod.splits)
  moreover have "session_end x (closefn st) (sfilter st) w0 (F @ buf_bytes b) (cookie st1) ?st ?e"
    using f(5) st2(4) by (cases "closefn st") (auto simp: session_end_def out_inv_def gave_up_def)
  ultimately show ?thesis by blast
qed

lemma puts_ok:
  assumes x: "md5_appends x"
  shows "out_inv x w0 F st b \<Longrightarrow>
      bin b + length (concat (map snd ps)) + tries (cookie st) + 2 < n \<Longrightarrow>
    \<exists>st' r k1. stream_puts n x st ps = Some (st', r) \<and>
      session_end x (closefn st) (sfilter st) w0 (F @ buf_bytes b @ concat (map snd ps)) k1 st' r"
proof (induction ps arbitrary: F st b)
  case Nil
  then show ?case using close_ok [OF x, of w0 F st b n] by (simp add: room_def)
next
  case (Cons p ps)
  obtain how src where p: "p = (how, src)" by force
  have n: "room n (cookie st) b" using Cons.prems(2) by (simp add: room_def)
  from printf_ok [OF x Cons.prems(1) n, of src] write_ok' [OF x Cons.prems(1) n, of src]
  obtain st1 r where put: "(if how then stream_printf n x st src else stream_write n x st src) = Some (st1, r)"
    and w: "wrote_text x w0 F b src st st1 r" by (cases how) auto
  show ?case
  proof (cases "r = -1")
    case True
    then have "gave_up w0 (F @ buf_bytes b @ src) (cookie st1)" using w by (auto simp: wrote_text_def)
    from gave_up_more [OF this, of "concat (map snd ps)"] put p True show ?thesis
      by (auto simp: session_end_def gave_up_def intro!: exI [of _ "cookie st1"])
  next
    case False
    with w obtain F' b' where i': "out_inv x w0 F' st1 b'" and eq: "F' @ buf_bytes b' = F @ buf_bytes b @ src"
      and le: "bin b' \<le> bin b + length src" "tries (cookie st1) \<le> tries (cookie st)"
      and same: "sfilter st1 = sfilter st" "closefn st1 = closefn st"
      by (auto simp: wrote_text_def)
    have "bin b' + length (concat (map snd ps)) + tries (cookie st1) + 2 < n"
      using Cons.prems(2) le p by simp
    from Cons.IH [OF i' this] False put p same eq show ?thesis
      by (simp flip: append_assoc)
  qed
qed

lemma opened_out_inv:
  assumes "md5_appends x" and "f \<noteq> STREAM_FILTER_ZLIB" and "kok k"
  shows "\<exists>st. open_writer n x k wfn cfn f = Some st \<and> out_inv x (sent k) [] st (buf_new STREAM_BUFSIZ) \<and>
    sfilter st = f \<and> closefn st = cfn \<and> cookie st = k"
  using assms by (cases f)
    (simp_all add: out_inv_def open_writer_def stream_new_def stream_filter_start_def stream_filter_fini_def
      stream_filter_init_def md5filter_init_def filter_digested_def md5_start_def md5_feed_Nil)

lemma session_ok:
  assumes x: "md5_appends x" and f: "f \<noteq> STREAM_FILTER_ZLIB" and k: "kok k"
    and n: "length (concat (map snd ps)) + tries k + 2 < n"
  shows "\<exists>st' r k1. Option.bind (open_writer n x k wfn cfn f) (\<lambda>st. stream_puts n x st ps) = Some (st', r) \<and> kok k1 \<and>
     ((cookie st', r) = close_call cfn k1 \<and> sent k1 = sent k @ concat (map snd ps) \<and>
        (f = STREAM_FILTER_NULL \<or> digest st' = Some (filter_digest x f (concat (map snd ps)))) \<or>
      write_can_fail wfn kok \<and> (\<exists>t u. concat (map snd ps) = t @ u \<and> sent k1 = sent k @ t) \<and>
        ((cookie st', r) = (k1, -1) \<or> (\<exists>c. cfn = Some c \<and> (cookie st', r) = c k1)))"
proof -
  from opened_out_inv [OF x f k, of n cfn] obtain st where st: "open_writer n x k wfn cfn f = Some st"
    "out_inv x (sent k) [] st (buf_new STREAM_BUFSIZ)" "sfilter st = f" "closefn st = cfn" "cookie st = k" by blast
  from puts_ok [OF x st(2), of ps n] n st show ?thesis
    by (simp add: session_end_def gave_up_def) blast
qed

end

text \<open>The character buffer is such a write function; it never fails.\<close>

definition append_ok :: "buf \<Rightarrow> bool" where
  "append_ok b \<longleftrightarrow> length (bdata b) = bsize b + 1 \<and> boff b \<le> bsize b"

definition appended :: "buf \<Rightarrow> string" where
  "appended b = take (boff b) (bdata b)"

lemma stream_append_buf_ok:
  assumes "append_ok b"
  shows "\<exists>b'. stream_append_buf b s = (b', Wrote (length s)) \<and> append_ok b' \<and> appended b' = appended b @ s"
proof -
  obtain b1 where b1: "(if length s > bsize b - boff b then buf_grow b (bsize b + length s) else Some b) = Some b1"
    "append_ok b1" "appended b1 = appended b" "boff b1 = boff b" "boff b + length s \<le> bsize b1"
  proof (cases "length s > bsize b - boff b")
    case True
    then have "bsize b < bsize b + length s" by auto
    moreover have "bsize b + length s \<le> grow_size (bsize b) (bsize b + length s)" by (rule grow_size_ge)
    ultimately show ?thesis using True assms
      by (intro that [of "buf_resize b (grow_size (bsize b) (bsize b + length s))"])
        (auto simp: buf_grow_def append_ok_def appended_def buf_resize_def)
  next
    case False
    with assms show ?thesis by (intro that [of b]) (auto simp: append_ok_def)
  qed
  let ?d = "poke (bdata b1) (boff b1) s"
  let ?b = "b1\<lparr>bdata := ?d[boff b1 + length s := CHR 0x00], boff := boff b1 + length s\<rparr>"
  have len: "length (bdata b1) = bsize b1 + 1" using b1(2) by (simp add: append_ok_def)
  have "length ?d = bsize b1 + 1" using len b1(4,5) by simp
  then have "append_ok ?b" using b1(4,5) by (simp add: append_ok_def)
  moreover have "appended ?b = appended b1 @ s"
    using len b1(4,5) by (simp add: appended_def poke_def min_def)
  ultimately show ?thesis using b1(1,3) by (auto simp: stream_append_buf_def Let_def)
qed

interpretation bufw: writer stream_append_buf appended "\<lambda>_. 0" append_ok
proof
  fix k s k' m
  assume "append_ok k" "stream_append_buf k s = (k', Wrote m)"
  then show "append_ok k' \<and> m \<le> length s \<and> appended k' = appended k @ take m s \<and> (0::nat) \<le> 0"
    using stream_append_buf_ok [of k s] by auto
next
  fix k s k'
  assume "append_ok k" "stream_append_buf k s = (k', WIntr)"
  then show "append_ok k' \<and> appended k' = appended k \<and> (0::nat) < 0"
    using stream_append_buf_ok [of k s] by auto
next
  fix k s k'
  assume "append_ok k" "stream_append_buf k s = (k', WFail)"
  then show "append_ok k' \<and> appended k' = appended k \<and> (0::nat) \<le> 0"
    using stream_append_buf_ok [of k s] by auto
qed

lemma bufw_never_fails: "\<not> write_can_fail stream_append_buf append_ok"
proof -
  have "snd (stream_append_buf k s) = Wrote (length s)" if "append_ok k" for k s
    using stream_append_buf_ok [OF that, of s] by auto
  then show ?thesis unfolding write_can_fail_def by (metis length_0_conv snd_conv wres.distinct(3) wres.inject)
qed

section \<open>Reading\<close>

text \<open>
  What a stream relies on from its read function: \<open>rest k\<close> is what can still be read over
  the cookie \<open>k\<close>; an empty read means there is nothing left. It may cut the data anywhere.
\<close>

locale reader =
  fixes rfn :: "'k \<Rightarrow> nat \<Rightarrow> 'k \<times> string option"
    and rest :: "'k \<Rightarrow> string"
    and kok :: "'k \<Rightarrow> bool"
  assumes got: "kok k \<Longrightarrow> 0 < m \<Longrightarrow> rfn k m = (k', Some s) \<Longrightarrow>
      kok k' \<and> length s \<le> m \<and> rest k = s @ rest k' \<and> (s = [] \<longrightarrow> rest k = [])"
    and read_error: "kok k \<Longrightarrow> 0 < m \<Longrightarrow> rfn k m = (k', None) \<Longrightarrow> kok k' \<and> rest k' = rest k"

locale sure_reader = reader +
  assumes no_error: "kok k \<Longrightarrow> 0 < m \<Longrightarrow> snd (rfn k m) \<noteq> None"

definition first_line :: "string \<Rightarrow> string" where
  "first_line p = (case find_nl p of None \<Rightarrow> p | Some i \<Rightarrow> take (i + 1) p)"

lemma find_nl_append:
  "find_nl (a @ b) = (case find_nl a of Some i \<Rightarrow> Some i | None \<Rightarrow> map_option (\<lambda>i. length a + i) (find_nl b))"
  by (cases "find_nl b"; induction a) (auto split: option.splits)

lemma find_nl_Some: "find_nl p = Some i \<Longrightarrow> i < length p \<and> p ! i = CHR 0x0A \<and> CHR 0x0A \<notin> set (take i p)"
  by (induction p arbitrary: i) (auto split: if_splits)

lemma find_nl_None: "find_nl p = None \<longleftrightarrow> CHR 0x0A \<notin> set p"
  by (induction p) auto

lemma first_line_append: "find_nl a = Some i \<Longrightarrow> first_line (a @ b) = take (i + 1) a"
  using find_nl_Some [of a i] by (auto simp: first_line_def find_nl_append)

lemma first_line_cases:
  obtains (newline) l0 where "first_line p = l0 @ [CHR 0x0A]" "CHR 0x0A \<notin> set l0"
    | (last) "first_line p = p" "CHR 0x0A \<notin> set p"
proof (cases "find_nl p")
  case None
  then show ?thesis using last by (simp add: first_line_def flip: find_nl_None)
next
  case (Some i)
  then have "first_line p = take i p @ [CHR 0x0A]" "CHR 0x0A \<notin> set (take i p)"
    using find_nl_Some [OF Some] by (simp_all add: first_line_def take_Suc_conv_app_nth)
  then show ?thesis by (rule newline)
qed

lemma takeWhile_until: "P c \<longleftrightarrow> False \<Longrightarrow> takeWhile P (a @ c # b) = takeWhile P a"
  by (induction a) auto

text \<open>The C string that \<open>stream_getln\<close> leaves when it cuts the line \<open>l\<close> found in front of \<open>t\<close>.\<close>

lemma cut_line:
  assumes l: "drop o1 d = l @ t" "length l = i + 1" "o1 + i + 1 < length d"
    and c: "l = l0 @ [CHR 0x0A] \<and> CHR 0x0A \<notin> set l0 \<or> CHR 0x0A \<notin> set l"
  defines "pos \<equiv> if d ! (o1 + i) = CHR 0x0A then o1 + i else o1 + i + 1"
  shows "takeWhile (\<lambda>c. c \<noteq> CHR 0x00) (drop o1 (d[pos := CHR 0x00]))
    = takeWhile (\<lambda>c. c \<noteq> CHR 0x00 \<and> c \<noteq> CHR 0x0A) l"
    and "pos = o1 + i \<longleftrightarrow> CHR 0x0A \<in> set l" and "pos = o1 + i \<or> pos = o1 + i + 1"
proof -
  have lst: "d ! (o1 + i) = last l"
    using l by (metis add_diff_cancel_right' add_gr_0 last_conv_nth length_greater_0_conv less_add_one
        less_imp_le nth_append nth_drop trans_less_add1 zero_less_one Suc_eq_plus1 le_add1 order.strict_trans1)
  show "pos = o1 + i \<or> pos = o1 + i + 1" by (simp add: pos_def)
  show "pos = o1 + i \<longleftrightarrow> CHR 0x0A \<in> set l"
    using c lst l(2) by (auto simp: pos_def) (metis last_in_set list.size(3) nat.distinct(1) Suc_eq_plus1)
  have dp: "drop o1 (d[pos := CHR 0x00]) = (l @ t)[pos - o1 := CHR 0x00]"
    using l(1) by (simp add: drop_update_swap pos_def)
  from c consider "l = l0 @ [CHR 0x0A]" "CHR 0x0A \<notin> set l0" | "CHR 0x0A \<notin> set l" by blast
  then show "takeWhile (\<lambda>c. c \<noteq> CHR 0x00) (drop o1 (d[pos := CHR 0x00]))
    = takeWhile (\<lambda>c. c \<noteq> CHR 0x00 \<and> c \<noteq> CHR 0x0A) l"
  proof cases
    case 1
    then have "pos - o1 = length l0" using lst l(2) by (simp add: pos_def)
    then have "drop o1 (d[pos := CHR 0x00]) = l0 @ CHR 0x00 # t"
      using dp 1(1) by (simp add: list_update_append)
    moreover have "takeWhile (\<lambda>c. c \<noteq> CHR 0x00) l0 = takeWhile (\<lambda>c. c \<noteq> CHR 0x00 \<and> c \<noteq> CHR 0x0A) l0"
      using 1(2) by (intro takeWhile_cong) auto
    ultimately show ?thesis using 1(1) by (simp add: takeWhile_until)
  next
    case 2
    have "last l \<in> set l" using l(2) by (intro last_in_set) auto
    with 2 have "last l \<noteq> CHR 0x0A" by auto
    then have pos: "pos - o1 = length l" using lst l(2) by (simp add: pos_def)
    have "length (drop o1 d) > length l" using l(2,3) by simp
    then obtain z t' where "t = z # t'" using l(1) by (cases t) auto
    then have "drop o1 (d[pos := CHR 0x00]) = l @ CHR 0x00 # t'"
      using dp pos by (simp add: list_update_append)
    moreover have "takeWhile (\<lambda>c. c \<noteq> CHR 0x00) l = takeWhile (\<lambda>c. c \<noteq> CHR 0x00 \<and> c \<noteq> CHR 0x0A) l"
      using 2 by (intro takeWhile_cong) auto
    ultimately show ?thesis by (simp add: takeWhile_until)
  qed
qed

context reader
begin

definition in_inv :: "('k, 'c, 'z) stream \<Rightarrow> buf \<Rightarrow> bool" where
  "in_inv st b \<longleftrightarrow> readfn st = Some rfn \<and> rdbuf st = Some b \<and> buf_ok b \<and> kok (cookie st) \<and>
     sfilter st \<noteq> STREAM_FILTER_ZLIB \<and> (eof st \<longrightarrow> rest (cookie st) = [])"

definition pending :: "('k, 'c, 'z) stream \<Rightarrow> buf \<Rightarrow> string" where
  "pending st b = buf_bytes b @ rest (cookie st)"

lemma fill_default:
  assumes st: "readfn st = Some rfn" "kok (cookie st)" "eof st \<longrightarrow> rest (cookie st) = []"
    and b: "buf_ok b" "0 < buf_avail b"
  shows "\<exists>k e b' r. stream_fill_default st b = Some (st\<lparr>cookie := k, eof := e\<rparr>, b', r) \<and> kok k \<and> buf_ok b' \<and>
    (e \<longrightarrow> rest k = []) \<and>
    (0 < r \<and> (\<exists>s. r = int (length s) \<and> buf_bytes b' = buf_bytes b @ s \<and> bin b' = bin b + length s \<and>
        rest (cookie st) = s @ rest k) \<or>
     r = 0 \<and> b' = b \<and> rest (cookie st) = [] \<and> rest k = [] \<or>
     r = -1 \<and> b' = b \<and> rest k = rest (cookie st) \<and> snd (rfn (cookie st) (buf_avail b)) = None)"
proof (cases "eof st")
  case True
  with st b have "stream_fill_default st b = Some (st\<lparr>cookie := cookie st, eof := eof st\<rparr>, b, 0)"
    by (simp add: stream_fill_default_def)
  with True st b show ?thesis by blast
next
  case False
  obtain k o1 where r: "rfn (cookie st) (buf_avail b) = (k, o1)" by force
  show ?thesis
  proof (cases o1)
    case None
    note k = read_error [OF st(2) b(2) r [unfolded None]]
    have "stream_fill_default st b = Some (st\<lparr>cookie := k, eof := False\<rparr>, b, -1)"
      using False st b r None by (simp add: stream_fill_default_def)
    with k b r None show ?thesis by fastforce
  next
    case (Some s)
    note k = got [OF st(2) b(2) r [unfolded Some]]
    show ?thesis
    proof (cases "s = []")
      case True
      have "stream_fill_default st b = Some (st\<lparr>cookie := k, eof := True\<rparr>, b, 0)"
        using False st b r Some True by (simp add: stream_fill_default_def)
      with k b True show ?thesis by (metis append_Nil)
    next
      case ne: False
      from buf_copyin_more [OF b(1), of s] k obtain b' where b': "buf_more (buf_copyin b s) (length s) = Some b'"
        "buf_ok b'" "buf_bytes b' = buf_bytes b @ s" "bin b' = bin b + length s" by auto
      have "stream_fill_default st b = Some (st\<lparr>cookie := k, eof := False\<rparr>, b', int (length s))"
        using False st b r Some ne b'(1) by (simp add: stream_fill_default_def)
      moreover have "0 < int (length s)" using ne by simp
      ultimately show ?thesis using k b' by blast
    qed
  qed
qed

lemma fill_ok:
  assumes i: "in_inv st b"
  shows "\<exists>st' b' r. stream_fill n x st = Some (st', r) \<and> in_inv st' b' \<and> pending st' b' = pending st b \<and>
    (0 < r \<and> r = int (bin b') - int (bin b) \<and> (\<exists>s. buf_bytes b' = buf_bytes b @ s) \<and>
       length (rest (cookie st')) < length (rest (cookie st)) \<or>
     r = 0 \<and> buf_bytes b' = buf_bytes b \<and> rest (cookie st') = [] \<or>
     r = -1 \<and> buf_bytes b' = buf_bytes b \<and> (\<exists>m > 0. snd (rfn (cookie st) m) = None))"
proof -
  have s: "readfn st = Some rfn" "rdbuf st = Some b" "buf_ok b" "kok (cookie st)"
    "sfilter st \<noteq> STREAM_FILTER_ZLIB" "eof st \<longrightarrow> rest (cookie st) = []"
    using i by (simp_all add: in_inv_def)
  from buf_prewrite_ok [OF s(3)] obtain b1 where b1: "buf_prewrite b = Some b1" "buf_ok b1"
    "buf_bytes b1 = buf_bytes b" "bin b1 = bin b" "0 < buf_avail b1" by blast
  from fill_default [OF s(1,4,6) b1(2,5)] obtain k e b' r where
    f: "stream_fill_default st b1 = Some (st\<lparr>cookie := k, eof := e\<rparr>, b', r)" "kok k" "buf_ok b'" "e \<longrightarrow> rest k = []"
    and c: "0 < r \<and> (\<exists>s. r = int (length s) \<and> buf_bytes b' = buf_bytes b1 @ s \<and> bin b' = bin b1 + length s \<and>
        rest (cookie st) = s @ rest k) \<or>
     r = 0 \<and> b' = b1 \<and> rest (cookie st) = [] \<and> rest k = [] \<or>
     r = -1 \<and> b' = b1 \<and> rest k = rest (cookie st) \<and> snd (rfn (cookie st) (buf_avail b1)) = None"
    by blast
  let ?st = "st\<lparr>cookie := k, eof := e, rdbuf := Some b'\<rparr>"
  have "(case sfilter st of STREAM_FILTER_NULL \<Rightarrow> stream_fill_default st b1
     | STREAM_FILTER_ZLIB \<Rightarrow> zfilter_fill n x st b1 | _ \<Rightarrow> md5filter_fill st b1) = stream_fill_default st b1"
    using s(5) b1(5) by (cases "sfilter st") (simp_all add: md5filter_fill_def)
  then have fill: "stream_fill n x st = Some (?st, r)"
    using s(2) b1(1) f(1) c by (auto simp: stream_fill_def)
  have inv: "in_inv ?st b'" using s f(2-4) by (simp add: in_inv_def)
  from c consider s where "0 < r" "r = int (length s)" "buf_bytes b' = buf_bytes b1 @ s" "bin b' = bin b1 + length s"
      "rest (cookie st) = s @ rest k"
    | "r = 0" "b' = b1" "rest (cookie st) = []" "rest k = []"
    | "r = -1" "b' = b1" "rest k = rest (cookie st)" "snd (rfn (cookie st) (buf_avail b1)) = None" by auto
  then show ?thesis
  proof cases
    case 1
    then show ?thesis using fill inv b1
      by (intro exI [of _ ?st] exI [of _ b'] exI [of _ r]) (auto simp: pending_def)
  next
    case 2
    then show ?thesis using fill inv b1
      by (intro exI [of _ ?st] exI [of _ b'] exI [of _ r]) (auto simp: pending_def)
  next
    case 3
    then show ?thesis using fill inv b1
      by (intro exI [of _ ?st] exI [of _ b'] exI [of _ r]) (auto simp: pending_def)
  qed
qed

text \<open>A line has been found in the buffer, at position \<open>i\<close>.\<close>

definition line_at :: "string \<Rightarrow> ('k, 'c, 'z) stream \<Rightarrow> nat \<Rightarrow> bool" where
  "line_at p st i \<longleftrightarrow> (\<exists>b. in_inv st b \<and> pending st b = p \<and> i < bin b \<and>
     take (i + 1) (buf_bytes b) = first_line p)"

definition sure :: bool where
  "sure \<longleftrightarrow> (\<forall>k m. kok k \<longrightarrow> 0 < m \<longrightarrow> snd (rfn k m) \<noteq> None)"

lemma not_sure: "in_inv st b \<Longrightarrow> \<exists>m > 0. snd (rfn (cookie st) m) = None \<Longrightarrow> \<not> sure"
  by (auto simp: sure_def in_inv_def)

lemma getln_loop_ok:
  "in_inv st b \<Longrightarrow> find_nl (buf_bytes b) = None \<Longrightarrow> 0 < bin b \<Longrightarrow> length (rest (cookie st)) < n \<Longrightarrow>
    \<exists>st' i. getln_loop n x st (bin b) = Some (st', i) \<and>
      (case i of None \<Rightarrow> \<not> sure | Some i \<Rightarrow> line_at (pending st b) st' i)"
proof (induction n arbitrary: st b)
  case (Suc n)
  from fill_ok [OF Suc.prems(1), of n x] obtain st1 b1 r where
    f: "stream_fill n x st = Some (st1, r)" "in_inv st1 b1" "pending st1 b1 = pending st b"
    and c: "0 < r \<and> r = int (bin b1) - int (bin b) \<and> (\<exists>s. buf_bytes b1 = buf_bytes b @ s) \<and>
       length (rest (cookie st1)) < length (rest (cookie st)) \<or>
     r = 0 \<and> buf_bytes b1 = buf_bytes b \<and> rest (cookie st1) = [] \<or>
     r = -1 \<and> buf_bytes b1 = buf_bytes b \<and> (\<exists>m > 0. snd (rfn (cookie st) m) = None)" by blast
  have rb: "rdbuf st1 = Some b1" and ok: "buf_ok b" "buf_ok b1"
    using f(2) Suc.prems(1) by (simp_all add: in_inv_def)
  from c consider (more) s where "0 < r" "r = int (bin b1) - int (bin b)" "buf_bytes b1 = buf_bytes b @ s"
      "length (rest (cookie st1)) < length (rest (cookie st))"
    | (eof) "r = 0" "buf_bytes b1 = buf_bytes b" "rest (cookie st1) = []"
    | (err) "r = -1" "\<exists>m > 0. snd (rfn (cookie st) m) = None" by auto
  then show ?case
  proof cases
    case err
    then show ?thesis using f(1) not_sure [OF Suc.prems(1)] by simp
  next
    case eof
    have len: "bin b1 = bin b" using ok eof(2) by (metis buf_bytes_length)
    have "pending st b = buf_bytes b" using f(3) eof(2,3) by (simp add: pending_def)
    then have "line_at (pending st b) st1 (bin b1 - 1)"
      using f(2,3) eof(2) len ok Suc.prems(2,3) by (auto simp: line_at_def first_line_def)
    then show ?thesis using f(1) rb eof(1) by simp
  next
    case more
    have dr: "drop (bin b) (buf_bytes b1) = s" using more(3) ok(1) by simp
    show ?thesis
    proof (cases "find_nl s")
      case (Some i)
      then have nl: "find_nl (buf_bytes b1) = Some (bin b + i)"
        using more(3) Suc.prems(2) ok(1) by (simp add: find_nl_append)
      have "first_line (pending st b) = take (bin b + i + 1) (buf_bytes b1)"
        using first_line_append [OF nl, of "rest (cookie st1)"] f(3) by (simp add: pending_def)
      moreover have "bin b + i < bin b1" using find_nl_Some [OF nl] ok(2) by simp
      ultimately have "line_at (pending st b) st1 (bin b + i)"
        using f(2,3) by (auto simp: line_at_def)
      then show ?thesis using f(1) rb more(1) dr Some by simp
    next
      case None
      have "bin b + nat r = bin b1" using more(1,2) by linarith
      moreover have "find_nl (buf_bytes b1) = None" using None Suc.prems(2) more(3) by (simp add: find_nl_append)
      moreover have "0 < bin b1" "length (rest (cookie st1)) < n" using more Suc.prems(3,4) by linarith+
      ultimately obtain st' i where "getln_loop n x st1 (bin b + nat r) = Some (st', i)"
        "case i of None \<Rightarrow> \<not> sure | Some i \<Rightarrow> line_at (pending st b) st' i"
        using Suc.IH [OF f(2)] unfolding f(3) by auto
      then show ?thesis using f(1) rb more(1) dr None by simp
    qed
  qed
qed simp

lemma getln_find_ok:
  assumes i: "in_inv st b" and n: "length (rest (cookie st)) < n"
  shows "\<exists>st' i. getln_find n x st = Some (st', i) \<and>
      (case i of None \<Rightarrow> \<not> sure \<or> pending st b = [] \<and> (\<exists>b'. in_inv st' b' \<and> pending st' b' = [])
       | Some i \<Rightarrow> line_at (pending st b) st' i)"
proof -
  have rb: "rdbuf st = Some b" and ok: "buf_ok b" using i by (simp_all add: in_inv_def)
  have found: "\<exists>st' i. (case find_nl (buf_bytes b1) of Some i \<Rightarrow> Some (st1, Some i)
        | None \<Rightarrow> getln_loop n x st1 (bin b1)) = Some (st', i) \<and>
      (case i of None \<Rightarrow> \<not> sure | Some i \<Rightarrow> line_at (pending st b) st' i)"
    if i1: "in_inv st1 b1" and p: "pending st1 b1 = pending st b" and b1: "0 < bin b1"
      and n1: "length (rest (cookie st1)) < n" for st1 b1
  proof (cases "find_nl (buf_bytes b1)")
    case None
    from getln_loop_ok [OF i1 None b1 n1, of x] None show ?thesis unfolding p by simp
  next
    case (Some i)
    have "first_line (pending st b) = take (i + 1) (buf_bytes b1)"
      using first_line_append [OF Some, of "rest (cookie st1)"] p by (simp add: pending_def)
    moreover have "i < bin b1" using find_nl_Some [OF Some] i1 by (simp add: in_inv_def)
    ultimately show ?thesis using Some i1 p by (auto simp: line_at_def)
  qed
  show ?thesis
  proof (cases "bin b = 0")
    case False
    from found [OF i refl _ n] False obtain st' j where
      "(case find_nl (buf_bytes b) of Some i \<Rightarrow> Some (st, Some i) | None \<Rightarrow> getln_loop n x st (bin b)) = Some (st', j)"
      "case j of None \<Rightarrow> \<not> sure | Some i \<Rightarrow> line_at (pending st b) st' i" by auto
    then show ?thesis using rb False by (auto simp: getln_find_def split: option.splits)
  next
    case True
    from fill_ok [OF i, of n x] obtain st1 b1 r where
      f: "stream_fill n x st = Some (st1, r)" "in_inv st1 b1" "pending st1 b1 = pending st b"
      and c: "0 < r \<and> r = int (bin b1) - int (bin b) \<and> (\<exists>s. buf_bytes b1 = buf_bytes b @ s) \<and>
         length (rest (cookie st1)) < length (rest (cookie st)) \<or>
       r = 0 \<and> buf_bytes b1 = buf_bytes b \<and> rest (cookie st1) = [] \<or>
       r = -1 \<and> buf_bytes b1 = buf_bytes b \<and> (\<exists>m > 0. snd (rfn (cookie st) m) = None)" by blast
    have rb1: "rdbuf st1 = Some b1" using f(2) by (simp add: in_inv_def)
    have nil: "buf_bytes b = []" using True ok by (simp add: buf_bytes_Nil)
    from c consider (more) "0 < r" "r = int (bin b1) - int (bin b)"
        "length (rest (cookie st1)) < length (rest (cookie st))"
      | (eof) "r = 0" "buf_bytes b1 = buf_bytes b" "rest (cookie st1) = []"
      | (err) "r = -1" "\<exists>m > 0. snd (rfn (cookie st) m) = None" by auto
    then show ?thesis
    proof cases
      case err
      then show ?thesis using f(1) not_sure [OF i] rb True by (simp add: getln_find_def)
    next
      case eof
      have "pending st b = []" using f(3) eof nil by (simp add: pending_def)
      then show ?thesis using f eof rb True by (auto simp: getln_find_def)
    next
      case more
      have "0 < bin b1" using more(1,2) by linarith
      from found [OF f(2,3) this] more(3) n obtain st' j where
        "(case find_nl (buf_bytes b1) of Some i \<Rightarrow> Some (st1, Some i) | None \<Rightarrow> getln_loop n x st1 (bin b1)) = Some (st', j)"
        "case j of None \<Rightarrow> \<not> sure | Some i \<Rightarrow> line_at (pending st b) st' i" by auto
      then show ?thesis using f(1) rb rb1 True more(1) by (auto simp: getln_find_def split: option.splits)
    qed
  qed
qed

lemma line_found:
  assumes "line_at p st i" and "getln_find n x st0 = Some (st, Some i)"
  shows "\<exists>st' b'. stream_getln n x st0 want = Some (st', Some (if want then first_line p
         else takeWhile (\<lambda>c. c \<noteq> CHR 0x00 \<and> c \<noteq> CHR 0x0A) (first_line p))) \<and>
    in_inv st' b' \<and> p = first_line p @ pending st' b' \<and> p \<noteq> []"
proof -
  from assms(1) obtain b where b: "in_inv st b" "pending st b = p" "i < bin b"
    "take (i + 1) (buf_bytes b) = first_line p" by (auto simp: line_at_def)
  have rb: "rdbuf st = Some b" and ok: "buf_ok b" using b(1) by (simp_all add: in_inv_def)
  from buf_less_ok [OF ok, of "i + 1"] b(3) obtain b1 where
    b1: "buf_less b (i + 1) = Some b1" "buf_ok b1" "buf_bytes b1 = drop (i + 1) (buf_bytes b)" by auto
  have dr: "drop (boff b) (bdata b) = first_line p @ drop (i + 1) (drop (boff b) (bdata b))"
  proof -
    have "take (i + 1) (buf_bytes b) = take (i + 1) (drop (boff b) (bdata b))"
      using b(3) by (simp add: buf_bytes_def min_absorb1)
    then show ?thesis using b(4) by (metis append_take_drop_id)
  qed
  have len: "length (first_line p) = i + 1" using b(3,4) ok by (metis Suc_eq_plus1 Suc_leI buf_bytes_length length_take min.absorb2)
  have short: "boff b + i + 1 < length (bdata b)" using ok b(3) by (simp add: buf_ok_def)
  have rest: "p = first_line p @ buf_bytes b1 @ rest (cookie st)"
    using b(2,4) b1(3) by (metis append.assoc append_take_drop_id pending_def)
  have ne: "p \<noteq> []" using rest len by (metis append_is_Nil_conv list.size(3) Suc_eq_plus1 nat.distinct(1))
  show ?thesis
  proof (cases want)
    case True
    have "stream_getln n x st0 want = Some (st\<lparr>rdbuf := Some b1\<rparr>, Some (first_line p))"
      using assms(2) rb b1(1) True arg_cong [OF dr, of "take (i + 1)"] len by (simp add: stream_getln_def Let_def)
    moreover have "in_inv (st\<lparr>rdbuf := Some b1\<rparr>) b1" using b(1) b1(2) by (simp add: in_inv_def)
    ultimately show ?thesis using True rest ne by (auto simp: pending_def)
  next
    case False
    define pos where "pos = (if bdata b ! (boff b + i) = CHR 0x0A then boff b + i else boff b + i + 1)"
    let ?d = "(bdata b)[pos := CHR 0x00]"
    have sh: "(\<exists>l0. first_line p = l0 @ [CHR 0x0A] \<and> CHR 0x0A \<notin> set l0) \<or> CHR 0x0A \<notin> set (first_line p)"
      by (rule first_line_cases [of p]) auto
    then obtain l0 where sh: "first_line p = l0 @ [CHR 0x0A] \<and> CHR 0x0A \<notin> set l0 \<or> CHR 0x0A \<notin> set (first_line p)"
      by blast
    note cut = cut_line [OF dr len short sh, folded pos_def]
    have "stream_getln n x st0 want = Some (st\<lparr>rdbuf := Some (b1\<lparr>bdata := ?d\<rparr>)\<rparr>,
        Some (takeWhile (\<lambda>c. c \<noteq> CHR 0x00 \<and> c \<noteq> CHR 0x0A) (first_line p)))"
      using assms(2) rb b1(1) False cut(1) by (simp add: stream_getln_def Let_def pos_def)
    moreover have bytes: "buf_bytes (b1\<lparr>bdata := ?d\<rparr>) = buf_bytes b1 \<and> buf_ok (b1\<lparr>bdata := ?d\<rparr>)"
    proof -
      have d1: "bdata b1 = bdata b" using b1(1) by (auto simp: buf_less_def split: if_splits)
      show ?thesis
      proof (cases "bin b = i + 1")
        case True
        then have "bin b1 = 0" using b1(1) by (auto simp: buf_less_def)
        then show ?thesis using b1(2) d1 by (simp add: buf_bytes_def buf_ok_def)
      next
        case more: False
        then have off: "boff b1 = boff b + i + 1" using b1(1) b(3) by (auto simp: buf_less_def split: if_splits)
        have "CHR 0x0A \<in> set (first_line p)"
        proof (rule ccontr)
          assume "CHR 0x0A \<notin> set (first_line p)"
          then have "first_line p = p" by (cases rule: first_line_cases [of p]) auto
          then have "buf_bytes b1 = []" using rest by (metis append_is_Nil_conv append_self_conv)
          then show False using b1(2,3) ok more b(3) by (metis Suc_eq_plus1 Suc_leI buf_bytes_length drop_eq_Nil le_antisym)
        qed
        then have "pos = boff b + i" using cut(2) by simp
        then have "drop (boff b1) ?d = drop (boff b1) (bdata b)" using off by (simp add: drop_update_cancel)
        then show ?thesis using b1(2) d1 by (simp add: buf_bytes_def buf_ok_def)
      qed
    qed
    moreover have "in_inv (st\<lparr>rdbuf := Some (b1\<lparr>bdata := ?d\<rparr>)\<rparr>) (b1\<lparr>bdata := ?d\<rparr>)"
      using b(1) bytes by (simp add: in_inv_def)
    ultimately show ?thesis using False rest ne by (auto simp: pending_def)
  qed
qed

lemma getln_ok:
  assumes i: "in_inv st b" and n: "length (rest (cookie st)) < n" and s: sure
  shows "\<exists>st' l b'. stream_getln n x st want = Some (st', l) \<and> in_inv st' b' \<and>
    (pending st b = [] \<and> l = None \<and> pending st' b' = [] \<or>
     pending st b \<noteq> [] \<and> pending st b = first_line (pending st b) @ pending st' b' \<and>
       l = Some (if want then first_line (pending st b)
         else takeWhile (\<lambda>c. c \<noteq> CHR 0x00 \<and> c \<noteq> CHR 0x0A) (first_line (pending st b))))"
proof -
  from getln_find_ok [OF i n, of x] obtain st1 j where f: "getln_find n x st = Some (st1, j)"
    "case j of None \<Rightarrow> \<not> sure \<or> pending st b = [] \<and> (\<exists>b'. in_inv st1 b' \<and> pending st1 b' = [])
       | Some i \<Rightarrow> line_at (pending st b) st1 i" by blast
  show ?thesis
  proof (cases j)
    case None
    then have "stream_getln n x st want = Some (st1, None)" using f(1) by (simp add: stream_getln_def)
    with None f(2) s show ?thesis by auto
  next
    case (Some k)
    then show ?thesis using line_found [of "pending st b" st1 k n x st want] f by auto
  qed
qed

end

text \<open>Reading a stream to its end, line by line, as the readers of the protocol do.\<close>

fun stream_lines ::
  "nat \<Rightarrow> nat \<Rightarrow> ('c, 'z) lib \<Rightarrow> ('k, 'c, 'z) stream \<Rightarrow> bool \<Rightarrow> (('k, 'c, 'z) stream \<times> string list) option" where
  "stream_lines 0 n x st want = None"
| "stream_lines (Suc m) n x st want =
     (case stream_getln n x st want of
        None \<Rightarrow> None
      | Some (st', None) \<Rightarrow> Some (st', [])
      | Some (st', Some l) \<Rightarrow> map_option (\<lambda>(st'', ls). (st'', l # ls)) (stream_lines m n x st' want))"

lemma first_line_pos: "p \<noteq> [] \<Longrightarrow> first_line p \<noteq> []"
  by (auto simp: first_line_def split: option.splits)

function lines_of :: "string \<Rightarrow> string list" where
  "lines_of p = (if p = [] then [] else first_line p # lines_of (drop (length (first_line p)) p))"
  by auto
termination
  by (relation "measure length") (use first_line_pos in auto)

declare lines_of.simps [simp del]

definition c_line :: "string \<Rightarrow> string" where
  "c_line l = takeWhile (\<lambda>c. c \<noteq> CHR 0x00 \<and> c \<noteq> CHR 0x0A) l"

lemma concat_lines_of: "concat (lines_of p) = p"
proof (induction p rule: lines_of.induct)
  case (1 p)
  have "take (length (first_line p)) p = first_line p"
    by (cases "find_nl p") (simp_all add: first_line_def min_def)
  then show ?case using 1 by (subst lines_of.simps) (auto, metis append_take_drop_id)
qed

definition open_reader :: "'k \<Rightarrow> ('k \<Rightarrow> nat \<Rightarrow> 'k \<times> string option) \<Rightarrow> ('k, 'c, 'z) stream option" where
  "open_reader k rfn = stream_new k (Some rfn) None None"

context sure_reader
begin

lemma is_sure: sure
  using no_error by (simp add: sure_def)

lemma lines_ok:
  "in_inv st b \<Longrightarrow> length (pending st b) < m \<Longrightarrow> m \<le> n \<Longrightarrow>
    \<exists>st'. stream_lines m n x st want =
      Some (st', map (\<lambda>l. if want then l else c_line l) (lines_of (pending st b)))"
proof (induction m arbitrary: st b)
  case (Suc m)
  have n: "length (rest (cookie st)) < n" using Suc.prems by (simp add: pending_def)
  from getln_ok [OF Suc.prems(1) n is_sure, of x want] obtain st' l b' where
    g: "stream_getln n x st want = Some (st', l)" "in_inv st' b'" and
    c: "pending st b = [] \<and> l = None \<and> pending st' b' = [] \<or>
     pending st b \<noteq> [] \<and> pending st b = first_line (pending st b) @ pending st' b' \<and>
       l = Some (if want then first_line (pending st b)
         else takeWhile (\<lambda>c. c \<noteq> CHR 0x00 \<and> c \<noteq> CHR 0x0A) (first_line (pending st b)))" by blast
  show ?case
  proof (cases "pending st b = []")
    case True
    with g c show ?thesis by (simp add: lines_of.simps [of "[]"])
  next
    case False
    with c have eq: "pending st b = first_line (pending st b) @ pending st' b'" by simp
    then have dr: "drop (length (first_line (pending st b))) (pending st b) = pending st' b'"
      by (metis append_eq_conv_conj)
    have len: "length (pending st b) = length (first_line (pending st b)) + length (pending st' b')"
      using arg_cong [OF eq, of length] by simp
    have "first_line (pending st b) \<noteq> []" using first_line_pos [OF False] .
    then have "length (pending st' b') < m" using len Suc.prems(2) by (cases "first_line (pending st b)") auto
    from Suc.IH [OF g(2) this] Suc.prems(3) obtain st'' where
      "stream_lines m n x st' want = Some (st'', map (\<lambda>l. if want then l else c_line l) (lines_of (pending st' b')))"
      by auto
    moreover have "lines_of (pending st b) = first_line (pending st b) # lines_of (pending st' b')"
      using False dr by (subst lines_of.simps) simp
    ultimately show ?thesis using g(1) c False by (simp add: c_line_def)
  qed
qed simp

lemma open_lines_ok:
  fixes x :: "('c, 'z) lib"
  assumes "kok k" and "length (rest k) < n"
  shows "\<exists>st'. Option.bind (open_reader k rfn) (\<lambda>st. stream_lines n n x st want) =
    Some (st', map (\<lambda>l. if want then l else c_line l) (lines_of (rest k)))"
proof -
  obtain st :: "('a, 'c, 'z) stream" where st: "open_reader k rfn = Some st" "in_inv st (buf_new STREAM_BUFSIZ)"
    "pending st (buf_new STREAM_BUFSIZ) = rest k"
    using assms(1) by (simp add: open_reader_def stream_new_def in_inv_def pending_def)
  from lines_ok [OF st(2), of n n x want] assms(2) st show ?thesis by simp
qed

end

definition read_left :: "buf \<Rightarrow> string" where
  "read_left b = take (boff b - bin b) (drop (bin b) (bdata b))"

lemma stream_read_buf_left:
  "\<exists>b' s. stream_read_buf b m = (b', Some s) \<and> length s \<le> m \<and> read_left b = s @ read_left b' \<and>
    (0 < m \<and> s = [] \<longrightarrow> read_left b = [])"
proof -
  let ?a = "boff b - bin b" and ?D = "drop (bin b) (bdata b)"
  define l where "l = min ?a m"
  have r: "stream_read_buf b m = (b\<lparr>bin := bin b + l\<rparr>, Some (take l ?D))"
    by (simp add: stream_read_buf_def Let_def l_def min_def)
  have al: "l + (?a - l) = ?a" by (simp add: l_def)
  have "take ?a ?D = take l ?D @ take (?a - l) (drop l ?D)"
    using take_add [of l "?a - l" ?D] unfolding al .
  then have left: "read_left b = take l ?D @ read_left (b\<lparr>bin := bin b + l\<rparr>)"
    by (simp add: read_left_def add.commute)
  have "0 < m \<Longrightarrow> take l ?D = [] \<Longrightarrow> take ?a ?D = []" by (auto simp: l_def min_def split: if_splits)
  with r left show ?thesis by (auto simp: l_def read_left_def)
qed

interpretation bufr: sure_reader stream_read_buf read_left "\<lambda>_. True"
proof
  fix k k' :: buf and m s
  assume "0 < m" "stream_read_buf k m = (k', Some s)"
  then show "True \<and> length s \<le> m \<and> read_left k = s @ read_left k' \<and> (s = [] \<longrightarrow> read_left k = [])"
    using stream_read_buf_left [of k m] by auto
next
  fix k k' :: buf and m
  assume "stream_read_buf k m = (k', None)"
  then show "True \<and> read_left k' = read_left k" using stream_read_buf_left [of k m] by auto
next
  fix k :: buf and m :: nat
  show "snd (stream_read_buf k m) \<noteq> None" using stream_read_buf_left [of k m] by auto
qed

section \<open>What a stream promises\<close>

text \<open>A library that digests by concatenation, an instance of what the filters rely on.\<close>

definition plain_lib :: "(string, unit) lib" where
  "plain_lib = \<lparr>MD5_Init = [], MD5_Update = (\<lambda>c s. c @ s), MD5_End = (\<lambda>c. c), inflateInit = (), deflateInit = (),
     inflate = (\<lambda>z s m. (z, min m (length s), take m s, Z_OK)),
     deflate = (\<lambda>z fl s m. (z, min m (length s), take m s, if fl = Z_FINISH then Z_STREAM_END else Z_OK))\<rparr>"

text \<open>
  Claim C10. Reading a stream line by line returns the lines of what its read function has to
  give, whatever pieces the function cuts it into and wherever the buffer has to be moved or
  grown: the loop of \<open>stream_getln\<close> ends with fuel for the length of the data, no assertion
  fails, and with a NULL length each line is the C string up to its newline or first NUL.
\<close>

theorem stream_getln_lines:
  assumes "sure_reader rfn rest kok" and "kok k" and "length (rest k) < n"
  shows "\<exists>st'. Option.bind (open_reader k rfn) (\<lambda>st. stream_lines n n x st want) =
    Some (st', map (\<lambda>l. if want then l else c_line l) (lines_of (rest k)))"
  using assms by (rule sure_reader.open_lines_ok)

theorem stream_getln_lines_witness:
  "\<exists>st'. Option.bind (open_reader \<lparr>bdata = ''OK 17'' @ CHR 0x0A # ''ab'', bsize = 8, bin = 0, boff = 8\<rparr> stream_read_buf)
      (\<lambda>st. stream_lines 20 20 plain_lib st False) = Some (st', [''OK 17'', ''ab''])"
  using stream_getln_lines [of stream_read_buf read_left "\<lambda>_. True"
      "\<lparr>bdata = ''OK 17'' @ CHR 0x0A # ''ab'', bsize = 8, bin = 0, boff = 8\<rparr>" 20 plain_lib False]
    bufr.sure_reader_axioms
  by (simp add: read_left_def lines_of.simps first_line_def c_line_def sure_reader_def bufr.reader_axioms)

text \<open>A write function that always fails, as on a full disk, and a closing function that succeeds.\<close>

lemma close_hides_failed_flush:
  "map_option snd (Option.bind (open_writer 9 plain_lib [] (\<lambda>k s. (k, WFail)) (Some (\<lambda>k. (k, 0))) STREAM_FILTER_NULL)
     (\<lambda>st. stream_puts 9 plain_lib st [(False, ''lost'')])) = Some 0"
  by (simp add: open_writer_def stream_new_def stream_filter_start_def stream_filter_fini_def stream_filter_init_def
    stream_write_def stream_close_def stream_flush_int_def buf_new_def buf_avail_def buf_more_def buf_copyin_def STREAM_BUFSIZ_def
    plain_lib_def Let_def eval_nat_numeral)

text \<open>
  Claim C12. A stream opened for writing, with no filter or with the MD5 or MD5RCS filter,
  always returns from a sequence of \<open>stream_write\<close> and \<open>stream_printf\<close> calls that ends at the first error or with
  \<open>stream_close\<close>. If its write function never fails, it has delivered exactly
  the bytes of the calls in order before the stream is closed and hands back the digest of
  exactly those bytes, independent of where the buffer was flushed, how the write function cuts
  the data and how often it is interrupted; the result is the one of the close function, 0 if
  there is none. If the write function can fail and does, what went out is a first part of the
  bytes; the result is -1 when a call before the close failed or there is no close function, and
  otherwise it is what the close function returns, which hides the failed flush (as the comment in
  \<open>stream_close\<close> admits; \<open>close_hides_failed_flush\<close> has such a run).
\<close>

theorem stream_session:
  assumes "writer wfn sent tries kok" and "md5_appends x" and "f \<noteq> STREAM_FILTER_ZLIB" and "kok k"
    and "length (concat (map snd ps)) + tries k + 2 < n"
  shows "\<exists>st' r k1. Option.bind (open_writer n x k wfn cfn f) (\<lambda>st. stream_puts n x st ps) = Some (st', r) \<and> kok k1 \<and>
     ((cookie st', r) = close_call cfn k1 \<and> sent k1 = sent k @ concat (map snd ps) \<and>
        (f = STREAM_FILTER_NULL \<or> digest st' = Some (filter_digest x f (concat (map snd ps)))) \<or>
      write_can_fail wfn kok \<and> (\<exists>t u. concat (map snd ps) = t @ u \<and> sent k1 = sent k @ t) \<and>
        ((cookie st', r) = (k1, -1) \<or> (\<exists>c. cfn = Some c \<and> (cookie st', r) = c k1)))"
  using assms by (rule writer.session_ok)

theorem stream_session_witness:
  "\<exists>st'. Option.bind (open_writer 50 plain_lib (buf_new 3) stream_append_buf (Some stream_close_buf) STREAM_FILTER_MD5RCS)
      (\<lambda>st. stream_puts 50 plain_lib st [(True, ''head  1.1;''), (False, CHR 0x0A # ''x'')]) = Some (st', 0) \<and>
     appended (cookie st') = ''head  1.1;'' @ CHR 0x0A # ''x'' \<and> digest st' = Some ''head 1.1;x''"
  using stream_session [of stream_append_buf appended "\<lambda>_. 0" append_ok plain_lib STREAM_FILTER_MD5RCS "buf_new 3"
      "[(True, ''head  1.1;''), (False, CHR 0x0A # ''x'')]" 50 "Some stream_close_buf"]
    bufw.writer_axioms bufw_never_fails
  by (simp add: md5_appends_def plain_lib_def append_ok_def buf_new_def appended_def filter_digest_def md5_start_def
      md5rcs_step_def md5_feed_def IS_WS_def IS_SPECIAL_def stream_close_buf_def) blast

text \<open>
  Claim C33. The state machine of the MD5RCS filter terminates and digests a text the same way
  whether it gets it in one flush or cut in two anywhere: white space outside RCS strings is
  normalised across the cut.
\<close>

theorem md5rcs_split:
  assumes "md5_appends x"
  shows "md5rcs_loop x (md5rcs_loop x mf a) b = md5rcs_loop x mf (a @ b)"
  by (simp add: md5rcs_loop_steps [OF assms])

theorem md5rcs_split_witness:
  "md5rcs_loop plain_lib (md5rcs_loop plain_lib (md5_start plain_lib) ''log @a '') '' b@  ;''
     = md5rcs_loop plain_lib (md5_start plain_lib) ''log @a  b@  ;''"
  using md5rcs_split [of plain_lib "md5_start plain_lib" "''log @a ''" "'' b@  ;''"]
  by (simp add: md5_appends_def plain_lib_def)

end
