(* ===== verification/Ringbuf.thy ===== *)
theory Ringbuf
  imports Prelude
begin

text \<open>
  The circular buffers of \<open>mux.c\<close> and the FIFO queue they implement. \<open>data\<close> has
  \<open>size + 1\<close> cells, so that \<open>in = out\<close> means empty. A failed assertion is \<open>None\<close>. The
  locale \<open>byte_fifo\<close> is the interface the channels rely on, with two clients of the multiplexer
  in mind: the sender, which looks at the front before it drops it, and the receiver, which
  fills the free space before it announces it.
\<close>

record cbuf =
  cdata :: string
  csize :: nat
  cin :: nat
  cout :: nat

definition cbuf_new :: "nat \<Rightarrow> cbuf" where
  "cbuf_new n = \<lparr>cdata = replicate (n + 1) (CHR 0x00), csize = n, cin = 0, cout = 0\<rparr>"

definition cbuf_count :: "cbuf \<Rightarrow> nat" where
  "cbuf_count b = (if cin b \<ge> cout b then cin b - cout b else csize b + 1 + cin b - cout b)"

definition cbuf_avail :: "cbuf \<Rightarrow> nat" where
  "cbuf_avail b = (if cout b > cin b then cout b - cin b - 1 else csize b + cout b - cin b)"

text \<open>\<open>memcpy\<close> into the array, and the wrap of an index.\<close>

definition memput :: "string \<Rightarrow> nat \<Rightarrow> string \<Rightarrow> string" where
  "memput d p s = take p d @ s @ drop (p + length s) d"

definition wrap :: "cbuf \<Rightarrow> nat \<Rightarrow> nat" where
  "wrap b i = (if i > csize b then i - (csize b + 1) else i)"

text \<open>Storing bytes from \<open>in\<close> on, in one or two pieces, without moving \<open>in\<close>.\<close>

definition cbuf_store :: "cbuf \<Rightarrow> string \<Rightarrow> cbuf" where
  "cbuf_store b s =
     (let len = csize b + 1 - cin b in
      b\<lparr>cdata := (if len < length s then memput (memput (cdata b) (cin b) (take len s)) 0 (drop len s)
                 else memput (cdata b) (cin b) s)\<rparr>)"

definition cbuf_advance :: "cbuf \<Rightarrow> nat \<Rightarrow> cbuf" where
  "cbuf_advance b n = b\<lparr>cin := wrap b (cin b + n)\<rparr>"

definition cbuf_put :: "cbuf \<Rightarrow> string \<Rightarrow> cbuf option" where
  "cbuf_put b s =
     (if s = [] \<or> cbuf_avail b < length s then None
      else Some (cbuf_advance (cbuf_store b s) (length s)))"

text \<open>The bytes of the front, in one or two pieces, and dropping them.\<close>

definition cbuf_peek :: "cbuf \<Rightarrow> nat \<Rightarrow> string" where
  "cbuf_peek b n =
     (let len = csize b + 1 - cout b in
      if len < n then take len (drop (cout b) (cdata b)) @ take (n - len) (cdata b)
      else take n (drop (cout b) (cdata b)))"

definition cbuf_drop :: "cbuf \<Rightarrow> nat \<Rightarrow> cbuf" where
  "cbuf_drop b n = b\<lparr>cout := wrap b (cout b + n)\<rparr>"

definition cbuf_get :: "cbuf \<Rightarrow> nat \<Rightarrow> (string \<times> cbuf) option" where
  "cbuf_get b n =
     (if n = 0 \<or> cbuf_count b < n then None else Some (cbuf_peek b n, cbuf_drop b n))"

section \<open>The queue\<close>

definition cbuf_ok :: "cbuf \<Rightarrow> bool" where
  "cbuf_ok b \<longleftrightarrow> length (cdata b) = csize b + 1 \<and> cin b \<le> csize b \<and> cout b \<le> csize b"

definition cbuf_list :: "cbuf \<Rightarrow> string" where
  "cbuf_list b =
     (if cin b \<ge> cout b then take (cin b - cout b) (drop (cout b) (cdata b))
      else drop (cout b) (cdata b) @ take (cin b) (cdata b))"

lemma length_memput [simp]: "p + length s \<le> length d \<Longrightarrow> length (memput d p s) = length d"
  by (simp add: memput_def)

lemma cbuf_count_list: "cbuf_ok b \<Longrightarrow> cbuf_count b = length (cbuf_list b)"
  by (auto simp: cbuf_ok_def cbuf_count_def cbuf_list_def)

lemma cbuf_avail_list: "cbuf_ok b \<Longrightarrow> cbuf_avail b = csize b - length (cbuf_list b)"
  by (auto simp: cbuf_ok_def cbuf_avail_def cbuf_list_def)

lemma cbuf_list_length: "cbuf_ok b \<Longrightarrow> length (cbuf_list b) \<le> csize b"
  by (auto simp: cbuf_ok_def cbuf_list_def)

lemma cbuf_new_ok [simp]: "cbuf_ok (cbuf_new n)" "cbuf_list (cbuf_new n) = []" "csize (cbuf_new n) = n"
  by (simp_all add: cbuf_new_def cbuf_ok_def cbuf_list_def)

text \<open>The array read as an infinite ring: cell \<open>i\<close> from \<open>out\<close> on.\<close>

definition cell :: "cbuf \<Rightarrow> nat \<Rightarrow> char" where
  "cell b i = cdata b ! wrap b i"

lemma cbuf_list_nth:
  "cbuf_ok b \<Longrightarrow> i < length (cbuf_list b) \<Longrightarrow> cbuf_list b ! i = cell b (cout b + i)"
  by (auto simp: cbuf_ok_def cbuf_list_def cell_def wrap_def nth_append add.commute split: if_splits)

lemma cbuf_peek_list:
  "cbuf_ok b \<Longrightarrow> n \<le> length (cbuf_list b) \<Longrightarrow> cbuf_peek b n = take n (cbuf_list b)"
proof (rule nth_equalityI)
  assume ok: "cbuf_ok b" and n: "n \<le> length (cbuf_list b)"
  then have le: "n \<le> csize b" using cbuf_list_length le_trans by blast
  show len: "length (cbuf_peek b n) = length (take n (cbuf_list b))"
    using ok n le by (auto simp: cbuf_ok_def cbuf_peek_def Let_def)
  fix i
  assume "i < length (cbuf_peek b n)"
  then have i: "i < n" using len n by simp
  have "cbuf_peek b n ! i = cell b (cout b + i)"
    using ok i le by (auto simp: cbuf_ok_def cbuf_peek_def cell_def wrap_def nth_append Let_def intro!: arg_cong [of _ _ "(!) _"])
  then show "cbuf_peek b n ! i = take n (cbuf_list b) ! i"
    using cbuf_list_nth [OF ok, of i] i n by simp
qed

lemma cbuf_drop_ok:
  "cbuf_ok b \<Longrightarrow> n \<le> length (cbuf_list b) \<Longrightarrow>
    cbuf_ok (cbuf_drop b n) \<and> cbuf_list (cbuf_drop b n) = drop n (cbuf_list b) \<and> csize (cbuf_drop b n) = csize b"
  by (auto simp: cbuf_ok_def cbuf_drop_def cbuf_list_def wrap_def drop_take add.commute)

lemma memput_read:
  assumes "p + length s \<le> length d"
  shows "i \<le> p \<Longrightarrow> take i (memput d p s) = take i d"
    and "p + length s \<le> i \<Longrightarrow> drop i (memput d p s) = drop i d"
    and "take (p + length s) (memput d p s) = take p d @ s"
    and "i \<le> p \<Longrightarrow> drop i (memput d p s) = drop i (take p d) @ s @ drop (p + length s) d"
  using assms by (simp_all add: memput_def)

lemma cbuf_store_ok:
  assumes ok: "cbuf_ok b" and fit: "length s \<le> cbuf_avail b"
  shows "cbuf_ok (cbuf_store b s)" and "cbuf_list (cbuf_store b s) = cbuf_list b"
    and "cbuf_ok (cbuf_advance (cbuf_store b s) (length s))"
    and "cbuf_list (cbuf_advance (cbuf_store b s) (length s)) = cbuf_list b @ s"
proof -
  let ?d = "cdata b" and ?i = "cin b" and ?o = "cout b" and ?len = "csize b + 1 - cin b"
  have len: "length ?d = csize b + 1" and le: "?i \<le> csize b" "?o \<le> csize b"
    using ok by (simp_all add: cbuf_ok_def)
  have all: "cbuf_ok (cbuf_store b s) \<and> cbuf_list (cbuf_store b s) = cbuf_list b \<and>
    cbuf_ok (cbuf_advance (cbuf_store b s) (length s)) \<and>
    cbuf_list (cbuf_advance (cbuf_store b s) (length s)) = cbuf_list b @ s"
  proof (cases "?len < length s")
    case False
    then have f: "?i + length s \<le> length ?d" using len le by simp
    have d: "cdata (cbuf_store b s) = memput ?d ?i s" "cin (cbuf_store b s) = ?i"
      "cout (cbuf_store b s) = ?o" "csize (cbuf_store b s) = csize b"
      using False by (simp_all add: cbuf_store_def Let_def)
    note r = memput_read [OF f]
    show ?thesis
    proof (cases "?o > ?i")
      case True
      then have "?i + length s < ?o" "?i + length s \<le> csize b" using fit le by (auto simp: cbuf_avail_def)
      with True show ?thesis using len le f d r
        by (auto simp: cbuf_ok_def cbuf_list_def cbuf_advance_def wrap_def)
    next
      case o: False
      have l1: "take (?i - ?o) (drop ?o (memput ?d ?i s)) = take (?i - ?o) (drop ?o ?d)"
        using o r(1) [of ?i] by (simp add: take_drop)
      have l2: "take (?i + length s - ?o) (drop ?o (memput ?d ?i s)) = take (?i - ?o) (drop ?o ?d) @ s"
        using o r(3) f by (simp add: take_drop)
      have z: "length s = 0" if "?o = 0" "?i + length s = csize b + 1"
        using that fit le(1) by (simp add: cbuf_avail_def)
      show ?thesis
      proof (cases "?i + length s > csize b")
        case True
        then have e: "?i + length s = csize b + 1" using f len by simp
        then have "0 < ?o" using z le(1) by (cases "?o = 0") auto
        moreover have "drop ?o (memput ?d ?i s) = take (?i - ?o) (drop ?o ?d) @ s"
          using l2 e len o f by (simp add: take_drop)
        ultimately show ?thesis using len le f d l1 e o
          by (auto simp: cbuf_ok_def cbuf_list_def cbuf_advance_def wrap_def)
      next
        case False
        with o show ?thesis using len le f d l1 l2
          by (auto simp: cbuf_ok_def cbuf_list_def cbuf_advance_def wrap_def)
      qed
    qed
  next
    case True
    have o: "?o \<le> ?i" using True fit le by (auto simp: cbuf_avail_def split: if_splits)
    have s: "length s < csize b + 1 + ?o - ?i" using fit le o by (auto simp: cbuf_avail_def split: if_splits)
    let ?a = "take ?len s" and ?b = "drop ?len s"
    have f1: "?i + length ?a \<le> length ?d" using True len le by simp
    have f2: "0 + length ?b \<le> length (memput ?d ?i ?a)" using s le len f1 o by simp
    have lb: "length ?b < ?o" "length ?b = length s - ?len" using s True le by auto
    have d: "cdata (cbuf_store b s) = memput (memput ?d ?i ?a) 0 ?b" "cin (cbuf_store b s) = ?i"
      "cout (cbuf_store b s) = ?o" "csize (cbuf_store b s) = csize b"
      using True by (simp_all add: cbuf_store_def Let_def)
    let ?d' = "memput (memput ?d ?i ?a) 0 ?b"
    have dr: "drop ?o ?d' = take (?i - ?o) (drop ?o ?d) @ ?a"
    proof -
      have "drop ?o ?d' = drop ?o (memput ?d ?i ?a)" using memput_read(2) [OF f2, of ?o] lb by simp
      also have "\<dots> = drop ?o (take ?i ?d) @ ?a @ drop (?i + length ?a) ?d"
        using o by (rule memput_read(4) [OF f1])
      also have "drop (?i + length ?a) ?d = []" using len True le by simp
      finally show ?thesis using o by (simp add: take_drop)
    qed
    have tk: "take (length ?b) ?d' = ?b" using memput_read(3) [OF f2] by simp
    have lst: "take (?i - ?o) (drop ?o ?d') = take (?i - ?o) (drop ?o ?d)"
      unfolding dr using len le o by (auto simp: min_def)
    have w: "?i + length s - (csize b + 1) = length ?b" using True le by simp
    have c: "cbuf_ok (cbuf_store b s)" using d f1 f2 len le by (simp add: cbuf_ok_def)
    moreover have "cbuf_ok (cbuf_advance (cbuf_store b s) (length s))"
      using c lb le True w d by (auto simp: cbuf_ok_def cbuf_advance_def wrap_def)
    moreover have "cbuf_list (cbuf_store b s) = cbuf_list b" using d lst o by (simp add: cbuf_list_def)
    moreover have "cbuf_list (cbuf_advance (cbuf_store b s) (length s)) = cbuf_list b @ s"
    proof -
      have "cin (cbuf_advance (cbuf_store b s) (length s)) = length ?b"
        using w True le d by (auto simp: cbuf_advance_def wrap_def)
      then have "cbuf_list (cbuf_advance (cbuf_store b s) (length s)) = drop ?o ?d' @ take (length ?b) ?d'"
        using lb(1) d by (simp add: cbuf_list_def cbuf_advance_def)
      also have "\<dots> = take (?i - ?o) (drop ?o ?d) @ ?a @ ?b" by (simp only: dr tk append.assoc)
      finally show ?thesis using o by (simp add: cbuf_list_def)
    qed
    ultimately show ?thesis by simp
  qed
  then show "cbuf_ok (cbuf_store b s)" "cbuf_list (cbuf_store b s) = cbuf_list b"
    "cbuf_ok (cbuf_advance (cbuf_store b s) (length s))"
    "cbuf_list (cbuf_advance (cbuf_store b s) (length s)) = cbuf_list b @ s" by blast+
qed

section \<open>The interface\<close>

text \<open>
  A bounded byte queue as the channels use it. \<open>store\<close> and \<open>advance\<close> are the two halves of a
  put, \<open>peek\<close> and \<open>drop\<close> those of a get.
\<close>

locale byte_fifo =
  fixes contents :: "'q \<Rightarrow> string" and cap :: "'q \<Rightarrow> nat" and qok :: "'q \<Rightarrow> bool"
    and count :: "'q \<Rightarrow> nat" and avail :: "'q \<Rightarrow> nat"
    and put :: "'q \<Rightarrow> string \<Rightarrow> 'q option" and get :: "'q \<Rightarrow> nat \<Rightarrow> (string \<times> 'q) option"
    and store :: "'q \<Rightarrow> string \<Rightarrow> 'q" and advance :: "'q \<Rightarrow> nat \<Rightarrow> 'q"
    and peek :: "'q \<Rightarrow> nat \<Rightarrow> string" and discard :: "'q \<Rightarrow> nat \<Rightarrow> 'q"
  assumes count: "qok q \<Longrightarrow> count q = length (contents q)"
    and avail: "qok q \<Longrightarrow> length (contents q) + avail q = cap q"
    and store: "qok q \<Longrightarrow> length s \<le> avail q \<Longrightarrow> qok (advance (store q s) (length s)) \<and>
        contents (advance (store q s) (length s)) = contents q @ s \<and> cap (advance (store q s) (length s)) = cap q"
    and put: "put q s = (if s = [] \<or> avail q < length s then None else Some (advance (store q s) (length s)))"
    and peek: "qok q \<Longrightarrow> n \<le> length (contents q) \<Longrightarrow> peek q n = take n (contents q)"
    and discard: "qok q \<Longrightarrow> n \<le> length (contents q) \<Longrightarrow> qok (discard q n) \<and>
        contents (discard q n) = drop n (contents q) \<and> cap (discard q n) = cap q"
    and get: "get q n = (if n = 0 \<or> count q < n then None else Some (peek q n, discard q n))"
begin

lemma put_ok:
  "qok q \<Longrightarrow> s \<noteq> [] \<Longrightarrow> length s \<le> avail q \<Longrightarrow>
    \<exists>q'. put q s = Some q' \<and> qok q' \<and> contents q' = contents q @ s \<and> cap q' = cap q"
  using store [of q s] by (simp add: put)

lemma get_ok:
  "qok q \<Longrightarrow> 0 < n \<Longrightarrow> n \<le> count q \<Longrightarrow>
    \<exists>q'. get q n = Some (take n (contents q), q') \<and> qok q' \<and> contents q' = drop n (contents q) \<and> cap q' = cap q"
  using peek [of q n] discard [of q n] count [of q] by (simp add: get)

text \<open>
  The front the sender looked at stays the front while bytes are put behind it, and the space
  the receiver found stays free while bytes are taken: the channel lock need not be held
  during the transfer.
\<close>

lemma peek_stable:
  assumes "qok q" and "n \<le> length (contents q)" and "put q s = Some q'"
  shows "peek q' n = peek q n" and "n \<le> length (contents q')"
  using assms store [of q s] peek [of q' n] peek [of q n] by (auto simp: put split: if_splits)

lemma avail_grows:
  assumes "qok q" and "get q n = Some (s, q')"
  shows "avail q \<le> avail q'"
proof -
  have n: "0 < n" "n \<le> count q" using assms(2) by (auto simp: get split: if_splits)
  from get_ok [OF assms(1) n] assms(2) have q': "qok q'" "contents q' = drop n (contents q)" "cap q' = cap q"
    by auto
  then show ?thesis using avail [OF assms(1)] avail [OF q'(1)] by simp
qed

end

lemma cbuf_store_frame: "csize (cbuf_advance (cbuf_store b s) n) = csize b"
  by (simp add: cbuf_advance_def cbuf_store_def Let_def)

interpretation ring: byte_fifo cbuf_list csize cbuf_ok cbuf_count cbuf_avail cbuf_put cbuf_get
  cbuf_store cbuf_advance cbuf_peek cbuf_drop
proof
  fix q :: cbuf
  assume "cbuf_ok q"
  then show "cbuf_count q = length (cbuf_list q)" by (rule cbuf_count_list)
next
  fix q :: cbuf
  assume "cbuf_ok q"
  then show "length (cbuf_list q) + cbuf_avail q = csize q"
    using cbuf_avail_list [of q] cbuf_list_length [of q] by simp
next
  fix q :: cbuf and s :: string
  assume "cbuf_ok q" "length s \<le> cbuf_avail q"
  then show "cbuf_ok (cbuf_advance (cbuf_store q s) (length s)) \<and>
     cbuf_list (cbuf_advance (cbuf_store q s) (length s)) = cbuf_list q @ s \<and>
     csize (cbuf_advance (cbuf_store q s) (length s)) = csize q"
    using cbuf_store_ok [of q s] cbuf_store_frame by simp
next
  fix q :: cbuf and n
  assume "cbuf_ok q" "n \<le> length (cbuf_list q)"
  then show "cbuf_peek q n = take n (cbuf_list q)" by (rule cbuf_peek_list)
next
  fix q :: cbuf and n
  assume "cbuf_ok q" "n \<le> length (cbuf_list q)"
  then show "cbuf_ok (cbuf_drop q n) \<and> cbuf_list (cbuf_drop q n) = drop n (cbuf_list q) \<and> csize (cbuf_drop q n) = csize q"
    by (rule cbuf_drop_ok)
qed (auto simp: cbuf_put_def cbuf_get_def)

section \<open>Refinement of the abstract queue\<close>

datatype fifo_op = Put string | Get nat

text \<open>The abstract queue of capacity \<open>c\<close>; the bytes got so far come back in a list.\<close>

fun queue_run :: "nat \<Rightarrow> string \<Rightarrow> fifo_op list \<Rightarrow> (string list \<times> string) option" where
  "queue_run c q [] = Some ([], q)"
| "queue_run c q (Put s # ops) =
     (if s = [] \<or> c < length q + length s then None else queue_run c (q @ s) ops)"
| "queue_run c q (Get n # ops) =
     (if n = 0 \<or> length q < n then None
      else map_option (\<lambda>(got, q'). (take n q # got, q')) (queue_run c (drop n q) ops))"

fun cbuf_run :: "cbuf \<Rightarrow> fifo_op list \<Rightarrow> (string list \<times> cbuf) option" where
  "cbuf_run b [] = Some ([], b)"
| "cbuf_run b (Put s # ops) = (case cbuf_put b s of None \<Rightarrow> None | Some b' \<Rightarrow> cbuf_run b' ops)"
| "cbuf_run b (Get n # ops) =
     (case cbuf_get b n of
        None \<Rightarrow> None
      | Some (s, b') \<Rightarrow> map_option (\<lambda>(got, b''). (s # got, b'')) (cbuf_run b' ops))"

lemma cbuf_run_refines:
  "cbuf_ok b \<Longrightarrow> map_option (\<lambda>(got, b'). (got, cbuf_list b')) (cbuf_run b ops) = queue_run (csize b) (cbuf_list b) ops"
proof (induction ops arbitrary: b)
  case (Cons op ops)
  note len = ring.avail [OF Cons.prems] and cnt = ring.count [OF Cons.prems]
  show ?case
  proof (cases op)
    case (Put s)
    show ?thesis
    proof (cases "s = [] \<or> cbuf_avail b < length s")
      case True
      then show ?thesis using Put len by (auto simp: ring.put)
    next
      case False
      then obtain b' where "cbuf_put b s = Some b'" "cbuf_ok b'" "cbuf_list b' = cbuf_list b @ s" "csize b' = csize b"
        using ring.put_ok [OF Cons.prems, of s] by auto
      then show ?thesis using Put Cons.IH [of b'] False len by simp
    qed
  next
    case (Get n)
    show ?thesis
    proof (cases "n = 0 \<or> cbuf_count b < n")
      case True
      then show ?thesis using Get cnt by (auto simp: ring.get)
    next
      case False
      then obtain b' where "cbuf_get b n = Some (take n (cbuf_list b), b')" "cbuf_ok b'"
        "cbuf_list b' = drop n (cbuf_list b)" "csize b' = csize b"
        using ring.get_ok [OF Cons.prems, of n] by auto
      then show ?thesis using Get Cons.IH [of b', symmetric] False cnt
        by (simp add: option.map_comp comp_def case_prod_beta)
    qed
  qed
qed simp

text \<open>
  Claim C16. The circular buffer is a FIFO queue of the given capacity: any sequence of
  \<open>buf_put\<close> and \<open>buf_get\<close> calls on it, across any number of wraps, returns what the abstract
  queue returns and holds what it holds, and an assertion fails exactly when the abstract queue
  would overflow, underflow or be given no bytes.
\<close>

theorem cbuf_is_queue:
  "map_option (\<lambda>(got, b). (got, cbuf_list b)) (cbuf_run (cbuf_new n) ops) = queue_run n [] ops"
  using cbuf_run_refines [of "cbuf_new n" ops] by simp

end
