(* ===== verification/Mux.thy ===== *)
theory Mux
  imports Ringbuf Stream "HOL-Library.Word"
begin

unbundle bit_operations_syntax

text \<open>
  The channel multiplexer of \<open>mux.c\<close>: packet headers and their bytes, the channels and the
  multiplexer as records, every operation of the application on a channel, the scan of the
  sender and its two critical sections, the handlers of the receiver, shutdown and the socket
  helpers. A call that would wait on a condition variable is \<open>Blocked\<close>; NULL dereferences and
  failed assertions are \<open>None\<close>. A critical section is one operation, so the locks do not show, but
  for the one a protocol error leaves taken; \<open>mux_shutdown\<close> returns the conditions it broadcasts,
  the signals of the other operations are left out.
\<close>

section \<open>Packet headers\<close>

datatype mux_header =
    MH_STARTUPREQ "16 word"
  | MH_STARTUPREP "16 word"
  | MH_CONNECT "8 word" "16 word" "32 word"
  | MH_ACCEPT "8 word" "16 word" "32 word"
  | MH_RESET "8 word"
  | MH_DATA "8 word" "16 word"
  | MH_WINDOW "8 word" "32 word"
  | MH_CLOSE "8 word"
  | MH_other char

text \<open>\<open>htons\<close> and \<open>htonl\<close>: most significant byte first.\<close>

definition u8 :: "8 word \<Rightarrow> string" where
  "u8 w = [char_of (unat w)]"

definition be16 :: "16 word \<Rightarrow> string" where
  "be16 w = [char_of (unat w div 256), char_of (unat w mod 256)]"

definition be32 :: "32 word \<Rightarrow> string" where
  "be32 w = [char_of (unat w div 16777216), char_of (unat w div 65536 mod 256),
             char_of (unat w div 256 mod 256), char_of (unat w mod 256)]"

fun mh_bytes :: "mux_header \<Rightarrow> string" where
  "mh_bytes (MH_STARTUPREQ v) = char_of (0 :: nat) # be16 v"
| "mh_bytes (MH_STARTUPREP v) = char_of (1 :: nat) # be16 v"
| "mh_bytes (MH_CONNECT i mss win) = char_of (2 :: nat) # u8 i @ be16 mss @ be32 win"
| "mh_bytes (MH_ACCEPT i mss win) = char_of (3 :: nat) # u8 i @ be16 mss @ be32 win"
| "mh_bytes (MH_RESET i) = char_of (4 :: nat) # u8 i"
| "mh_bytes (MH_DATA i len) = char_of (5 :: nat) # u8 i @ be16 len"
| "mh_bytes (MH_WINDOW i win) = char_of (6 :: nat) # u8 i @ be32 win"
| "mh_bytes (MH_CLOSE i) = char_of (7 :: nat) # u8 i"
| "mh_bytes (MH_other t) = [t]"

definition get8 :: "char \<Rightarrow> 8 word" where
  "get8 a = of_nat (of_char a)"

definition get16 :: "char \<Rightarrow> char \<Rightarrow> 16 word" where
  "get16 a b = of_nat (of_char a * 256 + of_char b)"

definition get32 :: "char \<Rightarrow> char \<Rightarrow> char \<Rightarrow> char \<Rightarrow> 32 word" where
  "get32 a b c d = of_nat (((of_char a * 256 + of_char b) * 256 + of_char c) * 256 + of_char d)"

text \<open>
  The header as \<open>receiver_loop\<close> reads it: the type byte, then the rest for the types it
  knows. \<open>None\<close> is the end of the input in the middle of a header.
\<close>

fun mh_read :: "string \<Rightarrow> (mux_header \<times> string) option" where
  "mh_read [] = None"
| "mh_read (t # s) =
     (let n = of_char t :: nat in
      if n = 2 \<or> n = 3 then
        (case s of
           i # m1 # m2 # w1 # w2 # w3 # w4 # r \<Rightarrow>
             Some ((if n = 2 then MH_CONNECT else MH_ACCEPT) (get8 i) (get16 m1 m2) (get32 w1 w2 w3 w4), r)
         | _ \<Rightarrow> None)
      else if n = 4 then (case s of i # r \<Rightarrow> Some (MH_RESET (get8 i), r) | _ \<Rightarrow> None)
      else if n = 5 then (case s of i # l1 # l2 # r \<Rightarrow> Some (MH_DATA (get8 i) (get16 l1 l2), r) | _ \<Rightarrow> None)
      else if n = 6 then
        (case s of i # w1 # w2 # w3 # w4 # r \<Rightarrow> Some (MH_WINDOW (get8 i) (get32 w1 w2 w3 w4), r) | _ \<Rightarrow> None)
      else if n = 7 then (case s of i # r \<Rightarrow> Some (MH_CLOSE (get8 i), r) | _ \<Rightarrow> None)
      else Some (MH_other t, s))"

definition wire_header :: "mux_header \<Rightarrow> bool" where
  "wire_header h \<longleftrightarrow> (case h of MH_STARTUPREQ _ \<Rightarrow> False | MH_STARTUPREP _ \<Rightarrow> False | MH_other _ \<Rightarrow> False | _ \<Rightarrow> True)"

lemma get8_u8 [simp]: "get8 (char_of (unat w)) = w"
proof -
  have "unat w < 256" using unsigned_less [of w, where ?'a = nat] by simp
  then show ?thesis by (simp add: get8_def)
qed

lemma unat_16: "unat (w :: 16 word) < 65536"
  using unsigned_less [of w, where ?'a = nat] by simp

lemma unat_32: "unat (w :: 32 word) < 4294967296"
  using unsigned_less [of w, where ?'a = nat] by simp

lemma get16_be16 [simp]: "get16 (char_of (unat w div 256)) (char_of (unat w)) = w"
proof -
  have "unat w div 256 < 256" using unat_16 [of w] by (simp add: less_mult_imp_div_less)
  then show ?thesis by (simp add: get16_def)
qed

lemma get32_be32 [simp]:
  "get32 (char_of (unat w div 16777216)) (char_of (unat w div 65536))
     (char_of (unat w div 256)) (char_of (unat w)) = w"
proof -
  let ?n = "unat w"
  have h: "?n div 16777216 < 256" using unat_32 [of w] by (simp add: less_mult_imp_div_less)
  have d: "?n div 65536 = (?n div 256) div 256" "?n div 16777216 = ((?n div 256) div 256) div 256"
    by (simp_all flip: div_mult2_eq)
  have "(((?n div 16777216) * 256 + ?n div 65536 mod 256) * 256 + ?n div 256 mod 256) * 256 + ?n mod 256 = ?n"
    unfolding d by (simp only: div_mult_mod_eq)
  with h show ?thesis by (simp add: get32_def)
qed

lemma mh_read_bytes: "wire_header h \<Longrightarrow> mh_read (mh_bytes h @ s) = Some (h, s)"
  by (cases h) (simp_all add: wire_header_def u8_def be16_def be32_def)

section \<open>Channels\<close>

datatype chan_state = CS_UNUSED | CS_LISTENING | CS_CONNECTING | CS_ESTABLISHED | CS_RDCLOSED | CS_WRCLOSED | CS_CLOSED

type_synonym cflags = "32 word"

abbreviation CF_CONNECT :: cflags where "CF_CONNECT \<equiv> 1"
abbreviation CF_ACCEPT :: cflags where "CF_ACCEPT \<equiv> 2"
abbreviation CF_RESET :: cflags where "CF_RESET \<equiv> 4"
abbreviation CF_WINDOW :: cflags where "CF_WINDOW \<equiv> 8"
abbreviation CF_DATA :: cflags where "CF_DATA \<equiv> 16"
abbreviation CF_CLOSE :: cflags where "CF_CLOSE \<equiv> 32"

definition MUX_MAXCHAN :: nat where "MUX_MAXCHAN = 2"
definition CHAN_SBSIZE :: nat where "CHAN_SBSIZE = 16 * 1024"
definition CHAN_RBSIZE :: nat where "CHAN_RBSIZE = 16 * 1024"
definition CHAN_MAXSEGSIZE :: "16 word" where "CHAN_MAXSEGSIZE = 1024"

record chan =
  ch_flags :: cflags
  ch_state :: chan_state
  recvbuf :: cbuf
  recvseq :: "32 word"
  recvmss :: "16 word"
  sendbuf :: cbuf
  sendseq :: "32 word"
  sendwin :: "32 word"
  sendmss :: "16 word"

definition chan_new :: chan where
  "chan_new = \<lparr>ch_flags = 0, ch_state = CS_UNUSED, recvbuf = cbuf_new CHAN_RBSIZE, recvseq = 0,
     recvmss = CHAN_MAXSEGSIZE, sendbuf = cbuf_new CHAN_SBSIZE, sendseq = 0, sendwin = 0, sendmss = 0\<rparr>"

definition has_flag :: "chan \<Rightarrow> cflags \<Rightarrow> bool" where
  "has_flag ch f \<longleftrightarrow> ch_flags ch AND f \<noteq> 0"

definition set_flag :: "cflags \<Rightarrow> chan \<Rightarrow> chan" where
  "set_flag f ch = ch\<lparr>ch_flags := ch_flags ch OR f\<rparr>"

subsection \<open>The application's calls\<close>

datatype 'a wait = Blocked | Done 'a

text \<open>\<open>chan_close\<close>: the channel, the return value and whether the sender is woken.\<close>

definition chan_close :: "chan \<Rightarrow> chan \<times> int \<times> bool" where
  "chan_close ch =
     (case ch_state ch of
        CS_ESTABLISHED \<Rightarrow> (set_flag CF_CLOSE (ch\<lparr>ch_state := CS_WRCLOSED\<rparr>), 0, True)
      | CS_RDCLOSED \<Rightarrow> (set_flag CF_CLOSE (ch\<lparr>ch_state := CS_CLOSED\<rparr>), 0, True)
      | CS_WRCLOSED \<Rightarrow> (ch, 0, False)
      | CS_CLOSED \<Rightarrow> (ch, 0, False)
      | _ \<Rightarrow> (ch, -1, False))"

definition chan_wait :: "chan \<Rightarrow> unit wait" where
  "chan_wait ch = (if ch_state ch \<noteq> CS_CLOSED then Blocked else Done ())"

text \<open>
  \<open>chan_read\<close>: \<open>Inl\<close> is the value returned without data (0 at end of file, -1 for \<open>EBADF\<close>),
  \<open>Inr\<close> the bytes. The outer \<open>None\<close> is the assertion of \<open>buf_get\<close> for a read of no bytes.
\<close>

definition chan_read :: "chan \<Rightarrow> nat \<Rightarrow> (chan \<times> (int + string)) wait option" where
  "chan_read ch sz =
     (if ch_state ch = CS_RDCLOSED \<or> ch_state ch = CS_CLOSED then Some (Done (ch, Inl 0))
      else if ch_state ch \<noteq> CS_ESTABLISHED \<and> ch_state ch \<noteq> CS_WRCLOSED then Some (Done (ch, Inl (-1)))
      else
        let count = cbuf_count (recvbuf ch) in
        if count = 0 then Some Blocked
        else
          let n = min count sz in
          map_option (\<lambda>(s, b). Done (set_flag CF_WINDOW (ch\<lparr>recvbuf := b, recvseq := recvseq ch + of_nat n\<rparr>), Inr s))
            (cbuf_get (recvbuf ch) n))"

text \<open>
  \<open>chan_write\<close> up to the point where it returns or waits for room: the channel, the bytes still
  to be written and, if it returned, the error flag.
\<close>

function chan_write :: "chan \<Rightarrow> string \<Rightarrow> (chan \<times> string \<times> bool wait) option" where
  "chan_write ch s =
     (if s = [] then Some (ch, [], Done True)
      else if ch_state ch \<noteq> CS_ESTABLISHED \<and> ch_state ch \<noteq> CS_RDCLOSED then Some (ch, s, Done False)
      else
        let avail = cbuf_avail (sendbuf ch) in
        if avail = 0 then Some (ch, s, Blocked)
        else
          let n = min avail (length s) in
          (case cbuf_put (sendbuf ch) (take n s) of
             None \<Rightarrow> None
           | Some b \<Rightarrow> chan_write (ch\<lparr>sendbuf := b\<rparr>) (drop n s)))"
  by pat_completeness auto
termination by (relation "measure (\<lambda>(ch, s). length s)") auto

declare chan_write.simps [simp del]

subsection \<open>The sender, one channel at a time\<close>

text \<open>
  The body of \<open>sender_scan\<close> for a locked channel; \<open>what\<close> is the in-out argument, which keeps
  its value when no known flag is set.
\<close>

definition chan_pick :: "chan \<Rightarrow> cflags \<Rightarrow> chan \<times> cflags option" where
  "chan_pick ch what =
     (if ch_state ch = CS_UNUSED then (ch, None)
      else
        let ch1 = (if sendseq ch \<noteq> sendwin ch \<and> cbuf_count (sendbuf ch) > 0 then set_flag CF_DATA ch else ch) in
        if ch_flags ch1 = 0 then (ch1, None)
        else
          let w = (if has_flag ch1 CF_CONNECT then CF_CONNECT
                   else if has_flag ch1 CF_ACCEPT then CF_ACCEPT
                   else if has_flag ch1 CF_RESET then CF_RESET
                   else if has_flag ch1 CF_WINDOW then CF_WINDOW
                   else if has_flag ch1 CF_DATA then CF_DATA
                   else if has_flag ch1 CF_CLOSE then CF_CLOSE
                   else what)
          in (ch1\<lparr>ch_flags := ch_flags ch1 AND NOT w\<rparr>, Some w))"

text \<open>The header \<open>sender_loop\<close> builds and the number of data bytes behind it (\<open>uint16_t size\<close>).\<close>

definition chan_window :: "chan \<Rightarrow> 32 word" where
  "chan_window ch = recvseq ch + of_nat (csize (recvbuf ch))"

definition data_size :: "chan \<Rightarrow> nat" where
  "data_size ch =
     (let sz = min (cbuf_count (sendbuf ch)) (unat (sendmss ch));
          winsize = unat (sendwin ch - sendseq ch)
      in if winsize < sz then winsize else sz)"

definition sender_prepare :: "chan \<Rightarrow> 8 word \<Rightarrow> cflags \<Rightarrow> (mux_header \<times> nat) option" where
  "sender_prepare ch i what =
     (if what = CF_CONNECT then Some (MH_CONNECT i (recvmss ch) (chan_window ch), 0)
      else if what = CF_ACCEPT then Some (MH_ACCEPT i (recvmss ch) (chan_window ch), 0)
      else if what = CF_RESET then Some (MH_RESET i, 0)
      else if what = CF_WINDOW then Some (MH_WINDOW i (chan_window ch), 0)
      else if what = CF_DATA then Some (MH_DATA i (of_nat (data_size ch)), data_size ch)
      else if what = CF_CLOSE then Some (MH_CLOSE i, 0)
      else None)"

text \<open>The iovec of the transfer, which reads the buffer without the lock, and the update after it.\<close>

definition sender_iov :: "mux_header \<Rightarrow> cbuf \<Rightarrow> nat \<Rightarrow> string list" where
  "sender_iov h b sz =
     (if sz = 0 then [mh_bytes h]
      else
        let len = min sz (csize b + 1 - cout b) in
        [mh_bytes h, take len (drop (cout b) (cdata b))] @
          (if sz > len then [take (sz - len) (cdata b)] else []))"

definition sender_commit :: "chan \<Rightarrow> nat \<Rightarrow> chan" where
  "sender_commit ch sz =
     ch\<lparr>sendseq := sendseq ch + of_nat sz, sendbuf := cbuf_drop (sendbuf ch) sz\<rparr>"

subsection \<open>The receiver, one channel at a time\<close>

text \<open>The channel and whether the sender is woken; \<open>None\<close> is a protocol error.\<close>

definition chan_on_connect :: "chan \<Rightarrow> 16 word \<Rightarrow> 32 word \<Rightarrow> chan \<times> bool" where
  "chan_on_connect ch mss win =
     (if ch_state ch = CS_LISTENING then
        (set_flag CF_ACCEPT (ch\<lparr>ch_state := CS_ESTABLISHED, sendmss := mss, sendwin := win\<rparr>), True)
      else (set_flag CF_RESET ch, True))"

definition chan_on_accept :: "chan \<Rightarrow> 16 word \<Rightarrow> 32 word \<Rightarrow> chan \<times> bool" where
  "chan_on_accept ch mss win =
     (if ch_state ch = CS_CONNECTING then
        (ch\<lparr>sendmss := mss, sendwin := win, ch_state := CS_ESTABLISHED\<rparr>, False)
      else (set_flag CF_RESET ch, True))"

definition chan_on_window :: "chan \<Rightarrow> 32 word \<Rightarrow> chan \<times> bool" where
  "chan_on_window ch win =
     (if ch_state ch = CS_ESTABLISHED \<or> ch_state ch = CS_RDCLOSED
      then (ch\<lparr>sendwin := win\<rparr>, True) else (ch, False))"

definition chan_data_ok :: "chan \<Rightarrow> nat \<Rightarrow> bool" where
  "chan_data_ok ch len \<longleftrightarrow>
     \<not> (ch_state ch \<noteq> CS_ESTABLISHED \<and> ch_state ch \<noteq> CS_WRCLOSED \<or>
        len > cbuf_avail (recvbuf ch) \<or> len > unat (recvmss ch))"

definition chan_data_store :: "chan \<Rightarrow> string \<Rightarrow> chan" where
  "chan_data_store ch s = ch\<lparr>recvbuf := cbuf_advance (cbuf_store (recvbuf ch) s) (length s)\<rparr>"

definition chan_on_close :: "chan \<Rightarrow> chan option" where
  "chan_on_close ch =
     (if ch_state ch = CS_ESTABLISHED then Some (ch\<lparr>ch_state := CS_RDCLOSED\<rparr>)
      else if ch_state ch = CS_WRCLOSED then Some (ch\<lparr>ch_state := CS_CLOSED\<rparr>)
      else None)"

section \<open>The multiplexer\<close>

record mux =
  mclosed :: bool
  mstatus :: int
  channels :: "chan option list"
  nchans :: nat
  sender_waiting :: bool
  sender_ready :: bool
  sender_lastid :: nat

definition mux_new :: mux where
  "mux_new = \<lparr>mclosed = False, mstatus = -1, channels = replicate MUX_MAXCHAN None, nchans = 0,
     sender_waiting = False, sender_ready = False, sender_lastid = 0\<rparr>"

text \<open>\<open>mux_init\<close> on the wire: what it sends, and whether the reply is accepted.\<close>

definition MUX_PROTOVER :: "16 word" where "MUX_PROTOVER = 0"

definition mux_init_request :: string where
  "mux_init_request = mh_bytes (MH_STARTUPREQ MUX_PROTOVER)"

definition mux_init_reply :: "string \<Rightarrow> (bool \<times> string) option" where
  "mux_init_reply s =
     (case s of
        t # v1 # v2 # r \<Rightarrow> Some (of_char t = (1 :: nat) \<and> get16 v1 v2 = MUX_PROTOVER, r)
      | _ \<Rightarrow> None)"

text \<open>A channel by its number, created on demand; the assertion and the array bound are \<open>None\<close>.\<close>

definition chan_get :: "mux \<Rightarrow> nat \<Rightarrow> (mux \<times> chan) option" where
  "chan_get m i =
     (if i \<ge> MUX_MAXCHAN then None
      else case channels m ! i of
        Some ch \<Rightarrow> Some (m, ch)
      | None \<Rightarrow> Some (m\<lparr>channels := (channels m)[i := Some chan_new], nchans := nchans m + 1\<rparr>, chan_new))"

definition chan_update :: "mux \<Rightarrow> nat \<Rightarrow> chan \<Rightarrow> mux" where
  "chan_update m i ch = m\<lparr>channels := (channels m)[i := Some ch]\<rparr>"

fun first_free :: "chan option list \<Rightarrow> nat \<Rightarrow> nat option" where
  "first_free [] i = None"
| "first_free (None # cs) i = Some i"
| "first_free (Some c # cs) i = first_free cs (i + 1)"

text \<open>The third component says whether the function returns with the multiplexer lock held.\<close>

definition chan_insert :: "mux \<Rightarrow> chan \<Rightarrow> mux \<times> int \<times> bool" where
  "chan_insert m ch =
     (case first_free (channels m) 0 of
        Some i \<Rightarrow> (m\<lparr>channels := (channels m)[i := Some ch], nchans := nchans m + 1\<rparr>, int i, False)
      | None \<Rightarrow> (m, -1, True))"

text \<open>The search of \<open>chan_listen\<close>; the inner \<open>None\<close> is no unused channel, the outer a NULL pointer.\<close>

fun find_unused :: "chan option list \<Rightarrow> nat \<Rightarrow> nat option option" where
  "find_unused [] i = Some None"
| "find_unused (None # cs) i = None"
| "find_unused (Some c # cs) i = (if ch_state c = CS_UNUSED then Some (Some i) else find_unused cs (i + 1))"

definition chan_listen :: "mux \<Rightarrow> (mux \<times> int \<times> bool) option" where
  "chan_listen m =
     (case find_unused (take (nchans m) (channels m)) 0 of
        None \<Rightarrow> None
      | Some (Some i) \<Rightarrow>
          map_option (\<lambda>c. (chan_update m i (c\<lparr>ch_state := CS_LISTENING\<rparr>), int i, False)) (channels m ! i)
      | Some None \<Rightarrow> Some (chan_insert m (chan_new\<lparr>ch_state := CS_LISTENING\<rparr>)))"

definition chan_accept :: "chan \<Rightarrow> bool wait" where
  "chan_accept ch = (if ch_state ch = CS_LISTENING then Blocked else Done (ch_state ch = CS_ESTABLISHED))"

definition chan_connect :: "mux \<Rightarrow> nat \<Rightarrow> (mux \<times> bool) option" where
  "chan_connect m i =
     map_option (\<lambda>(m1, ch).
        if ch_state ch \<noteq> CS_UNUSED then (m1, False)
        else (chan_update m1 i (set_flag CF_CONNECT (ch\<lparr>ch_state := CS_CONNECTING\<rparr>)), True))
      (chan_get m i)"

definition chan_connected :: "chan \<Rightarrow> bool wait" where
  "chan_connected ch = (if ch_state ch = CS_CONNECTING then Blocked else Done (ch_state ch = CS_ESTABLISHED))"

text \<open>
  The round-robin scan. The loop visits at most \<open>nchans\<close> channels; the fuel counts them. A
  channel below \<open>nchans\<close> that was never created is a NULL pointer.
\<close>

fun scan_loop :: "nat \<Rightarrow> mux \<Rightarrow> nat \<Rightarrow> cflags \<Rightarrow> (mux \<times> (nat \<times> cflags) option) option" where
  "scan_loop 0 m i what = None"
| "scan_loop (Suc n) m i what =
     (let i1 = (if i + 1 \<ge> nchans m then 0 else i + 1) in
      case channels m ! i1 of
        None \<Rightarrow> None
      | Some ch \<Rightarrow>
          (case chan_pick ch what of
             (ch1, Some w) \<Rightarrow> Some ((chan_update m i1 ch1)\<lparr>sender_lastid := i1\<rparr>, Some (i1, w))
           | (ch1, None) \<Rightarrow>
               let m1 = chan_update m i1 ch1 in
               if i1 = sender_lastid m then Some (m1, None) else scan_loop n m1 i1 what))"

definition sender_scan :: "mux \<Rightarrow> cflags \<Rightarrow> (mux \<times> (nat \<times> cflags) option) option" where
  "sender_scan m what =
     (if nchans m = 0 then Some (m, None) else scan_loop (nchans m) m (sender_lastid m) what)"

text \<open>One round of \<open>sender_waitforwork\<close>: \<open>Blocked\<close> when it goes to sleep.\<close>

definition sender_waitforwork :: "mux \<Rightarrow> cflags \<Rightarrow> (mux \<times> (nat \<times> cflags) wait) option" where
  "sender_waitforwork m what =
     map_option (\<lambda>(m1, r). (case r of
         None \<Rightarrow> (m1\<lparr>sender_waiting := True\<rparr>, Blocked)
       | Some w \<Rightarrow> (m1\<lparr>sender_waiting := False\<rparr>, Done w)))
      (sender_scan (m\<lparr>sender_ready := True\<rparr>) what)"

text \<open>
  The receiver on one header. \<open>R_data i len\<close> means that the packet was accepted and its
  \<open>len\<close> bytes are to be read next, without the lock; \<open>R_stuck\<close> is the failed assertion of
  \<open>chan_get\<close>; \<open>R_bad\<close> is the jump to \<open>badproto\<close>, with the channel that
  is still locked there, if any.
\<close>

datatype recv_result = R_ok mux bool | R_data mux nat nat | R_bad mux "nat option" | R_stuck

definition receiver_packet :: "mux \<Rightarrow> mux_header \<Rightarrow> recv_result" where
  "receiver_packet m h =
     (let on = (\<lambda>i f. case chan_get m (unat i) of None \<Rightarrow> R_stuck | Some (m1, ch) \<Rightarrow> f m1 (unat i) ch);
          upd = (\<lambda>m1 i r. R_ok (chan_update m1 i (fst r)) (snd r))
      in case h of
        MH_CONNECT i mss win \<Rightarrow> on i (\<lambda>m1 i ch. upd m1 i (chan_on_connect ch mss win))
      | MH_ACCEPT i mss win \<Rightarrow> on i (\<lambda>m1 i ch. upd m1 i (chan_on_accept ch mss win))
      | MH_RESET i \<Rightarrow> R_bad m None
      | MH_WINDOW i win \<Rightarrow> on i (\<lambda>m1 i ch. upd m1 i (chan_on_window ch win))
      | MH_DATA i len \<Rightarrow> on i (\<lambda>m1 i ch. if chan_data_ok ch (unat len) then R_data m1 i (unat len) else R_bad m1 None)
      | MH_CLOSE i \<Rightarrow> on i (\<lambda>m1 i ch. case chan_on_close ch of
            None \<Rightarrow> R_bad m1 (Some i) | Some ch1 \<Rightarrow> R_ok (chan_update m1 i ch1) False)
      | _ \<Rightarrow> R_bad m None)"

definition chan_shutdown :: "chan \<Rightarrow> chan" where
  "chan_shutdown ch = (if ch_state ch \<noteq> CS_UNUSED then ch\<lparr>ch_state := CS_CLOSED, ch_flags := 0\<rparr> else ch)"

text \<open>
  \<open>mux_shutdown\<close> called by a thread that holds the lock of the channel \<open>held\<close>: the channels
  afterwards and the condition variables that are broadcast. Locking the held channel again
  (a default mutex) never succeeds, which is \<open>None\<close>. Cancelling and joining the two threads at
  the end is not modelled.
\<close>

datatype chan_cond = RDREADY | WRREADY

fun shutdown_loop :: "nat option \<Rightarrow> nat \<Rightarrow> chan option list \<Rightarrow> (chan option list \<times> (nat \<times> chan_cond) list) option" where
  "shutdown_loop held i [] = Some ([], [])"
| "shutdown_loop held i (None # cs) =
     map_option (\<lambda>(cs1, bs). (None # cs1, bs)) (shutdown_loop held (i + 1) cs)"
| "shutdown_loop held i (Some ch # cs) =
     (if held = Some i then None
      else map_option (\<lambda>(cs1, bs).
          (Some (chan_shutdown ch) # cs1,
           (if ch_state ch \<noteq> CS_UNUSED then [(i, RDREADY), (i, WRREADY)] else []) @ bs))
        (shutdown_loop held (i + 1) cs))"

definition mux_shutdown :: "nat option \<Rightarrow> mux \<Rightarrow> int \<Rightarrow> (mux \<times> (nat \<times> chan_cond) list) option" where
  "mux_shutdown held m status =
     (if mclosed m then Some (m, [])
      else map_option (\<lambda>(cs, bs). (m\<lparr>mclosed := True, mstatus := status, channels := cs\<rparr>, bs))
        (shutdown_loop held 0 (channels m)))"

definition mux_close :: "mux \<Rightarrow> int option" where
  "mux_close m = (if mclosed m then Some (mstatus m) else None)"

section \<open>The socket helpers\<close>

text \<open>
  \<open>sock_writev\<close>: the inner loop skips the buffers that were written completely; the function
  returns 0 as soon as nothing of the count is left.
\<close>

fun iov_skip :: "nat \<Rightarrow> string list \<Rightarrow> nat \<times> string list" where
  "iov_skip n [] = (n, [])"
| "iov_skip n (v # vs) = (if n > 0 \<and> n \<ge> length v then iov_skip (n - length v) vs else (n, v # vs))"

fun sock_writev :: "nat \<Rightarrow> ('k \<Rightarrow> string \<Rightarrow> 'k \<times> wres) \<Rightarrow> 'k \<Rightarrow> string list \<Rightarrow> ('k \<times> int) option" where
  "sock_writev 0 wv k iov = None"
| "sock_writev (Suc n) wv k iov =
     (case wv k (concat iov) of
        (k1, Wrote m) \<Rightarrow>
          (case iov_skip m iov of
             (r, iov1) \<Rightarrow>
               if r = 0 then Some (k1, 0)
               else (case iov1 of
                       [] \<Rightarrow> None
                     | v # vs \<Rightarrow> sock_writev n wv k1 (drop r v # vs)))
      | (k1, WIntr) \<Rightarrow> sock_writev n wv k1 iov
      | (k1, WFail) \<Rightarrow> Some (k1, -1))"

definition sock_write :: "nat \<Rightarrow> ('k \<Rightarrow> string \<Rightarrow> 'k \<times> wres) \<Rightarrow> 'k \<Rightarrow> string \<Rightarrow> ('k \<times> int) option" where
  "sock_write n wv k s = sock_writev n wv k [s]"

text \<open>\<open>sock_readwait\<close>: all of \<open>left\<close> bytes or an error; an empty read is a lost connection.\<close>

fun sock_readwait :: "nat \<Rightarrow> ('k \<Rightarrow> nat \<Rightarrow> 'k \<times> string option) \<Rightarrow> 'k \<Rightarrow> nat \<Rightarrow> ('k \<times> string option) option" where
  "sock_readwait 0 rd k left = None"
| "sock_readwait (Suc n) rd k left =
     (if left = 0 then Some (k, Some [])
      else case rd k left of
        (k1, None) \<Rightarrow> Some (k1, None)
      | (k1, Some s) \<Rightarrow>
          if s = [] then Some (k1, None)
          else map_option (\<lambda>(k2, r). (k2, map_option (\<lambda>t. s @ t) r)) (sock_readwait n rd k1 (left - length s)))"

section \<open>What the operations promise\<close>

text \<open>
  Claim C17. Every header the sender can produce is read back by the receiver from its packed
  big-endian bytes as the same header, and exactly its bytes are consumed.
\<close>

theorem mux_header_roundtrip:
  assumes "wire_header h"
  shows "mh_read (mh_bytes h @ s) = Some (h, s)"
  using assms by (rule mh_read_bytes)

theorem mux_header_roundtrip_witness:
  "mh_read (mh_bytes (MH_CONNECT 1 1024 16384) @ ''x'') = Some (MH_CONNECT 1 1024 16384, ''x'')"
  using mux_header_roundtrip [of "MH_CONNECT 1 1024 16384" "''x''"] by (simp add: wire_header_def)

subsection \<open>Reading and writing the socket\<close>

context sure_reader
begin

lemma readwait:
  "kok k \<Longrightarrow> left < n \<Longrightarrow>
    \<exists>k'. sock_readwait n rfn k left =
      Some (k', if left \<le> length (rest k) then Some (take left (rest k)) else None) \<and>
      kok k' \<and> (left \<le> length (rest k) \<longrightarrow> rest k' = drop left (rest k))"
proof (induction n arbitrary: k left)
  case (Suc n)
  show ?case
  proof (cases "left = 0")
    case True
    then show ?thesis using Suc.prems by simp
  next
    case False
    obtain k1 o1 where r: "rfn k left = (k1, o1)" by force
    then obtain t where o1: "o1 = Some t" using no_error [OF Suc.prems(1), of left] False by auto
    note g = got [OF Suc.prems(1) _ r [unfolded o1]]
    show ?thesis
    proof (cases "t = []")
      case True
      then have "rest k = []" "kok k1" using g False by auto
      then show ?thesis using r o1 True False by simp
    next
      case t: False
      have rest: "rest k = t @ rest k1" "length t \<le> left" "kok k1" using g False by auto
      have "left - length t < n" using t False Suc.prems(2) rest(2) by (cases t) auto
      from Suc.IH [OF rest(3) this] obtain k' where k':
        "sock_readwait n rfn k1 (left - length t) =
          Some (k', if left - length t \<le> length (rest k1) then Some (take (left - length t) (rest k1)) else None)"
        "kok k'" "left - length t \<le> length (rest k1) \<longrightarrow> rest k' = drop (left - length t) (rest k1)" by blast
      have "left - length t \<le> length (rest k1) \<longleftrightarrow> left \<le> length (rest k)" using rest by auto
      then show ?thesis using r o1 t False k' rest by auto
    qed
  qed
qed simp

end

text \<open>
  Claim C29. \<open>sock_readwait\<close> returns exactly the bytes asked for, however the socket cuts them,
  leaves the rest unread, and reports a lost connection exactly when there are fewer.
\<close>

theorem sock_readwait_exact:
  assumes "sure_reader rfn rest kok" and "kok k" and "left < n"
  shows "\<exists>k'. sock_readwait n rfn k left =
      Some (k', if left \<le> length (rest k) then Some (take left (rest k)) else None) \<and>
      kok k' \<and> (left \<le> length (rest k) \<longrightarrow> rest k' = drop left (rest k))"
  using assms by (rule sure_reader.readwait)

theorem sock_readwait_exact_witness:
  "\<exists>k'. sock_readwait 4 stream_read_buf \<lparr>bdata = ''abcde'', bsize = 4, bin = 0, boff = 5\<rparr> 3 = Some (k', Some ''abc'') \<and>
     read_left k' = ''de''"
  using sock_readwait_exact [of stream_read_buf read_left "\<lambda>_. True" "\<lparr>bdata = ''abcde'', bsize = 4, bin = 0, boff = 5\<rparr>" 3 4]
    bufr.sure_reader_axioms
  by (simp add: read_left_def)

context writer
begin

lemma write_single:
  assumes progress: "\<And>k s k'. kok k \<Longrightarrow> s \<noteq> [] \<Longrightarrow> wfn k s \<noteq> (k', Wrote 0)"
  shows "kok k \<Longrightarrow> s \<noteq> [] \<Longrightarrow> length s + tries k < n \<Longrightarrow>
    \<exists>k' r. sock_writev n wfn k [s] = Some (k', r) \<and> (r = 0 \<and> sent k' = sent k @ s \<or> r = -1 \<and> write_can_fail wfn kok)"
proof (induction n arbitrary: k s)
  case (Suc n)
  obtain k1 w where w: "wfn k s = (k1, w)" by force
  show ?case
  proof (cases w)
    case WIntr
    note k = interrupted [OF Suc.prems(1,2) w [unfolded WIntr]]
    then have "length s + tries k1 < n" using Suc.prems(3) by simp
    from Suc.IH [OF _ Suc.prems(2) this] k w WIntr show ?thesis by auto
  next
    case WFail
    then have "write_can_fail wfn kok" using w Suc.prems(1,2) by (auto simp: write_can_fail_def)
    then show ?thesis using w WFail by auto
  next
    case (Wrote m)
    note k = wrote [OF Suc.prems(1,2) w [unfolded Wrote]]
    have m: "0 < m" using progress [OF Suc.prems(1,2), of k1] w Wrote by (cases m) auto
    show ?thesis
    proof (cases "m = length s")
      case True
      then show ?thesis using w Wrote k m by simp
    next
      case False
      with k have lt: "m < length s" by simp
      then have "length (drop m s) + tries k1 < n" "drop m s \<noteq> []" using Suc.prems(3) k m by auto
      from Suc.IH [OF _ this(2,1)] k obtain k' r where
        "sock_writev n wfn k1 [drop m s] = Some (k', r)" "r = 0 \<and> sent k' = sent k1 @ drop m s \<or> r = -1 \<and> write_can_fail wfn kok" by blast
      then show ?thesis using w Wrote k m lt by auto
    qed
  qed
qed simp

end

text \<open>
  Claim C30. \<open>sock_write\<close> of one buffer delivers all of it and returns 0, through any number of
  partial writes and interruptions (\<open>tries\<close> bounds those to come); it returns -1 only over a
  socket that can fail.
\<close>

theorem sock_write_delivers:
  assumes "writer wfn sent tries kok" and "\<And>k s k'. kok k \<Longrightarrow> s \<noteq> [] \<Longrightarrow> wfn k s \<noteq> (k', Wrote 0)"
    and "kok k" and "s \<noteq> []" and "length s + tries k < n"
  shows "\<exists>k' r. sock_write n wfn k s = Some (k', r) \<and>
    (r = 0 \<and> sent k' = sent k @ s \<or> r = -1 \<and> write_can_fail wfn kok)"
  unfolding sock_write_def using assms by (rule writer.write_single)

text \<open>
  A socket that takes at most four bytes at a time, and one that is interrupted as many times as
  its number says before each of its writes goes through the same way.
\<close>

definition slow_socket :: "string \<Rightarrow> string \<Rightarrow> string \<times> wres" where
  "slow_socket k s = (k @ take 4 s, Wrote (min 4 (length s)))"

definition intr_socket :: "nat \<times> string \<Rightarrow> string \<Rightarrow> (nat \<times> string) \<times> wres" where
  "intr_socket k s =
     (case k of
        (Suc i, w) \<Rightarrow> ((i, w), WIntr)
      | (0, w) \<Rightarrow> ((0, w @ take 4 s), Wrote (min 4 (length s))))"

lemma intr_socket_writer: "writer intr_socket snd fst (\<lambda>_. True)"
  by unfold_locales (auto simp: intr_socket_def min_def split: if_splits nat.splits)

lemma intr_socket_sure: "intr_socket k s \<noteq> (k', WFail)" "s \<noteq> [] \<Longrightarrow> intr_socket k s \<noteq> (k', Wrote 0)"
  by (auto simp: intr_socket_def min_def split: prod.splits nat.splits)

theorem sock_write_delivers_witness:
  "\<exists>k'. sock_write 9 intr_socket (3, []) ''hello'' = Some (k', 0) \<and> snd k' = ''hello''"
  using sock_write_delivers [OF intr_socket_writer, where k = "(3, [])" and s = "''hello''" and n = 9] intr_socket_sure
  by (auto simp: write_can_fail_def)

text \<open>
  \<open>sock_writev\<close> is wrong for several buffers: when a partial write ends exactly at the
  end of a buffer, the remaining count is zero and the function returns success without
  writing the other buffers. Here the socket takes the four bytes of a data header and the five
  bytes of data that the header announces are never sent.
\<close>

lemma sock_writev_drops_data:
  "sock_writev (Suc n) slow_socket [] [mh_bytes (MH_DATA 0 5), ''hello''] = Some (mh_bytes (MH_DATA 0 5), 0)"
  by (simp add: slow_socket_def u8_def be16_def)

text \<open>
  A socket that follows a script: each write takes as many bytes as the script says, or is
  interrupted, or fails; after the script a write takes all it is given.
\<close>

definition script_socket :: "wres list \<times> string \<Rightarrow> string \<Rightarrow> (wres list \<times> string) \<times> wres" where
  "script_socket k s =
     (case fst k of
        [] \<Rightarrow> (([], snd k @ s), Wrote (length s))
      | Wrote m # rs \<Rightarrow> ((rs, snd k @ take m s), Wrote (min m (length s)))
      | WIntr # rs \<Rightarrow> ((rs, snd k), WIntr)
      | WFail # rs \<Rightarrow> ((rs, snd k), WFail))"

lemma script_socket_simps [simp]:
  "script_socket ([], w) s = (([], w @ s), Wrote (length s))"
  "script_socket (Wrote m # rs, w) s = ((rs, w @ take m s), Wrote (min m (length s)))"
  "script_socket (WIntr # rs, w) s = ((rs, w), WIntr)"
  "script_socket (WFail # rs, w) s = ((rs, w), WFail)"
  by (simp_all add: script_socket_def)

text \<open>
  The positions where the writes of a script end, those where the buffers but the last end, and
  the position where \<open>sock_writev\<close> stops: the first write that ends where a buffer ends.
\<close>

fun write_stops :: "nat \<Rightarrow> wres list \<Rightarrow> nat list" where
  "write_stops p (Wrote m # rs) = (p + m) # write_stops (p + m) rs"
| "write_stops p (WIntr # rs) = write_stops p rs"
| "write_stops p _ = []"

fun iov_ends :: "nat \<Rightarrow> string list \<Rightarrow> nat list" where
  "iov_ends p (v # w # vs) = (p + length v) # iov_ends (p + length v) (w # vs)"
| "iov_ends p _ = []"

definition writev_stop :: "nat \<Rightarrow> wres list \<Rightarrow> string list \<Rightarrow> nat" where
  "writev_stop p rs iov =
     (case find (\<lambda>x. x \<in> set (iov_ends p iov)) (write_stops p rs) of
        Some x \<Rightarrow> x | None \<Rightarrow> p + length (concat iov))"

lemma iov_ends_bounds:
  "\<forall>v \<in> set iov. v \<noteq> [] \<Longrightarrow> x \<in> set (iov_ends p iov) \<Longrightarrow> p < x \<and> x < p + length (concat iov)"
  by (induction p iov rule: iov_ends.induct) force+

lemma write_stops_bound: "Wrote 0 \<notin> set rs \<Longrightarrow> x \<in> set (write_stops p rs) \<Longrightarrow> p < x"
  by (induction p rs rule: write_stops.induct) force+

lemma iov_skip_all: "length (concat iov) \<le> m \<Longrightarrow> \<forall>v \<in> set iov. v \<noteq> [] \<Longrightarrow> iov_skip m iov = (m - length (concat iov), [])"
  by (induction m iov rule: iov_skip.induct) (auto simp flip: length_greater_0_conv)

lemma iov_skip_part:
  assumes "0 < m" and "m < length (concat iov)" and "\<forall>v \<in> set iov. v \<noteq> []"
  shows "iov_skip m iov = (r, vs) \<Longrightarrow>
    (if r = 0 then p + m \<in> set (iov_ends p iov)
     else p + m \<notin> set (iov_ends p iov) \<and> (\<exists>v ws. vs = v # ws \<and> r < length v \<and> set ws \<subseteq> set iov \<and>
       concat (drop r v # ws) = drop m (concat iov) \<and>
       set (iov_ends (p + m) (drop r v # ws)) = {x \<in> set (iov_ends p iov). p + m < x}))"
  using assms
proof (induction m iov arbitrary: p rule: iov_skip.induct)
  case (2 m v ws)
  show ?case
  proof (cases "m < length v")
    case True
    then have "set (iov_ends (p + m) (drop m v # ws)) = set (iov_ends p (v # ws))"
      by (cases ws) simp_all
    moreover have "p + m < x" if "x \<in> set (iov_ends p (v # ws))" for x
    proof (cases ws)
      case (Cons w us)
      then have "x = p + length v \<or> x \<in> set (iov_ends (p + length v) ws)" using that by auto
      then show ?thesis using True iov_ends_bounds [of ws x "p + length v"] "2.prems"(4) by auto
    qed (use that in simp)
    ultimately show ?thesis using True 2 by auto
  next
    case False
    with "2.prems" obtain w us where ws: "ws = w # us" by (cases ws) auto
    have sk: "iov_skip (m - length v) ws = (r, vs)" using False "2.prems" by simp
    show ?thesis
    proof (cases "m = length v")
      case True
      then have "r = 0" using sk ws by simp
      then show ?thesis using True ws by simp
    next
      case ne: False
      have lt: "0 < m - length v" "m - length v < length (concat ws)" "p + length v + (m - length v) = p + m"
        using False ne "2.prems" by auto
      have d: "drop m (v @ concat ws) = drop (m - length v) (concat ws)" using False by simp
      have "iov_ends p (v # ws) = (p + length v) # iov_ends (p + length v) ws" using ws by simp
      moreover note "2.IH" [OF _ sk lt(1,2), of "p + length v"]
      ultimately show ?thesis using lt(3) "2.prems"(2,4) False ne d by (auto split: if_splits)
    qed
  qed
qed simp

lemma find_cong': "(\<And>x. x \<in> set xs \<Longrightarrow> P x = Q x) \<Longrightarrow> find P xs = find Q xs"
  by (induction xs) auto

lemma find_none: "(\<And>x. x \<in> set xs \<Longrightarrow> \<not> P x) \<Longrightarrow> find P xs = None"
  by (induction xs) auto

lemma sock_writev_script:
  assumes "\<forall>v \<in> set iov. v \<noteq> []" and "iov \<noteq> []" and "WFail \<notin> set rs" and "Wrote 0 \<notin> set rs" and "length rs < n"
  shows "\<exists>rs'. sock_writev n script_socket (rs, out) iov =
    Some ((rs', out @ take (writev_stop p rs iov - p) (concat iov)), 0)"
  using assms
proof (induction rs arbitrary: iov p out n)
  case Nil
  then obtain k where "n = Suc k" by (cases n) auto
  then show ?case using Nil by (simp add: writev_stop_def iov_skip_all)
next
  case (Cons w rs)
  then obtain k where n: "n = Suc k" "length rs < k" by (cases n) auto
  show ?case
  proof (cases w)
    case WIntr
    from Cons.IH [OF Cons.prems(1,2) _ _ n(2), of out p] Cons.prems WIntr n(1) show ?thesis
      by (simp add: writev_stop_def)
  next
    case (Wrote m)
    have m: "0 < m" using Cons.prems(4) Wrote by auto
    show ?thesis
    proof (cases "m < length (concat iov)")
      case False
      then have "writev_stop p (w # rs) iov = p + length (concat iov)"
        unfolding writev_stop_def Wrote using write_stops_bound [of rs _ "p + m"] iov_ends_bounds [OF Cons.prems(1), of _ p] Cons.prems(4)
        by (subst find_none) fastforce+
      then show ?thesis using False n(1) Wrote Cons.prems(1)
        by (simp add: iov_skip_all min_def)
    next
      case True
      obtain r vs where sk: "iov_skip m iov = (r, vs)" by force
      note part = iov_skip_part [OF m True Cons.prems(1) sk, of p]
      show ?thesis
      proof (cases "r = 0")
        case r: True
        then have "writev_stop p (w # rs) iov = p + m" using part Wrote by (simp add: writev_stop_def)
        then show ?thesis using True n(1) Wrote r sk by (simp add: min_def)
      next
        case False
        with part obtain v ws where v: "vs = v # ws" "r < length v" "set ws \<subseteq> set iov"
          "concat (drop r v # ws) = drop m (concat iov)" "p + m \<notin> set (iov_ends p iov)"
          "set (iov_ends (p + m) (drop r v # ws)) = {x \<in> set (iov_ends p iov). p + m < x}" by auto
        let ?iov = "drop r v # ws"
        have "\<forall>u \<in> set ?iov. u \<noteq> []" using v(2,3) Cons.prems(1) by auto
        from Cons.IH [OF this _ _ _ n(2), of "out @ take m (concat iov)" "p + m"] Cons.prems(3,4) obtain rs' where
          IH: "sock_writev k script_socket (rs, out @ take m (concat iov)) ?iov =
            Some ((rs', (out @ take m (concat iov)) @ take (writev_stop (p + m) rs ?iov - (p + m)) (concat ?iov)), 0)"
          by auto
        have fc: "find (\<lambda>x. x \<in> set (iov_ends (p + m) ?iov)) (write_stops (p + m) rs) =
            find (\<lambda>x. x \<in> set (iov_ends p iov)) (write_stops (p + m) rs)"
          using v(6) write_stops_bound [of rs _ "p + m"] Cons.prems(4) by (intro find_cong') auto
        have len: "length (concat ?iov) = length (concat iov) - m" using v(4) by (metis length_drop)
        have st: "writev_stop (p + m) rs ?iov = writev_stop p (w # rs) iov"
          unfolding writev_stop_def Wrote fc len using True v(5) by (simp split: option.split)
        have "p + m \<le> writev_stop (p + m) rs ?iov"
          using write_stops_bound [of rs _ "p + m"] Cons.prems(4)
          by (auto simp: writev_stop_def find_Some_iff split: option.splits) (meson less_imp_le nth_mem)
        then have "take m (concat iov) @ take (writev_stop (p + m) rs ?iov - (p + m)) (concat ?iov) =
            take (writev_stop p (w # rs) iov - p) (concat iov)"
          unfolding st v(4) by (metis Nat.add_diff_assoc2 add_diff_cancel_left' diff_add_inverse2 le_add_diff_inverse take_add add_le_imp_le_diff diff_diff_left add.commute)
        then show ?thesis using IH n(1) Wrote True False sk v(1) by (simp add: min_def)
      qed
    qed
  qed (use Cons.prems in simp)
qed
text \<open>
  Claim C38. What \<open>sock_writev\<close> really sends over a socket that does not fail, through any
  partial writes and interruptions: it returns 0, having sent everything if no partial write
  ends exactly at the end of a buffer but the last, and otherwise only what lies before the
  first such position; the rest of the header and data is dropped without an error.
\<close>

theorem sock_writev_sends:
  assumes "\<forall>v \<in> set iov. v \<noteq> []" and "iov \<noteq> []" and "WFail \<notin> set rs" and "Wrote 0 \<notin> set rs" and "length rs < n"
  shows "\<exists>rs'. sock_writev n script_socket (rs, out) iov =
    Some ((rs', out @ take (writev_stop 0 rs iov) (concat iov)), 0)"
  using sock_writev_script [OF assms, of out 0] by simp

theorem sock_writev_sends_witness:
  "(\<exists>rs'. sock_writev 4 script_socket ([Wrote 3, WIntr, Wrote 4], []) [''head'', ''hello''] = Some ((rs', ''headhello''), 0)) \<and>
   (\<exists>rs'. sock_writev 4 script_socket ([Wrote 3, WIntr, Wrote 1], []) [''head'', ''hello''] = Some ((rs', ''head''), 0))"
  using sock_writev_sends [of "[''head'', ''hello'']" "[Wrote 3, WIntr, Wrote 4]" 4 "[]"]
    sock_writev_sends [of "[''head'', ''hello'']" "[Wrote 3, WIntr, Wrote 1]" 4 "[]"]
  by (simp add: writev_stop_def)

text \<open>The scripts on which all is sent.\<close>

definition whole_writes :: "wres list \<Rightarrow> string list \<Rightarrow> bool" where
  "whole_writes rs iov \<longleftrightarrow> WFail \<notin> set rs \<and> Wrote 0 \<notin> set rs \<and>
     (\<forall>x \<in> set (write_stops 0 rs). x \<notin> set (iov_ends 0 iov))"

lemma sock_writev_whole:
  assumes "whole_writes rs iov" and "\<forall>v \<in> set iov. v \<noteq> []" and "iov \<noteq> []"
  shows "\<exists>rs'. sock_writev (Suc (length rs)) script_socket (rs, []) iov = Some ((rs', concat iov), 0)"
proof -
  have "writev_stop 0 rs iov = length (concat iov)"
    using assms(1) by (simp add: writev_stop_def whole_writes_def find_none)
  with sock_writev_script [of iov rs "Suc (length rs)" "[]" 0] assms show ?thesis by (simp add: whole_writes_def)
qed

subsection \<open>The scan of the sender\<close>

definition pick_what :: "chan \<Rightarrow> cflags \<Rightarrow> cflags option" where
  "pick_what c what = snd (chan_pick c what)"

lemma set_flag_data_nonzero: "ch_flags (set_flag CF_DATA c) \<noteq> 0"
  by (simp add: set_flag_def or_eq_0_iff)

lemma chan_pick_idle: "pick_what c what = None \<Longrightarrow> chan_pick c what = (c, None)"
  using set_flag_data_nonzero [of c] by (auto simp: pick_what_def chan_pick_def Let_def split: if_splits)

lemma chan_pick_work: "pick_what c what = Some w \<Longrightarrow> chan_pick c what = (fst (chan_pick c what), Some w)"
  by (metis pick_what_def prod.collapse)

text \<open>The channels in the order of the round robin, the last one served coming last.\<close>

definition scan_order :: "nat \<Rightarrow> nat \<Rightarrow> nat list" where
  "scan_order k n = [k + 1..<n] @ [0..<k + 1]"

definition serve :: "mux \<Rightarrow> cflags \<Rightarrow> nat list \<Rightarrow> mux \<times> (nat \<times> cflags) option" where
  "serve m what order =
     (case find (\<lambda>i. pick_what (the (channels m ! i)) what \<noteq> None) order of
        None \<Rightarrow> (m, None)
      | Some i \<Rightarrow>
          ((chan_update m i (fst (chan_pick (the (channels m ! i)) what)))\<lparr>sender_lastid := i\<rparr>,
           Some (i, the (pick_what (the (channels m ! i)) what))))"

definition all_created :: "mux \<Rightarrow> bool" where
  "all_created m \<longleftrightarrow> nchans m \<le> length (channels m) \<and> (\<forall>i < nchans m. channels m ! i \<noteq> None) \<and>
     sender_lastid m < nchans m"

lemma scan_step:
  assumes "all_created m" and "j < nchans m" and "j = (if i + 1 \<ge> nchans m then 0 else i + 1)"
  shows "scan_loop (Suc n) m i what =
    (if pick_what (the (channels m ! j)) what \<noteq> None \<or> j = sender_lastid m then Some (serve m what [j])
     else scan_loop n m j what)"
proof -
  obtain c where c: "channels m ! j = Some c" using assms(1,2) by (auto simp: all_created_def)
  have j: "j < length (channels m)" using assms(1,2) by (auto simp: all_created_def)
  have same: "chan_update m j c = m" using c j by (simp add: chan_update_def list_update_same_conv)
  have loop: "scan_loop (Suc n) m i what =
     (case chan_pick c what of
        (ch1, Some w) \<Rightarrow> Some ((chan_update m j ch1)\<lparr>sender_lastid := j\<rparr>, Some (j, w))
      | (ch1, None) \<Rightarrow> if j = sender_lastid m then Some (chan_update m j ch1, None)
                       else scan_loop n (chan_update m j ch1) j what)"
    by (simp only: scan_loop.simps Let_def assms(3) [symmetric] c option.case)
  show ?thesis
  proof (cases "pick_what c what")
    case None
    then show ?thesis using loop same c chan_pick_idle [OF None] by (cases "j = sender_lastid m") (simp_all add: serve_def)
  next
    case (Some w)
    obtain c1 where "chan_pick c what = (c1, Some w)" using chan_pick_work [OF Some] by blast
    then show ?thesis using loop c Some by (simp add: serve_def)
  qed
qed

lemma serve_skip: "pick_what (the (channels m ! j)) what = None \<Longrightarrow> serve m what (j # order) = serve m what order"
  by (simp add: serve_def)

lemma serve_first: "pick_what (the (channels m ! j)) what \<noteq> None \<Longrightarrow> serve m what (j # order) = serve m what [j]"
  by (simp add: serve_def)

lemma serve_next:
  assumes "r = (if pick_what (the (channels m ! j)) what \<noteq> None \<or> j = sender_lastid m then Some (serve m what [j])
     else t)"
    and "j \<noteq> sender_lastid m" and "t = Some (serve m what order)"
  shows "r = Some (serve m what (j # order))"
proof (cases "pick_what (the (channels m ! j)) what = None")
  case True
  with assms serve_skip [OF True, of order] show ?thesis by simp
next
  case False
  with assms(1) have "r = Some (serve m what [j])" by simp
  then show ?thesis by (simp only: serve_first [OF False, of order])
qed

lemma scan_low:
  "all_created m \<Longrightarrow> i < sender_lastid m \<Longrightarrow> n = sender_lastid m - i \<Longrightarrow>
    scan_loop n m i what = Some (serve m what [i + 1..<sender_lastid m + 1])"
proof (induction n arbitrary: i)
  case (Suc n)
  have lt: "i + 1 < nchans m" using Suc.prems by (auto simp: all_created_def)
  have step: "scan_loop (Suc n) m i what =
    (if pick_what (the (channels m ! (i + 1))) what \<noteq> None \<or> i + 1 = sender_lastid m then Some (serve m what [i + 1])
     else scan_loop n m (i + 1) what)"
    using lt by (intro scan_step [OF Suc.prems(1)]) auto
  show ?case
  proof (cases "i + 1 = sender_lastid m")
    case True
    then have "[i + 1..<sender_lastid m + 1] = [i + 1]" by (metis upt_conv_Cons Suc_eq_plus1 lessI upt_rec less_irrefl)
    with step True show ?thesis by (simp only: if_True disj_ac simp_thms)
  next
    case False
    then have "scan_loop n m (i + 1) what = Some (serve m what [i + 1 + 1..<sender_lastid m + 1])"
      using Suc.prems by (intro Suc.IH) auto
    from serve_next [OF step False this] Suc.prems(2) show ?thesis by (simp add: upt_conv_Cons del: upt_Suc)
  qed
qed simp

lemma scan_high:
  "all_created m \<Longrightarrow> sender_lastid m \<le> i \<Longrightarrow> i < nchans m \<Longrightarrow> n = nchans m - i + sender_lastid m \<Longrightarrow>
    scan_loop n m i what = Some (serve m what ([i + 1..<nchans m] @ [0..<sender_lastid m + 1]))"
proof (induction n arbitrary: i)
  case (Suc n)
  show ?case
  proof (cases "i + 1 < nchans m")
    case True
    have step: "scan_loop (Suc n) m i what =
      (if pick_what (the (channels m ! (i + 1))) what \<noteq> None \<or> i + 1 = sender_lastid m then Some (serve m what [i + 1])
       else scan_loop n m (i + 1) what)"
      using True by (intro scan_step [OF Suc.prems(1)]) auto
    have ne: "i + 1 \<noteq> sender_lastid m" using Suc.prems(2) by simp
    have "scan_loop n m (i + 1) what = Some (serve m what ([i + 1 + 1..<nchans m] @ [0..<sender_lastid m + 1]))"
      using Suc.prems True by (intro Suc.IH) auto
    from serve_next [OF step ne this] True show ?thesis by (simp add: upt_conv_Cons [of "Suc i"] del: upt_Suc)
  next
    case False
    have step: "scan_loop (Suc n) m i what =
      (if pick_what (the (channels m ! 0)) what \<noteq> None \<or> 0 = sender_lastid m then Some (serve m what [0])
       else scan_loop n m 0 what)"
      using False Suc.prems by (intro scan_step [OF Suc.prems(1)]) auto
    have nil: "[i + 1..<nchans m] = []" using False by simp
    show ?thesis
    proof (cases "sender_lastid m = 0")
      case True
      then have "[0..<sender_lastid m + 1] = [0]" by simp
      moreover from step True have "scan_loop (Suc n) m i what = Some (serve m what [0])" by (simp del: scan_loop.simps)
      ultimately show ?thesis by (simp only: nil append_Nil)
    next
      case pos: False
      have "n = sender_lastid m - 0" using Suc.prems False by auto
      with pos have "scan_loop n m 0 what = Some (serve m what [0 + 1..<sender_lastid m + 1])"
        by (intro scan_low [OF Suc.prems(1)]) auto
      from serve_next [OF step _ this] pos
      have "scan_loop (Suc n) m i what = Some (serve m what (0 # [0 + 1..<sender_lastid m + 1]))" by simp
      moreover have "0 # [0 + 1..<sender_lastid m + 1] = [0..<sender_lastid m + 1]" by (simp add: upt_conv_Cons)
      ultimately show ?thesis by (simp only: nil append_Nil)
    qed
  qed
qed simp

text \<open>
  Claim C18. The sender's scan is a fair round robin: it serves the first channel with work in
  cyclic order after the one served last, which itself comes last; it changes nothing when no
  channel has work; its loop ends within one turn.
\<close>

theorem sender_scan_round_robin:
  assumes "all_created m"
  shows "sender_scan m what = Some (serve m what (scan_order (sender_lastid m) (nchans m)))"
proof -
  have "sender_lastid m < nchans m" using assms by (simp add: all_created_def)
  then have "scan_loop (nchans m) m (sender_lastid m) what =
      Some (serve m what ([sender_lastid m + 1..<nchans m] @ [0..<sender_lastid m + 1]))"
    by (intro scan_high [OF assms]) auto
  with \<open>sender_lastid m < nchans m\<close> show ?thesis by (simp add: sender_scan_def scan_order_def)
qed

theorem sender_scan_round_robin_witness:
  "sender_scan (mux_new\<lparr>channels := [Some (chan_new\<lparr>ch_state := CS_CLOSED, ch_flags := CF_CLOSE\<rparr>), Some chan_new],
      nchans := 2\<rparr>) 0 =
   Some (mux_new\<lparr>channels := [Some (chan_new\<lparr>ch_state := CS_CLOSED\<rparr>), Some chan_new], nchans := 2\<rparr>, Some (0, CF_CLOSE))"
  using sender_scan_round_robin [of "mux_new\<lparr>channels := [Some (chan_new\<lparr>ch_state := CS_CLOSED, ch_flags := CF_CLOSE\<rparr>),
      Some chan_new], nchans := 2\<rparr>" 0]
  by (simp add: all_created_def mux_new_def less_2_cases_iff serve_def scan_order_def pick_what_def chan_pick_def
      has_flag_def chan_new_def chan_update_def upt_rec)

text \<open>The channel a packet is for; the other packets never reach \<open>chan_get\<close>.\<close>

fun packet_chan :: "mux_header \<Rightarrow> nat option" where
  "packet_chan (MH_CONNECT i mss win) = Some (unat i)"
| "packet_chan (MH_ACCEPT i mss win) = Some (unat i)"
| "packet_chan (MH_WINDOW i win) = Some (unat i)"
| "packet_chan (MH_DATA i len) = Some (unat i)"
| "packet_chan (MH_CLOSE i) = Some (unat i)"
| "packet_chan h = None"

text \<open>
  Claim C32. A peer can crash the client with any kind of packet that is for a channel. If
  the channel number is \<open>MUX_MAXCHAN\<close> or more, the assertion of \<open>chan_get\<close> fails in the receiver, in
  any state. If the number is valid but a smaller channel does not exist yet (channel 1 before
  channel 0), \<open>chan_get\<close> counts the new channel in \<open>nchans\<close> although the array has a NULL pointer below it;
  whenever the receiver goes on after the packet, the next scan of the sender dereferences that
  pointer. It does go on after connect, accept and window packets.
\<close>

theorem peer_can_crash:
  assumes "packet_chan h = Some i"
  shows "(MUX_MAXCHAN \<le> i \<longrightarrow> receiver_packet m h = R_stuck) \<and>
    (i = 1 \<and> channels m = [None, None] \<and> nchans m = 0 \<longrightarrow>
      (\<forall>m1 w. receiver_packet m h = R_ok m1 w \<longrightarrow> sender_scan m1 what = None) \<and>
      ((\<forall>j len. h \<noteq> MH_DATA j len) \<and> (\<forall>j. h \<noteq> MH_CLOSE j) \<longrightarrow> (\<exists>m1 w. receiver_packet m h = R_ok m1 w)))"
  using assms
  by (cases h) (auto simp: receiver_packet_def chan_get_def MUX_MAXCHAN_def sender_scan_def chan_update_def
    chan_on_close_def chan_new_def)

theorem peer_can_crash_witness:
  "receiver_packet mux_new (MH_CLOSE 7) = R_stuck \<and>
   (\<exists>m1 w. receiver_packet mux_new (MH_CONNECT 1 1024 0) = R_ok m1 w \<and> sender_scan m1 0 = None)"
proof -
  have n: "channels mux_new = [None, None]" "nchans mux_new = 0" by (simp_all add: mux_new_def MUX_MAXCHAN_def numeral_2_eq_2)
  have "receiver_packet mux_new (MH_CLOSE 7) = R_stuck"
    using peer_can_crash [of "MH_CLOSE 7" 7 mux_new] by (simp add: MUX_MAXCHAN_def)
  then show ?thesis
    using peer_can_crash [of "MH_CONNECT 1 1024 0" 1 mux_new 0] n by auto
qed

text \<open>
  What the scan picks for a channel: nothing when it is unused or has neither a flag
  nor data it may send, and otherwise the most important piece of work, in the order connect,
  accept, reset, window, data, close; so a close is sent only when no data may be sent.
\<close>

lemma chan_pick_importance:
  "pick_what c what =
     (let sendable = (sendseq c \<noteq> sendwin c \<and> cbuf_count (sendbuf c) > 0);
          due = filter (\<lambda>f. ch_flags c AND f \<noteq> 0 \<or> f = CF_DATA \<and> sendable)
            [CF_CONNECT, CF_ACCEPT, CF_RESET, CF_WINDOW, CF_DATA, CF_CLOSE]
      in if ch_state c = CS_UNUSED \<or> ch_flags c = 0 \<and> \<not> sendable then None
         else Some (case due of [] \<Rightarrow> what | f # _ \<Rightarrow> f))"
  by (simp add: pick_what_def chan_pick_def Let_def has_flag_def set_flag_def bit.conj_disj_distrib2 or_eq_0_iff)

subsection \<open>Closing and shutting down\<close>

text \<open>
  Claim C31. Data can be lost at close: once \<open>chan_close\<close> has been called on a channel whose
  window is exhausted, the close is sent at once, the window updates of the peer are ignored,
  and the bytes still in the send buffer are never picked again.
\<close>

theorem close_strands_data:
  assumes "ch_state c = CS_ESTABLISHED" and "sendseq c = sendwin c" and "ch_flags c = 0"
    and "cbuf_list (sendbuf c) = s" and "cbuf_ok (sendbuf c)"
  shows "\<exists>c'. chan_pick (fst (chan_close c)) 0 = (c', Some CF_CLOSE) \<and> sendbuf c' = sendbuf c \<and>
    chan_on_window c' w = (c', False) \<and> pick_what c' 0 = None"
  using assms
  by (simp add: chan_close_def chan_pick_def set_flag_def has_flag_def chan_on_window_def pick_what_def Let_def)

theorem close_strands_data_witness:
  "\<exists>c'. chan_pick (fst (chan_close (chan_new\<lparr>ch_state := CS_ESTABLISHED,
        sendbuf := \<lparr>cdata = ''abc'', csize = 2, cin = 2, cout = 0\<rparr>\<rparr>))) 0 = (c', Some CF_CLOSE) \<and>
     cbuf_list (sendbuf c') = ''ab'' \<and> chan_on_window c' 16384 = (c', False) \<and> pick_what c' 0 = None"
  using close_strands_data [of "chan_new\<lparr>ch_state := CS_ESTABLISHED,
        sendbuf := \<lparr>cdata = ''abc'', csize = 2, cin = 2, cout = 0\<rparr>\<rparr>" "''ab''" 16384]
  by (auto simp: chan_new_def cbuf_list_def cbuf_ok_def)

lemma shutdown_loop_unlocked:
  "\<exists>bs. shutdown_loop None i cs = Some (map (map_option chan_shutdown) cs, bs) \<and>
    (\<forall>j ch c. j < length cs \<longrightarrow> cs ! j = Some ch \<longrightarrow> ch_state ch \<noteq> CS_UNUSED \<longrightarrow> (i + j, c) \<in> set bs)"
proof (induction cs arbitrary: i)
  case (Cons x cs)
  from Cons [of "i + 1"] obtain bs where
    l: "shutdown_loop None (i + 1) cs = Some (map (map_option chan_shutdown) cs, bs)"
    and b: "\<And>j ch c. j < length cs \<Longrightarrow> cs ! j = Some ch \<Longrightarrow> ch_state ch \<noteq> CS_UNUSED \<Longrightarrow> (i + 1 + j, c) \<in> set bs" by blast
  let ?bs = "(case x of Some ch \<Rightarrow> if ch_state ch \<noteq> CS_UNUSED then [(i, RDREADY), (i, WRREADY)] else [] | None \<Rightarrow> []) @ bs"
  have "shutdown_loop None i (x # cs) = Some (map (map_option chan_shutdown) (x # cs), ?bs)"
    using l by (cases x) simp_all
  moreover have "(i + j, c) \<in> set ?bs"
    if "j < length (x # cs)" "(x # cs) ! j = Some ch" "ch_state ch \<noteq> CS_UNUSED" for j ch c
    using that b [of "j - 1" ch c] by (cases j; cases c) auto
  ultimately show ?case by blast
qed simp

lemma shutdown_loop_locked:
  "j < length cs \<Longrightarrow> cs ! j \<noteq> None \<Longrightarrow> shutdown_loop (Some (i + j)) i cs = None"
proof (induction cs arbitrary: i j)
  case (Cons c cs)
  then show ?case
  proof (cases j)
    case (Suc k)
    with Cons.IH [of k "i + 1"] Cons.prems show ?thesis by (cases c) auto
  qed (auto simp: Cons.prems)
qed simp



text \<open>
  Claim C40. A close packet for a channel that is not open hangs the client: the receiver leaves
  the handler with the channel locked, and the \<open>mux_shutdown\<close> it calls then, with the lock of
  the multiplexer taken, waits for that channel for ever.
\<close>

theorem close_packet_hangs:
  assumes "\<not> mclosed m" and "length (channels m) = MUX_MAXCHAN" and "chan_get m (unat i) = Some (m1, c)"
    and "ch_state c \<noteq> CS_ESTABLISHED" and "ch_state c \<noteq> CS_WRCLOSED"
  shows "receiver_packet m (MH_CLOSE i) = R_bad m1 (Some (unat i)) \<and> mux_shutdown (Some (unat i)) m1 st = None"
proof -
  have m1: "\<not> mclosed m1" "unat i < length (channels m1)" "channels m1 ! unat i \<noteq> None"
    using assms(1-3) by (auto simp: chan_get_def split: if_splits option.splits)
  have "shutdown_loop (Some (0 + unat i)) 0 (channels m1) = None" by (rule shutdown_loop_locked [OF m1(2,3)])
  then show ?thesis using assms(3-5) m1(1)
    by (simp add: receiver_packet_def chan_on_close_def mux_shutdown_def)
qed

theorem close_packet_hangs_witness:
  "receiver_packet (mux_new\<lparr>channels := [Some (chan_new\<lparr>ch_state := CS_LISTENING\<rparr>), None], nchans := 1\<rparr>) (MH_CLOSE 0) =
     R_bad (mux_new\<lparr>channels := [Some (chan_new\<lparr>ch_state := CS_LISTENING\<rparr>), None], nchans := 1\<rparr>) (Some 0) \<and>
   mux_shutdown (Some 0) (mux_new\<lparr>channels := [Some (chan_new\<lparr>ch_state := CS_LISTENING\<rparr>), None], nchans := 1\<rparr>) 1 = None"
  using close_packet_hangs [of "mux_new\<lparr>channels := [Some (chan_new\<lparr>ch_state := CS_LISTENING\<rparr>), None], nchans := 1\<rparr>" 0
      "mux_new\<lparr>channels := [Some (chan_new\<lparr>ch_state := CS_LISTENING\<rparr>), None], nchans := 1\<rparr>" "chan_new\<lparr>ch_state := CS_LISTENING\<rparr>" 1]
  by (simp add: mux_new_def chan_get_def MUX_MAXCHAN_def)

end
