(* ===== verification/Muxnet.thy ===== *)
theory Muxnet
  imports Mux
begin

text \<open>
  Two multiplexers at the ends of a socket, seen on one channel: the application's calls, the
  sender's cycle (pick under the locks, prepare under the channel lock, transfer without a lock,
  commit under the lock) and the receiver's (check under the lock, read the bytes into the
  buffer without it, announce them under it), interleaved in any order. The operations are
  those of theory \<open>Mux\<close>; the two packet queues are the socket, which delivers in order.
  \<open>wr\<close> and \<open>rd\<close> record what the application wrote and read.

  The transfer is the modelled \<open>sock_writev\<close> over a socket that cuts and interrupts the
  writes as a script says. The steps cover the scripts of \<open>whole_writes\<close> only: no write fails
  (a failure ends the connection in \<open>mux_shutdown\<close>) and no partial write ends exactly at
  the end of the header or at the wrap of the send buffer. On the other scripts \<open>sock_writev\<close>
  drops the rest of the packet (\<open>sock_writev_sends\<close>), the sender counts it as sent, and the
  receiver takes what follows for it: nothing here holds for such a connection.
\<close>

section \<open>End points and steps\<close>

datatype pkt = Pkt (hdr: mux_header) (payload: string)

datatype tx_phase = T_idle | T_picked cflags | T_ready mux_header nat | T_sent nat

record ep =
  ch :: chan
  tx :: tx_phase
  rx :: "string option"
  bad :: bool
  wr :: string
  rd :: string

definition receive_header :: "ep \<Rightarrow> mux_header \<Rightarrow> ep" where
  "receive_header e h =
     (case h of
        MH_CONNECT _ mss win \<Rightarrow> e\<lparr>ch := fst (chan_on_connect (ch e) mss win)\<rparr>
      | MH_ACCEPT _ mss win \<Rightarrow> e\<lparr>ch := fst (chan_on_accept (ch e) mss win)\<rparr>
      | MH_WINDOW _ win \<Rightarrow> e\<lparr>ch := fst (chan_on_window (ch e) win)\<rparr>
      | MH_CLOSE _ \<Rightarrow> (case chan_on_close (ch e) of None \<Rightarrow> e\<lparr>bad := True\<rparr> | Some c \<Rightarrow> e\<lparr>ch := c\<rparr>)
      | _ \<Rightarrow> e\<lparr>bad := True\<rparr>)"

text \<open>\<open>ep_step i e inq e' inq' out\<close>: one step of an end point on channel \<open>i\<close>.\<close>

inductive ep_step :: "8 word \<Rightarrow> ep \<Rightarrow> pkt list \<Rightarrow> ep \<Rightarrow> pkt list \<Rightarrow> pkt list \<Rightarrow> bool" for i where
  s_write: "chan_write (ch e) s = Some (c, s', r) \<Longrightarrow>
    ep_step i e q (e\<lparr>ch := c, wr := wr e @ take (length s - length s') s\<rparr>) q []"
| s_read: "chan_read (ch e) n = Some (Done (c, Inr s)) \<Longrightarrow>
    ep_step i e q (e\<lparr>ch := c, rd := rd e @ s\<rparr>) q []"
| s_close: "chan_close (ch e) = (c, r, w) \<Longrightarrow> ep_step i e q (e\<lparr>ch := c\<rparr>) q []"
| s_pick: "tx e = T_idle \<Longrightarrow> chan_pick (ch e) w0 = (c, Some w) \<Longrightarrow>
    ep_step i e q (e\<lparr>ch := c, tx := T_picked w\<rparr>) q []"
| s_prepare: "tx e = T_picked w \<Longrightarrow> sender_prepare (ch e) i w = Some (h, n) \<Longrightarrow>
    ep_step i e q (e\<lparr>tx := T_ready h n\<rparr>) q []"
| s_send: "tx e = T_ready h n \<Longrightarrow> whole_writes rs (sender_iov h (sendbuf (ch e)) n) \<Longrightarrow>
    sock_writev (Suc (length rs)) script_socket (rs, []) (sender_iov h (sendbuf (ch e)) n) =
      Some ((rs', mh_bytes h @ t), 0) \<Longrightarrow>
    ep_step i e q (e\<lparr>tx := (if n = 0 then T_idle else T_sent n)\<rparr>) q [Pkt h t]"
| s_commit: "tx e = T_sent n \<Longrightarrow>
    ep_step i e q (e\<lparr>ch := sender_commit (ch e) n, tx := T_idle\<rparr>) q []"
| s_header: "\<not> bad e \<Longrightarrow> rx e = None \<Longrightarrow> (\<forall>j len. h \<noteq> MH_DATA j len) \<Longrightarrow>
    ep_step i e (Pkt h s # q) (receive_header e h) q []"
| s_data_check: "\<not> bad e \<Longrightarrow> rx e = None \<Longrightarrow>
    ep_step i e (Pkt (MH_DATA j len) s # q)
      (if chan_data_ok (ch e) (unat len) then e\<lparr>rx := Some s\<rparr> else e\<lparr>bad := True\<rparr>) q []"
| s_data_store: "rx e = Some s \<Longrightarrow>
    ep_step i e q (e\<lparr>ch := chan_data_store (ch e) s, rx := None\<rparr>) q []"

text \<open>The system: both ends and what is on the way in each direction.\<close>

record net =
  epa :: ep
  epb :: ep
  qab :: "pkt list"
  qba :: "pkt list"

inductive net_step :: "8 word \<Rightarrow> net \<Rightarrow> net \<Rightarrow> bool" for i where
  n_a: "ep_step i (epa s) (qba s) e q out \<Longrightarrow>
    net_step i s (s\<lparr>epa := e, qba := q, qab := qab s @ out\<rparr>)"
| n_b: "ep_step i (epb s) (qab s) e q out \<Longrightarrow>
    net_step i s (s\<lparr>epb := e, qab := q, qba := qba s @ out\<rparr>)"

definition ep_new :: "chan \<Rightarrow> ep" where
  "ep_new c = \<lparr>ch = c, tx = T_idle, rx = None, bad = False, wr = [], rd = []\<rparr>"

text \<open>One end has called \<open>chan_connect\<close>, the other \<open>chan_listen\<close>.\<close>

definition net_start :: net where
  "net_start = \<lparr>epa = ep_new (set_flag CF_CONNECT (chan_new\<lparr>ch_state := CS_CONNECTING\<rparr>)),
     epb = ep_new (chan_new\<lparr>ch_state := CS_LISTENING\<rparr>), qab = [], qba = []\<rparr>"

inductive reachable :: "8 word \<Rightarrow> net \<Rightarrow> bool" for i where
  r_start: "reachable i net_start"
| r_step: "reachable i s \<Longrightarrow> net_step i s s' \<Longrightarrow> reachable i s'"

section \<open>What the operations do to the buffers\<close>

lemma cap_simps [simp]: "CHAN_RBSIZE = 16384" "CHAN_SBSIZE = 16384"
  by (simp_all add: CHAN_RBSIZE_def CHAN_SBSIZE_def)

lemma set_flag_frame [simp]:
  "ch_state (set_flag f c) = ch_state c" "recvbuf (set_flag f c) = recvbuf c" "recvseq (set_flag f c) = recvseq c"
  "recvmss (set_flag f c) = recvmss c" "sendbuf (set_flag f c) = sendbuf c" "sendseq (set_flag f c) = sendseq c"
  "sendwin (set_flag f c) = sendwin c" "sendmss (set_flag f c) = sendmss c"
  by (simp_all add: set_flag_def)

lemma chan_write_effect:
  "chan_write c s = Some (c', s', r) \<Longrightarrow> cbuf_ok (sendbuf c) \<Longrightarrow>
    \<exists>b t. c' = c\<lparr>sendbuf := b\<rparr> \<and> cbuf_ok b \<and> s = t @ s' \<and> cbuf_list b = cbuf_list (sendbuf c) @ t"
proof (induction c s rule: chan_write.induct)
  case (1 c s)
  let ?n = "min (cbuf_avail (sendbuf c)) (length s)"
  show ?case
  proof (cases "s = [] \<or> ch_state c \<noteq> CS_ESTABLISHED \<and> ch_state c \<noteq> CS_RDCLOSED \<or> cbuf_avail (sendbuf c) = 0")
    case True
    then have "c' = c \<and> s' = s" using "1.prems"(1) by (subst (asm) chan_write.simps) (auto split: if_splits)
    with "1.prems"(2) show ?thesis by (intro exI [of _ "sendbuf c"] exI [of _ "[]"]) simp
  next
    case False
    then have n: "take ?n s \<noteq> []" "length (take ?n s) \<le> cbuf_avail (sendbuf c)" by auto
    from ring.put_ok [OF "1.prems"(2) n] obtain b where
      b: "cbuf_put (sendbuf c) (take ?n s) = Some b" "cbuf_ok b" "cbuf_list b = cbuf_list (sendbuf c) @ take ?n s" by blast
    have rec: "chan_write (c\<lparr>sendbuf := b\<rparr>) (drop ?n s) = Some (c', s', r)"
      using "1.prems"(1) False b(1) by (subst (asm) chan_write.simps) (simp add: Let_def split: if_splits)
    have "\<exists>b' t. c' = c\<lparr>sendbuf := b\<rparr>\<lparr>sendbuf := b'\<rparr> \<and> cbuf_ok b' \<and> drop ?n s = t @ s' \<and>
        cbuf_list b' = cbuf_list (sendbuf (c\<lparr>sendbuf := b\<rparr>)) @ t"
      using False b rec by (intro "1.IH") auto
    then obtain b' t where "c' = c\<lparr>sendbuf := b'\<rparr>" "cbuf_ok b'" "drop ?n s = t @ s'" "cbuf_list b' = cbuf_list b @ t"
      by auto
    with b(3) show ?thesis
      by (intro exI [of _ b'] exI [of _ "take ?n s @ t"]) (simp, metis append_take_drop_id)
  qed
qed

lemma chan_read_effect:
  assumes "chan_read c n = Some (Done (c', Inr s))" and "cbuf_ok (recvbuf c)"
  shows "\<exists>b. c' = set_flag CF_WINDOW (c\<lparr>recvbuf := b, recvseq := recvseq c + of_nat (length s)\<rparr>) \<and> cbuf_ok b \<and>
    cbuf_list (recvbuf c) = s @ cbuf_list b \<and> csize b = csize (recvbuf c) \<and>
    (ch_state c = CS_ESTABLISHED \<or> ch_state c = CS_WRCLOSED)"
proof -
  let ?k = "min (cbuf_count (recvbuf c)) n"
  from assms(1) obtain b where g: "cbuf_get (recvbuf c) ?k = Some (s, b)"
    and c': "c' = set_flag CF_WINDOW (c\<lparr>recvbuf := b, recvseq := recvseq c + of_nat ?k\<rparr>)"
    and st: "ch_state c = CS_ESTABLISHED \<or> ch_state c = CS_WRCLOSED"
    by (auto simp: chan_read_def Let_def split: if_splits)
  have k: "0 < ?k" "?k \<le> cbuf_count (recvbuf c)" using g by (auto simp: cbuf_get_def split: if_splits)
  from ring.get_ok [OF assms(2) k] g have b: "s = take ?k (cbuf_list (recvbuf c))" "cbuf_ok b"
    "cbuf_list b = drop ?k (cbuf_list (recvbuf c))" "csize b = csize (recvbuf c)" by auto
  then have "length s = ?k" using k(2) ring.count [OF assms(2)] by simp
  with b c' st show ?thesis by auto
qed

lemma sender_iov_bytes:
  assumes "cbuf_ok b" and "n \<le> length (cbuf_list b)"
  shows "concat (sender_iov h b n) = mh_bytes h @ take n (cbuf_list b)"
proof -
  have "concat (sender_iov h b n) = mh_bytes h @ cbuf_peek b n"
    by (auto simp: sender_iov_def cbuf_peek_def Let_def min_def)
  then show ?thesis using cbuf_peek_list [OF assms] by simp
qed

lemma sender_iov_nonempty: "cbuf_ok b \<Longrightarrow> v \<in> set (sender_iov h b n) \<Longrightarrow> v \<noteq> []"
  by (cases h) (auto simp: sender_iov_def cbuf_ok_def Let_def split: if_splits)

text \<open>What a whole transfer puts on the wire after the header.\<close>

lemma sent_payload:
  assumes "cbuf_ok b" and "n \<le> length (cbuf_list b)" and "whole_writes rs (sender_iov h b n)"
    and "sock_writev (Suc (length rs)) script_socket (rs, []) (sender_iov h b n) = Some ((rs', mh_bytes h @ t), 0)"
  shows "t = take n (cbuf_list b)"
proof -
  have "sender_iov h b n \<noteq> []" by (simp add: sender_iov_def Let_def)
  with sock_writev_whole [OF assms(3)] sender_iov_nonempty [OF assms(1)] assms(4)
  show ?thesis by (auto simp: sender_iov_bytes [OF assms(1,2)])
qed

text \<open>Two channels that differ in flags and state only.\<close>

definition same_data :: "chan \<Rightarrow> chan \<Rightarrow> bool" where
  "same_data c c' \<longleftrightarrow> recvbuf c' = recvbuf c \<and> recvseq c' = recvseq c \<and> recvmss c' = recvmss c \<and>
     sendbuf c' = sendbuf c \<and> sendseq c' = sendseq c \<and> sendwin c' = sendwin c \<and> sendmss c' = sendmss c"

lemma chan_pick_same: "chan_pick c w0 = (c', r) \<Longrightarrow> same_data c c' \<and> ch_state c' = ch_state c"
  by (auto simp: chan_pick_def same_data_def Let_def split: if_splits)

lemma chan_close_same: "chan_close c = (c', r, w) \<Longrightarrow> same_data c c'"
  by (cases "ch_state c") (auto simp: chan_close_def same_data_def)

section \<open>Flow control\<close>

definition data_of :: "pkt \<Rightarrow> string" where
  "data_of p = (case hdr p of MH_DATA _ _ \<Rightarrow> payload p | _ \<Rightarrow> [])"

definition win_of :: "mux_header \<Rightarrow> 32 word list" where
  "win_of h = (case h of MH_CONNECT _ _ w \<Rightarrow> [w] | MH_ACCEPT _ _ w \<Rightarrow> [w] | MH_WINDOW _ w \<Rightarrow> [w] | _ \<Rightarrow> [])"

definition datas :: "pkt list \<Rightarrow> string" where
  "datas q = concat (map data_of q)"

definition wins :: "pkt list \<Rightarrow> 32 word list" where
  "wins q = concat (map (\<lambda>p. win_of (hdr p)) q)"

definition tx_wins :: "ep \<Rightarrow> 32 word list" where
  "tx_wins e = (case tx e of T_ready h _ \<Rightarrow> win_of h | _ \<Rightarrow> [])"

definition header_ok :: "mux_header \<Rightarrow> nat \<Rightarrow> bool" where
  "header_ok h n \<longleftrightarrow> (case h of
       MH_CONNECT _ mss _ \<Rightarrow> n = 0 \<and> mss = 1024
     | MH_ACCEPT _ mss _ \<Rightarrow> n = 0 \<and> mss = 1024
     | MH_DATA _ len \<Rightarrow> unat len = n \<and> n \<le> 1024
     | _ \<Rightarrow> n = 0)"

definition pkt_ok :: "pkt \<Rightarrow> bool" where
  "pkt_ok p \<longleftrightarrow> header_ok (hdr p) (length (payload p))"

text \<open>Bytes the sender has in its buffer and not yet given to the socket; bytes about to be given.\<close>

definition sbytes :: "ep \<Rightarrow> string" where
  "sbytes e = cbuf_list (sendbuf (ch e))"

definition rbytes :: "ep \<Rightarrow> string" where
  "rbytes e = cbuf_list (recvbuf (ch e))"

definition unsent :: "ep \<Rightarrow> string" where
  "unsent e = (case tx e of T_sent n \<Rightarrow> drop n (sbytes e) | _ \<Rightarrow> sbytes e)"

definition tx_len :: "ep \<Rightarrow> nat" where
  "tx_len e = (case tx e of T_ready _ n \<Rightarrow> n | _ \<Rightarrow> 0)"

definition tx_ok :: "ep \<Rightarrow> bool" where
  "tx_ok e \<longleftrightarrow> (case tx e of
       T_ready h n \<Rightarrow> n \<le> length (sbytes e) \<and> header_ok h n
     | T_sent n \<Rightarrow> n \<le> length (sbytes e)
     | _ \<Rightarrow> True)"

definition arriving :: "ep \<Rightarrow> string" where
  "arriving e = (case rx e of None \<Rightarrow> [] | Some s \<Rightarrow> s)"

text \<open>What holds of each end by itself.\<close>

definition ep_ok :: "ep \<Rightarrow> bool" where
  "ep_ok e \<longleftrightarrow> cbuf_ok (sendbuf (ch e)) \<and> cbuf_ok (recvbuf (ch e)) \<and> csize (recvbuf (ch e)) = 16384 \<and>
     recvmss (ch e) = 1024 \<and> unat (sendmss (ch e)) \<le> 1024 \<and> tx_ok e \<and>
     recvseq (ch e) = of_nat (length (rd e)) \<and> (bad e \<longrightarrow> rx e = None) \<and>
     length (sbytes e) \<le> length (wr e) \<and> sendseq (ch e) = of_nat (length (wr e) - length (sbytes e))"

text \<open>
  The windows as unbounded numbers: the one the sender has, those on the way, and the one the
  receiver would announce now, in increasing order; what was sent or is being sent is within
  the first.
\<close>

definition windows :: "ep \<Rightarrow> ep \<Rightarrow> pkt list \<Rightarrow> nat \<Rightarrow> nat list \<Rightarrow> bool" where
  "windows x y qyx W ws \<longleftrightarrow> sendwin (ch x) = of_nat W \<and> map of_nat ws = wins qyx @ tx_wins y \<and>
     sorted (W # ws @ [length (rd y) + 16384]) \<and> length (wr x) - length (unsent x) + tx_len x \<le> W"

definition flow :: "ep \<Rightarrow> ep \<Rightarrow> pkt list \<Rightarrow> pkt list \<Rightarrow> bool" where
  "flow x y qxy qyx \<longleftrightarrow> (\<exists>W ws. windows x y qyx W ws) \<and>
     (\<exists>d. wr x = rd y @ rbytes y @ arriving y @ d @ unsent x \<and> (\<not> bad y \<longrightarrow> d = datas qxy))"

text \<open>The data the sender takes fits its message size and its window, across the wrap of the counters.\<close>

lemma data_size_bounds:
  assumes "cbuf_ok (sendbuf c)" and "unat (sendmss c) \<le> 1024"
  shows "data_size c \<le> length (cbuf_list (sendbuf c))" and "data_size c \<le> 1024"
    and "data_size c \<le> unat (sendwin c - sendseq c)"
  using assms(2) ring.count [OF assms(1)] by (auto simp: data_size_def Let_def)

lemma window_diff:
  "C \<le> W \<Longrightarrow> W - C < 4294967296 \<Longrightarrow> unat (of_nat W - of_nat C :: 32 word) = W - C"
proof -
  assume "C \<le> W" "W - C < 4294967296"
  then have "(of_nat W - of_nat C :: 32 word) = of_nat (W - C)" by (simp add: of_nat_diff)
  then show ?thesis using \<open>W - C < 4294967296\<close> by (simp add: unat_of_nat take_bit_nat_eq_self)
qed

lemmas ep_defs = sbytes_def rbytes_def unsent_def tx_len_def tx_ok_def arriving_def tx_wins_def

lemma same_data_ep_ok:
  assumes "ep_ok e" and "same_data (ch e) c" and "\<And>n. t \<noteq> T_sent n" and "\<And>h n. t \<noteq> T_ready h n"
  shows "ep_ok (e\<lparr>ch := c, tx := t\<rparr>)"
  using assms by (cases t) (auto simp: ep_ok_def same_data_def ep_defs)

lemma receive_header_ep_ok:
  assumes "ep_ok e" and "rx e = None" and "header_ok h n"
  shows "ep_ok (receive_header e h)"
  using assms
  by (cases h) (auto simp: receive_header_def ep_ok_def ep_defs chan_on_connect_def chan_on_accept_def
      chan_on_window_def chan_on_close_def header_ok_def split: tx_phase.splits)

lemma prepare_header_ok:
  assumes "ep_ok e" and "sender_prepare (ch e) i w = Some (h, n)"
  shows "header_ok h n" and "n \<le> length (sbytes e)"
proof -
  have c: "cbuf_ok (sendbuf (ch e))" "unat (sendmss (ch e)) \<le> 1024" "recvmss (ch e) = 1024"
    using assms(1) by (simp_all add: ep_ok_def)
  note d = data_size_bounds [OF c(1,2)]
  have "unat (of_nat (data_size (ch e)) :: 16 word) = data_size (ch e)"
    using d(2) by (simp add: unat_of_nat take_bit_nat_eq_self)
  then show "header_ok h n" "n \<le> length (sbytes e)"
    using assms(2) c(3) d by (auto simp: sender_prepare_def header_ok_def sbytes_def split: if_splits)
qed

lemma ep_ok_step:
  assumes "ep_step i e q e' q' out" and "ep_ok e" and "\<forall>p \<in> set q. pkt_ok p"
    and "length (arriving e) \<le> cbuf_avail (recvbuf (ch e))"
  shows "ep_ok e' \<and> (\<forall>p \<in> set q'. pkt_ok p) \<and> (\<forall>p \<in> set out. pkt_ok p)"
  using assms
proof cases
  case (s_write s c s' r)
  from chan_write_effect [OF s_write(4)] assms(2) obtain b t where
    "c = ch e\<lparr>sendbuf := b\<rparr>" "cbuf_ok b" "s = t @ s'" "cbuf_list b = cbuf_list (sendbuf (ch e)) @ t"
    by (auto simp: ep_ok_def)
  with s_write assms(2,3) show ?thesis by (auto simp: ep_ok_def ep_defs split: tx_phase.splits)
next
  case (s_read n c s)
  from chan_read_effect [OF s_read(4)] assms(2) obtain b where
    "c = set_flag CF_WINDOW (ch e\<lparr>recvbuf := b, recvseq := recvseq (ch e) + of_nat (length s)\<rparr>)" "cbuf_ok b"
    "csize b = csize (recvbuf (ch e))"
    by (auto simp: ep_ok_def)
  with s_read assms(2,3) show ?thesis by (auto simp: ep_ok_def ep_defs split: tx_phase.splits)
next
  case (s_close c r w)
  from chan_close_same [OF s_close(4)] s_close assms(2,3) show ?thesis
    by (auto simp: ep_ok_def ep_defs same_data_def split: tx_phase.splits)
next
  case (s_pick w0 c w)
  from chan_pick_same [OF s_pick(5)] s_pick assms(2,3) show ?thesis
    by (auto intro: same_data_ep_ok)
next
  case (s_prepare w h n)
  from prepare_header_ok [OF assms(2) s_prepare(5)] s_prepare assms(2,3) show ?thesis
    by (auto simp: ep_ok_def ep_defs)
next
  case (s_send h n rs rs' t)
  have n: "n \<le> length (sbytes e)" "header_ok h n" "cbuf_ok (sendbuf (ch e))"
    using assms(2) s_send(4) by (simp_all add: ep_ok_def tx_ok_def)
  have "length t = n"
    using sent_payload [OF n(3) _ s_send(5,6)] n(1) by (simp add: sbytes_def)
  then have "pkt_ok (Pkt h t)" using n(2) by (simp add: pkt_ok_def)
  with s_send assms(2,3) n show ?thesis by (auto simp: ep_ok_def ep_defs)
next
  case (s_commit n)
  have n: "n \<le> length (cbuf_list (sendbuf (ch e)))" using assms(2) s_commit(4) by (simp add: ep_ok_def tx_ok_def sbytes_def)
  from cbuf_drop_ok [OF _ this] assms(2) have "cbuf_ok (cbuf_drop (sendbuf (ch e)) n)"
    "cbuf_list (cbuf_drop (sendbuf (ch e)) n) = drop n (cbuf_list (sendbuf (ch e)))" by (auto simp: ep_ok_def)
  with s_commit assms(2,3) n show ?thesis
    by (auto simp: ep_ok_def ep_defs sender_commit_def simp flip: of_nat_add)
next
  case (s_header h s)
  then show ?thesis using assms(2,3) receive_header_ep_ok [of e h "length s"] by (auto simp: pkt_ok_def)
next
  case (s_data_check j len s)
  then show ?thesis using assms(2,3) by (auto simp: ep_ok_def ep_defs split: tx_phase.splits)
next
  case (s_data_store s)
  then have "length s \<le> cbuf_avail (recvbuf (ch e))" using assms(4) by (simp add: arriving_def)
  with ring.store [of "recvbuf (ch e)" s] s_data_store assms(2,3) show ?thesis
    by (auto simp: ep_ok_def ep_defs chan_data_store_def split: tx_phase.splits)
qed

lemma datas_simps [simp]: "datas [] = []" "datas (p # q) = data_of p @ datas q" "datas (q @ q') = datas q @ datas q'"
  by (simp_all add: datas_def)

lemma wins_simps [simp]: "wins [] = []" "wins (p # q) = win_of (hdr p) @ wins q" "wins (q @ q') = wins q @ wins q'"
  by (simp_all add: wins_def)

text \<open>The sender's side steps.\<close>

lemma flow_same_x:
  assumes "flow x y qxy qyx" and "unsent x' = unsent x" and "wr x' = wr x" and "tx_len x' \<le> tx_len x"
    and "sendwin (ch x') = sendwin (ch x)"
  shows "flow x' y qxy qyx"
proof -
  from assms(1) obtain W ws where "windows x y qyx W ws" by (auto simp: flow_def)
  then have "windows x' y qyx W ws" using assms by (auto simp: windows_def)
  then show ?thesis using assms by (auto simp: flow_def)
qed

lemma windows_pop:
  assumes "windows x y (p # q) W ws"
  shows "\<exists>ws'. windows x y q W ws'" and
    "win_of (hdr p) = [w] \<Longrightarrow> sendwin (ch x') = w \<Longrightarrow> wr x' = wr x \<Longrightarrow> unsent x' = unsent x \<Longrightarrow> tx_len x' = tx_len x \<Longrightarrow>
      \<exists>W' ws'. windows x' y q W' ws'"
proof -
  have len: "length (win_of (hdr p)) \<le> 1" by (simp add: win_of_def split: mux_header.splits)
  have m: "map of_nat ws = win_of (hdr p) @ wins q @ tx_wins y" and sw: "sendwin (ch x) = of_nat W"
    and st: "sorted (W # ws @ [length (rd y) + 16384])"
    and le: "length (wr x) - length (unsent x) + tx_len x \<le> W"
    using assms by (simp_all add: windows_def)
  show "\<exists>ws'. windows x y q W ws'"
  proof (cases "win_of (hdr p)")
    case Nil
    with m sw st le show ?thesis by (auto simp: windows_def)
  next
    case (Cons v vs)
    with len m obtain u us where "ws = u # us" "map of_nat us = wins q @ tx_wins y" by auto
    with sw st le show ?thesis by (auto simp: windows_def)
  qed
  assume "win_of (hdr p) = [w]" "sendwin (ch x') = w" "wr x' = wr x" "unsent x' = unsent x" "tx_len x' = tx_len x"
  moreover from this(1) m obtain u us where "ws = u # us" "of_nat u = w" "map of_nat us = wins q @ tx_wins y" by auto
  ultimately show "\<exists>W' ws'. windows x' y q W' ws'"
    using st le by (intro exI [of _ u] exI [of _ us]) (auto simp: windows_def)
qed

lemma flow_pop:
  assumes "flow x y qxy (p # q)"
  shows "flow x y qxy q"
    and "win_of (hdr p) = [w] \<Longrightarrow> sendwin (ch x') = w \<Longrightarrow> wr x' = wr x \<Longrightarrow> unsent x' = unsent x \<Longrightarrow> tx_len x' = tx_len x \<Longrightarrow>
      flow x' y qxy q"
proof -
  from assms obtain W ws where w: "windows x y (p # q) W ws" by (auto simp: flow_def)
  show "flow x y qxy q" using assms windows_pop(1) [OF w] by (auto simp: flow_def)
  assume "win_of (hdr p) = [w]" "sendwin (ch x') = w" "wr x' = wr x" "unsent x' = unsent x" "tx_len x' = tx_len x"
  with windows_pop(2) [OF w this] assms show "flow x' y qxy q" by (auto simp: flow_def)
qed

lemma unsent_length: "ep_ok e \<Longrightarrow> length (unsent e) \<le> length (sbytes e)"
  by (auto simp: unsent_def split: tx_phase.splits)

lemma flow_bound:
  assumes "flow x y qxy qyx" and "windows x y qyx W ws"
  shows "length (rd y @ rbytes y @ arriving y) \<le> length (wr x)"
    and "W \<le> length (rd y) + 16384"
  using assms by (auto simp: flow_def windows_def)

lemma receive_header_win:
  assumes "\<forall>j len. h \<noteq> MH_DATA j len"
  shows "sendwin (ch (receive_header e h)) = sendwin (ch e) \<or> win_of h = [sendwin (ch (receive_header e h))]"
  using assms
  by (cases h) (auto simp: receive_header_def win_of_def chan_on_connect_def chan_on_accept_def chan_on_window_def
      chan_on_close_def)

lemma receive_header_frame:
  "sendbuf (ch (receive_header e h)) = sendbuf (ch e)" "recvbuf (ch (receive_header e h)) = recvbuf (ch e)"
  "tx (receive_header e h) = tx e" "rx (receive_header e h) = rx e"
  "wr (receive_header e h) = wr e" "rd (receive_header e h) = rd e"
  by (cases h; auto simp: receive_header_def chan_on_connect_def chan_on_accept_def chan_on_window_def
      chan_on_close_def)+

lemma flow_step_x:
  assumes "ep_step i x qyx x' q out" and "flow x y qxy qyx" and "ep_ok x"
  shows "flow x' y (qxy @ out) q"
  using assms
proof cases
  case (s_write s c s' r)
  from chan_write_effect [OF s_write(4)] assms(3) obtain b t where
    e: "c = ch x\<lparr>sendbuf := b\<rparr>" "s = t @ s'" "cbuf_list b = cbuf_list (sendbuf (ch x)) @ t"
    by (auto simp: ep_ok_def)
  have u: "unsent x' = unsent x @ t" and len: "length (unsent x) \<le> length (wr x)"
    using s_write e assms(3) unsent_length [OF assms(3)] by (auto simp: ep_defs ep_ok_def split: tx_phase.splits)
  from assms(2) obtain W ws where "windows x y qyx W ws" by (auto simp: flow_def)
  then have "windows x' y qyx W ws" using u s_write e len by (auto simp: windows_def tx_len_def)
  then show ?thesis using assms(2) u s_write e by (auto simp: flow_def)
next
  case (s_read n c s)
  from chan_read_effect [OF s_read(4)] assms(3) obtain b where
    "c = set_flag CF_WINDOW (ch x\<lparr>recvbuf := b, recvseq := recvseq (ch x) + of_nat (length s)\<rparr>)"
    by (auto simp: ep_ok_def)
  with s_read show ?thesis using assms(2) by (auto intro!: flow_same_x [OF assms(2)] simp: ep_defs split: tx_phase.splits)
next
  case (s_close c r w)
  from chan_close_same [OF s_close(4)] s_close show ?thesis
    using assms(2) by (auto intro!: flow_same_x [OF assms(2)] simp: ep_defs same_data_def split: tx_phase.splits)
next
  case (s_pick w0 c w)
  from chan_pick_same [OF s_pick(5)] s_pick show ?thesis
    using assms(2) by (auto intro!: flow_same_x [OF assms(2)] simp: ep_defs same_data_def split: tx_phase.splits)
next
  case (s_prepare w h n)
  from assms(2) obtain W ws where w: "windows x y qyx W ws" by (auto simp: flow_def)
  have sb: "unsent x = sbytes x" "unsent x' = sbytes x" "tx_len x = 0" "tx_len x' = n"
    using s_prepare by (simp_all add: ep_defs)
  have c: "cbuf_ok (sendbuf (ch x))" "unat (sendmss (ch x)) \<le> 1024" using assms(3) by (simp_all add: ep_ok_def)
  let ?C = "length (wr x) - length (sbytes x)"
  have W: "?C \<le> W" "W \<le> length (rd y) + 16384" "sendwin (ch x) = of_nat W"
    using w sb flow_bound(2) [OF assms(2) w] by (simp_all add: windows_def)
  have "sendseq (ch x) = of_nat ?C" using assms(3) by (simp add: ep_ok_def)
  moreover have "length (rd y) \<le> ?C" using assms(2) sb(1) by (auto simp: flow_def)
  then have "W - ?C < 4294967296" using W by simp
  ultimately have "unat (sendwin (ch x) - sendseq (ch x)) = W - ?C" using W(1,3) window_diff [of ?C W] by simp
  then have "data_size (ch x) \<le> W - ?C" using data_size_bounds(3) [OF c] by simp
  then have "n \<le> W - ?C" using s_prepare(5) by (auto simp: sender_prepare_def split: if_splits)
  then have "?C + n \<le> W" using W(1) by simp
  then have "windows x' y qyx W ws" using w sb s_prepare by (simp add: windows_def)
  then show ?thesis using assms(2) sb s_prepare by (auto simp: flow_def)
next
  case (s_send h n rs rs' t)
  have n: "n \<le> length (sbytes x)" "header_ok h n" "cbuf_ok (sendbuf (ch x))"
    using assms(3) s_send(4) by (simp_all add: ep_ok_def tx_ok_def)
  let ?p = "Pkt h t"
  have pay: "payload ?p = take n (sbytes x)"
    using sent_payload [OF n(3) _ s_send(5,6)] n(1) by (simp add: sbytes_def)
  have d: "data_of ?p = take n (sbytes x)"
    using n(2) pay by (cases h) (auto simp: data_of_def header_ok_def)
  have u: "unsent x = sbytes x" "unsent x' = drop n (sbytes x)" "tx_len x = n" "tx_len x' = 0"
    using s_send by (simp_all add: ep_defs)
  from assms(2) obtain W ws where w: "windows x y qyx W ws" by (auto simp: flow_def)
  have "length (sbytes x) \<le> length (wr x)" using assms(3) by (simp add: ep_ok_def)
  then have "windows x' y qyx W ws" using w u n(1) s_send by (simp add: windows_def)
  then have "\<exists>W ws. windows x' y q W ws" using s_send(2) by blast
  moreover obtain e where e: "wr x = rd y @ rbytes y @ arriving y @ e @ unsent x" "\<not> bad y \<longrightarrow> e = datas qxy"
    using assms(2) by (auto simp: flow_def)
  then have "wr x' = rd y @ rbytes y @ arriving y @ (e @ take n (sbytes x)) @ unsent x' \<and>
      (\<not> bad y \<longrightarrow> e @ take n (sbytes x) = datas (qxy @ out))"
    using u(1,2) d s_send by simp
  then have "\<exists>e. wr x' = rd y @ rbytes y @ arriving y @ e @ unsent x' \<and> (\<not> bad y \<longrightarrow> e = datas (qxy @ out))"
    by blast
  ultimately show ?thesis by (simp add: flow_def)
next
  case (s_commit n)
  have n: "n \<le> length (cbuf_list (sendbuf (ch x)))" using assms(3) s_commit(4) by (simp add: ep_ok_def tx_ok_def sbytes_def)
  from cbuf_drop_ok [OF _ this] assms(3) have
    "cbuf_list (cbuf_drop (sendbuf (ch x)) n) = drop n (cbuf_list (sendbuf (ch x)))" by (auto simp: ep_ok_def)
  with s_commit show ?thesis
    using assms(2) by (auto intro!: flow_same_x [OF assms(2)] simp: ep_defs sender_commit_def split: tx_phase.splits)
next
  case (s_header h s)
  note f = receive_header_frame [of x h]
  have same: "unsent (receive_header x h) = unsent x" "tx_len (receive_header x h) = tx_len x"
    by (auto simp: ep_defs f split: tx_phase.splits)
  from s_header have fl: "flow x y qxy (Pkt h s # q)" using assms(2) by simp
  show ?thesis
  proof (cases "sendwin (ch (receive_header x h)) = sendwin (ch x)")
    case True
    then show ?thesis using s_header flow_pop(1) [OF fl] same f by (auto intro: flow_same_x)
  next
    case False
    with receive_header_win [OF s_header(6), of x]
    have hw: "win_of (hdr (Pkt h s)) = [sendwin (ch (receive_header x h))]" by simp
    have "flow (receive_header x h) y qxy q"
      by (rule flow_pop(2) [OF fl hw refl]) (simp_all add: same f)
    then show ?thesis by (simp add: s_header(2,3))
  qed
next
  case (s_data_check j len s)
  then have "flow x y qxy q" using assms(2) flow_pop(1) [of x y qxy "Pkt (MH_DATA j len) s" q] by simp
  then have "flow x' y qxy q"
    by (rule flow_same_x) (simp_all add: s_data_check(2) unsent_def sbytes_def tx_len_def cong: tx_phase.case_cong)
  then show ?thesis by (simp add: s_data_check(3))
next
  case (s_data_store s)
  then show ?thesis using assms(2)
    by (auto intro!: flow_same_x [OF assms(2)] simp: ep_defs chan_data_store_def split: tx_phase.splits)
qed

text \<open>The receiver's side steps.\<close>

lemma flow_same_y:
  assumes "flow x y qxy qyx" and "rd y' = rd y" and "rbytes y' = rbytes y" and "arriving y' = arriving y"
    and "tx_wins y' = tx_wins y" and "bad y' = bad y"
  shows "flow x y' qxy qyx"
proof -
  from assms(1) obtain W ws where "windows x y qyx W ws" by (auto simp: flow_def)
  then have "windows x y' qyx W ws" using assms by (auto simp: windows_def)
  then have "\<exists>W ws. windows x y' qyx W ws" by blast
  then show ?thesis using assms by (simp add: flow_def)
qed

lemma flow_windows: "flow x y qxy qyx \<Longrightarrow> \<exists>W ws. windows x y' qyx' W ws \<Longrightarrow>
    rd y' @ rbytes y' @ arriving y' = rd y @ rbytes y @ arriving y \<Longrightarrow> bad y' = bad y \<Longrightarrow> flow x y' qxy qyx'"
  by (simp add: flow_def) (metis append.assoc)

lemma flow_step_y:
  assumes "ep_step i y qxy y' q out" and "flow x y qxy qyx" and "ep_ok y" and "\<forall>p \<in> set qxy. pkt_ok p"
    and fit: "length (arriving y) \<le> cbuf_avail (recvbuf (ch y))"
  shows "flow x y' q (qyx @ out)"
proof -
  from assms(2) obtain W ws where w: "windows x y qyx W ws" by (auto simp: flow_def)
  from assms(1) show ?thesis
  proof cases
    case (s_write s c s' r)
    from chan_write_effect [OF s_write(4)] assms(3) obtain b where "c = ch y\<lparr>sendbuf := b\<rparr>"
      by (auto simp: ep_ok_def)
    with s_write show ?thesis
      by (auto intro!: flow_same_y [OF assms(2)] simp: ep_defs)
  next
    case (s_read n c s)
    from chan_read_effect [OF s_read(4)] assms(3) obtain b where
      c: "c = set_flag CF_WINDOW (ch y\<lparr>recvbuf := b, recvseq := recvseq (ch y) + of_nat (length s)\<rparr>)"
      "cbuf_list (recvbuf (ch y)) = s @ cbuf_list b"
      by (auto simp: ep_ok_def)
    have "windows x y' qyx W ws" using w s_read by (auto simp: windows_def ep_defs sorted_append)
    then have "\<exists>W ws. windows x y' qyx W ws" by blast
    then have "flow x y' qxy qyx" using c s_read
      by (intro flow_windows [OF assms(2)]) (auto simp: ep_defs)
    then show ?thesis by (simp add: s_read(2,3))
  next
    case (s_close c r w)
    from chan_close_same [OF s_close(4)] s_close show ?thesis
      by (auto intro!: flow_same_y [OF assms(2)] simp: ep_defs same_data_def)
  next
    case (s_pick w0 c w)
    from chan_pick_same [OF s_pick(5)] s_pick show ?thesis
      by (auto intro!: flow_same_y [OF assms(2)] simp: ep_defs same_data_def)
  next
    case (s_prepare w1 h n)
    have win: "chan_window (ch y) = of_nat (length (rd y) + 16384)"
      using assms(3) by (simp add: chan_window_def ep_ok_def)
    have tw: "tx_wins y = []" "tx_wins y' = win_of h" using s_prepare by (simp_all add: ep_defs)
    have "win_of h = [] \<or> win_of h = [chan_window (ch y)]"
      using s_prepare(5) by (auto simp: sender_prepare_def win_of_def split: if_splits)
    then have "windows x y' qyx W ws \<or> windows x y' qyx W (ws @ [length (rd y) + 16384])"
    proof
      assume "win_of h = []"
      then show ?thesis using w tw s_prepare by (simp add: windows_def)
    next
      assume "win_of h = [chan_window (ch y)]"
      then show ?thesis using w tw s_prepare win by (auto simp: windows_def sorted_append)
    qed
    then have "\<exists>W ws. windows x y' qyx W ws" by blast
    then have "flow x y' qxy qyx" using s_prepare
      by (intro flow_windows [OF assms(2)]) (auto simp: ep_defs)
    then show ?thesis by (simp add: s_prepare(2,3))
  next
    case (s_send h n rs rs' t)
    have tw: "tx_wins y = win_of h" "tx_wins y' = []" using s_send by (simp_all add: ep_defs)
    have "windows x y' (qyx @ out) W ws" using w tw s_send by (simp add: windows_def)
    then have "\<exists>W ws. windows x y' (qyx @ out) W ws" by blast
    then have "flow x y' qxy (qyx @ out)" using s_send
      by (intro flow_windows [OF assms(2)]) (auto simp: ep_defs)
    then show ?thesis by (simp add: s_send(2))
  next
    case (s_commit n)
    then show ?thesis
      by (auto intro!: flow_same_y [OF assms(2)] simp: ep_defs sender_commit_def)
  next
    case (s_header h s)
    note f = receive_header_frame [of y h]
    have same: "rbytes y' = rbytes y" "arriving y' = arriving y" "tx_wins y' = tx_wins y" "rd y' = rd y"
      using s_header by (simp_all add: ep_defs f)
    have d: "datas qxy = datas q" using s_header by (cases h) (auto simp: data_of_def)
    have "windows x y' qyx W ws" using w same by (simp add: windows_def)
    then have "\<exists>W ws. windows x y' qyx W ws" by blast
    then show ?thesis using assms(2) same d s_header(3,4) by (auto simp: flow_def)
  next
    case (s_data_check j len s)
    have same: "rbytes y' = rbytes y" "tx_wins y' = tx_wins y" "rd y' = rd y"
      using s_data_check by (auto simp: ep_defs)
    have d: "datas qxy = s @ datas q" using s_data_check by (simp add: data_of_def)
    have ar: "arriving y = []" using s_data_check by (simp add: ep_defs)
    have ar': "\<not> bad y' \<Longrightarrow> arriving y' = s" using s_data_check by (auto simp: ep_defs split: if_splits)
    have bd: "bad y' \<Longrightarrow> arriving y' = []" using s_data_check by (auto simp: ep_defs split: if_splits)
    have "windows x y' qyx W ws" using w same by (simp add: windows_def)
    then have win: "\<exists>W ws. windows x y' qyx W ws" by blast
    have "wr x = rd y @ rbytes y @ s @ datas q @ unsent x"
      using assms(2) s_data_check d ar by (auto simp: flow_def)
    then have "\<exists>e. wr x = rd y' @ rbytes y' @ arriving y' @ e @ unsent x \<and> (\<not> bad y' \<longrightarrow> e = datas q)"
      using ar' bd same by (cases "bad y'") auto
    with win show ?thesis by (simp add: flow_def s_data_check(3))
  next
    case (s_data_store s)
    have s: "length s \<le> cbuf_avail (recvbuf (ch y))" "cbuf_ok (recvbuf (ch y))"
      using fit assms(3) s_data_store by (simp_all add: arriving_def ep_ok_def)
    have b: "rbytes y' = rbytes y @ s" "arriving y = s" "arriving y' = []" "rd y' = rd y" "tx_wins y' = tx_wins y"
      using ring.store [OF s(2,1)] s_data_store by (simp_all add: ep_defs chan_data_store_def)
    have "windows x y' qyx W ws" using w b by (simp add: windows_def)
    then have "\<exists>W ws. windows x y' qyx W ws" by blast
    then have "flow x y' qxy qyx" using b s_data_store
      by (intro flow_windows [OF assms(2)]) auto
    then show ?thesis by (simp add: s_data_store(2,3))
  qed
qed

section \<open>The invariant of the system\<close>

definition net_inv :: "net \<Rightarrow> bool" where
  "net_inv s \<longleftrightarrow> ep_ok (epa s) \<and> ep_ok (epb s) \<and> (\<forall>p \<in> set (qab s). pkt_ok p) \<and> (\<forall>p \<in> set (qba s). pkt_ok p) \<and>
     flow (epa s) (epb s) (qab s) (qba s) \<and> flow (epb s) (epa s) (qba s) (qab s)"

lemma flow_fits:
  assumes "flow x y qxy qyx" and "ep_ok y"
  shows "length (arriving y) \<le> cbuf_avail (recvbuf (ch y))"
    and "\<not> bad y \<Longrightarrow> length (rbytes y @ arriving y @ datas qxy) \<le> 16384"
proof -
  from assms(1) obtain W ws d where w: "windows x y qyx W ws"
    and e: "wr x = rd y @ rbytes y @ arriving y @ d @ unsent x" "\<not> bad y \<longrightarrow> d = datas qxy"
    by (auto simp: flow_def)
  have "length (wr x) - length (unsent x) \<le> length (rd y) + 16384"
    using w by (auto simp: windows_def)
  with e(1) have le: "length (rbytes y) + length (arriving y) + length d \<le> 16384" by simp
  then show "\<not> bad y \<Longrightarrow> length (rbytes y @ arriving y @ datas qxy) \<le> 16384" using e(2) by simp
  have "cbuf_ok (recvbuf (ch y))" "csize (recvbuf (ch y)) = 16384" using assms(2) by (simp_all add: ep_ok_def)
  then show "length (arriving y) \<le> cbuf_avail (recvbuf (ch y))"
    using le ring.avail [of "recvbuf (ch y)"] by (simp add: rbytes_def)
qed

lemma net_inv_start: "net_inv net_start"
proof -
  have "windows (epa net_start) (epb net_start) [] 0 []" "windows (epb net_start) (epa net_start) [] 0 []"
    by (simp_all add: windows_def net_start_def ep_new_def chan_new_def set_flag_def ep_defs)
  then have "\<exists>W ws. windows (epa net_start) (epb net_start) [] W ws" "\<exists>W ws. windows (epb net_start) (epa net_start) [] W ws"
    by blast+
  then show ?thesis
    by (simp add: net_inv_def flow_def)
      (simp add: ep_ok_def net_start_def ep_new_def chan_new_def set_flag_def ep_defs CHAN_MAXSEGSIZE_def)
qed

lemma net_inv_step: "net_step i s s' \<Longrightarrow> net_inv s \<Longrightarrow> net_inv s'"
proof (induction rule: net_step.cases)
  case (n_a s e q out)
  then have i: "ep_ok (epa s)" "ep_ok (epb s)" "\<forall>p \<in> set (qba s). pkt_ok p" "\<forall>p \<in> set (qab s). pkt_ok p"
    "flow (epa s) (epb s) (qab s) (qba s)" "flow (epb s) (epa s) (qba s) (qab s)"
    by (simp_all add: net_inv_def)
  note st = n_a(3)
  show ?case
    using ep_ok_step [OF st i(1,3) flow_fits(1) [OF i(6,1)]] flow_step_x [OF st i(5,1)]
      flow_step_y [OF st i(6,1,3) flow_fits(1) [OF i(6,1)]] i n_a(2)
    by (auto simp: net_inv_def)
next
  case (n_b s e q out)
  then have i: "ep_ok (epa s)" "ep_ok (epb s)" "\<forall>p \<in> set (qba s). pkt_ok p" "\<forall>p \<in> set (qab s). pkt_ok p"
    "flow (epa s) (epb s) (qab s) (qba s)" "flow (epb s) (epa s) (qba s) (qab s)"
    by (simp_all add: net_inv_def)
  note st = n_b(3)
  show ?case
    using ep_ok_step [OF st i(2,4) flow_fits(1) [OF i(5,2)]] flow_step_x [OF st i(6,2)]
      flow_step_y [OF st i(5,2,4) flow_fits(1) [OF i(5,2)]] i n_b(2)
    by (auto simp: net_inv_def)
qed

lemma reachable_inv: "reachable i s \<Longrightarrow> net_inv s"
  by (induction rule: reachable.induct) (auto intro: net_inv_start net_inv_step)

subsection \<open>Running the system\<close>

text \<open>The steps as a function, to run the system on a schedule.\<close>

datatype act = A_write string | A_read nat | A_close | A_pick | A_prepare | A_send "wres list" | A_commit | A_recv | A_store

definition ep_act :: "8 word \<Rightarrow> act \<Rightarrow> ep \<Rightarrow> pkt list \<Rightarrow> (ep \<times> pkt list \<times> pkt list) option" where
  "ep_act i a e q =
     (case a of
        A_write s \<Rightarrow> (case chan_write (ch e) s of
            Some (c, s', r) \<Rightarrow> Some (e\<lparr>ch := c, wr := wr e @ take (length s - length s') s\<rparr>, q, []) | None \<Rightarrow> None)
      | A_read n \<Rightarrow> (case chan_read (ch e) n of
            Some (Done (c, Inr s)) \<Rightarrow> Some (e\<lparr>ch := c, rd := rd e @ s\<rparr>, q, []) | _ \<Rightarrow> None)
      | A_close \<Rightarrow> Some (e\<lparr>ch := fst (chan_close (ch e))\<rparr>, q, [])
      | A_pick \<Rightarrow> (case (tx e, chan_pick (ch e) 0) of
            (T_idle, (c, Some w)) \<Rightarrow> Some (e\<lparr>ch := c, tx := T_picked w\<rparr>, q, []) | _ \<Rightarrow> None)
      | A_prepare \<Rightarrow> (case tx e of
            T_picked w \<Rightarrow> map_option (\<lambda>(h, n). (e\<lparr>tx := T_ready h n\<rparr>, q, [])) (sender_prepare (ch e) i w) | _ \<Rightarrow> None)
      | A_send rs \<Rightarrow> (case tx e of
            T_ready h n \<Rightarrow>
              let iov = sender_iov h (sendbuf (ch e)) n in
              (case sock_writev (Suc (length rs)) script_socket (rs, []) iov of
                 Some ((rs', out), r) \<Rightarrow>
                   if whole_writes rs iov \<and> r = 0 \<and> take (length (mh_bytes h)) out = mh_bytes h
                   then Some (e\<lparr>tx := (if n = 0 then T_idle else T_sent n)\<rparr>, q, [Pkt h (drop (length (mh_bytes h)) out)])
                   else None
               | None \<Rightarrow> None)
          | _ \<Rightarrow> None)
      | A_commit \<Rightarrow> (case tx e of
            T_sent n \<Rightarrow> Some (e\<lparr>ch := sender_commit (ch e) n, tx := T_idle\<rparr>, q, []) | _ \<Rightarrow> None)
      | A_recv \<Rightarrow> (case (bad e, rx e, q) of
            (False, None, Pkt h s # q') \<Rightarrow>
              (case h of
                 MH_DATA j len \<Rightarrow>
                   Some (if chan_data_ok (ch e) (unat len) then e\<lparr>rx := Some s\<rparr> else e\<lparr>bad := True\<rparr>, q', [])
               | _ \<Rightarrow> Some (receive_header e h, q', [])) | _ \<Rightarrow> None)
      | A_store \<Rightarrow> (case rx e of Some s \<Rightarrow> Some (e\<lparr>ch := chan_data_store (ch e) s, rx := None\<rparr>, q, []) | None \<Rightarrow> None))"

lemma ep_act_step: "ep_act i a e q = Some (e', q', out) \<Longrightarrow> ep_step i e q e' q' out"
proof (cases a)
  case (A_recv)
  moreover assume "ep_act i a e q = Some (e', q', out)"
  ultimately obtain h s where q: "\<not> bad e" "rx e = None" "q = Pkt h s # q'" "out = []"
    and e: "e' = (case h of MH_DATA j len \<Rightarrow>
        if chan_data_ok (ch e) (unat len) then e\<lparr>rx := Some s\<rparr> else e\<lparr>bad := True\<rparr> | _ \<Rightarrow> receive_header e h)"
    by (auto simp: ep_act_def split: bool.splits option.splits list.splits pkt.splits mux_header.splits if_splits)
  show ?thesis
  proof (cases "\<exists>j len. h = MH_DATA j len")
    case True
    then show ?thesis using q e by (auto simp: ep_step.s_data_check)
  next
    case False
    then have "e' = receive_header e h" using e by (cases h) auto
    then show ?thesis using q False ep_step.s_header [of e h i s q'] by auto
  qed
next
  case A_close
  moreover assume "ep_act i a e q = Some (e', q', out)"
  ultimately show ?thesis using ep_step.s_close [of e] by (cases "chan_close (ch e)") (auto simp: ep_act_def)
next
  case (A_send rs)
  moreover assume "ep_act i a e q = Some (e', q', out)"
  ultimately obtain h n rs' w where st: "tx e = T_ready h n" "whole_writes rs (sender_iov h (sendbuf (ch e)) n)"
      "sock_writev (Suc (length rs)) script_socket (rs, []) (sender_iov h (sendbuf (ch e)) n) = Some ((rs', w), 0)"
      "take (length (mh_bytes h)) w = mh_bytes h"
    and e: "e' = e\<lparr>tx := (if n = 0 then T_idle else T_sent n)\<rparr>" "q' = q" "out = [Pkt h (drop (length (mh_bytes h)) w)]"
    by (auto simp: ep_act_def Let_def simp del: sock_writev.simps split: tx_phase.splits option.splits if_splits)
  have "w = mh_bytes h @ drop (length (mh_bytes h)) w" by (metis append_take_drop_id st(4))
  with ep_step.s_send [OF st(1,2)] st(3) show ?thesis unfolding e by metis
qed (auto simp: ep_act_def split: option.splits prod.splits tx_phase.splits wait.splits sum.splits
    intro: ep_step.intros)

fun net_run :: "8 word \<Rightarrow> net \<Rightarrow> (bool \<times> act) list \<Rightarrow> net option" where
  "net_run i s [] = Some s"
| "net_run i s ((True, a) # as) =
     (case ep_act i a (epa s) (qba s) of
        None \<Rightarrow> None | Some (e, q, out) \<Rightarrow> net_run i (s\<lparr>epa := e, qba := q, qab := qab s @ out\<rparr>) as)"
| "net_run i s ((False, a) # as) =
     (case ep_act i a (epb s) (qab s) of
        None \<Rightarrow> None | Some (e, q, out) \<Rightarrow> net_run i (s\<lparr>epb := e, qab := q, qba := qba s @ out\<rparr>) as)"

lemma net_run_reachable: "reachable i s \<Longrightarrow> net_run i s as = Some s' \<Longrightarrow> reachable i s'"
proof (induction as arbitrary: s)
  case (Cons p as)
  obtain left a where p: "p = (left, a)" by force
  show ?case
  proof (cases left)
    case True
    with p Cons.prems(2) obtain e q out where e: "ep_act i a (epa s) (qba s) = Some (e, q, out)"
      and r: "net_run i (s\<lparr>epa := e, qba := q, qab := qab s @ out\<rparr>) as = Some s'"
      by (auto split: option.splits)
    from net_step.n_a [OF ep_act_step [OF e]] Cons.prems(1) show ?thesis
      by (intro Cons.IH [OF _ r]) (rule reachable.r_step)
  next
    case False
    with p Cons.prems(2) obtain e q out where e: "ep_act i a (epb s) (qab s) = Some (e, q, out)"
      and r: "net_run i (s\<lparr>epb := e, qab := q, qba := qba s @ out\<rparr>) as = Some s'"
      by (auto split: option.splits)
    from net_step.n_b [OF ep_act_step [OF e]] Cons.prems(1) show ?thesis
      by (intro Cons.IH [OF _ r]) (rule reachable.r_step)
  qed
qed simp

text \<open>A connection, and two bytes on their way, in three writes and after an interruption.\<close>

definition demo_open :: "(bool \<times> act) list" where
  "demo_open = map (Pair True) [A_pick, A_prepare, A_send []] @ map (Pair False) [A_recv, A_pick, A_prepare, A_send []] @
     [(True, A_recv)]"

definition demo_send :: "(bool \<times> act) list" where
  "demo_send = demo_open @ map (Pair True) [A_write ''hi'', A_pick, A_prepare, A_send [Wrote 3, WIntr, Wrote 2]]"

lemmas run_defs = ep_act_def chan_pick_def has_flag_def set_flag_def sender_prepare_def chan_window_def
  sender_iov_def sender_commit_def receive_header_def chan_on_connect_def chan_on_accept_def chan_on_window_def
  chan_on_close_def chan_data_ok_def chan_data_store_def chan_close_def chan_read_def data_size_def
  cbuf_count_def cbuf_avail_def cbuf_store_def cbuf_advance_def cbuf_put_def cbuf_get_def cbuf_peek_def cbuf_drop_def
  memput_def wrap_def cbuf_new_def chan_new_def ep_new_def net_start_def CHAN_MAXSEGSIZE_def chan_write.simps
  whole_writes_def u8_def be16_def be32_def

lemma demo_send_runs:
  "\<exists>s. net_run 0 net_start demo_send = Some s \<and> qab s = [Pkt (MH_DATA 0 2) ''hi''] \<and>
    \<not> bad (epb s) \<and> rx (epb s) = None"
  by (simp add: demo_send_def demo_open_def run_defs Let_def)

text \<open>
  Claim C6. On a connection where no write fails and no partial write ends exactly at the end of a
  packet's header or at the wrap of the send buffer (\<open>whole_writes\<close>, see
  \<open>sock_writev_sends\<close> for what is lost otherwise), whatever the cutting and interrupting of the writes and
  the interleaving of the application's calls, the senders and the receivers at both ends, the bytes read at one end are a prefix of the bytes written at the other, in
  both directions; as long as the reader's end has seen no protocol error, the bytes read, in
  the receive buffer, in the packets on the way and unsent are exactly those written: nothing is
  lost, duplicated or reordered by the circular buffers, by the transfers made without the lock
  or by the wrap of the 32-bit sequence numbers.
\<close>

theorem channel_is_reliable_stream:
  assumes "reachable i s"
  shows "(\<exists>d. wr (epa s) = rd (epb s) @ rbytes (epb s) @ arriving (epb s) @ d @ unsent (epa s) \<and>
      (\<not> bad (epb s) \<longrightarrow> d = datas (qab s))) \<and>
    (\<exists>d. wr (epb s) = rd (epa s) @ rbytes (epa s) @ arriving (epa s) @ d @ unsent (epb s) \<and>
      (\<not> bad (epa s) \<longrightarrow> d = datas (qba s)))"
  using reachable_inv [OF assms] by (simp_all add: net_inv_def flow_def)

text \<open>
  Claim C8. Flow control is safe on a connection whose transfers are whole in the same sense:
  in every reachable state the next data packet carries as many bytes as its header says
  and fits the free space of the receive buffer and the maximum segment size, so the receiver's
  length check never fails and the receive buffer never overflows, although the sender only
  compares 32-bit counters that wrap.
\<close>

theorem data_always_fits:
  assumes "reachable i s" and "qab s = Pkt (MH_DATA j len) t # q" and "\<not> bad (epb s)" and "rx (epb s) = None"
  shows "unat len = length t \<and> unat len \<le> cbuf_avail (recvbuf (ch (epb s))) \<and> unat len \<le> unat (recvmss (ch (epb s)))"
proof -
  have i: "ep_ok (epb s)" "flow (epa s) (epb s) (qab s) (qba s)" "pkt_ok (Pkt (MH_DATA j len) t)"
    using reachable_inv [OF assms(1)] assms(2) by (auto simp: net_inv_def)
  have b: "cbuf_ok (recvbuf (ch (epb s)))" "csize (recvbuf (ch (epb s))) = 16384" "recvmss (ch (epb s)) = 1024"
    using i(1) by (simp_all add: ep_ok_def)
  have "length (rbytes (epb s)) + length t \<le> 16384"
    using flow_fits(2) [OF i(2,1) assms(3)] assms(2) by (simp add: data_of_def)
  then show ?thesis using i(3) b ring.avail [OF b(1)] by (auto simp: pkt_ok_def header_ok_def rbytes_def)
qed

lemma demo_send_reachable: "net_run 0 net_start demo_send = Some s \<Longrightarrow> reachable 0 s"
  by (rule net_run_reachable [OF reachable.r_start])

theorem channel_is_reliable_stream_witness:
  "\<exists>s :: net. qab s = [Pkt (MH_DATA 0 2) ''hi''] \<and>
    (\<exists>d. wr (epa s) = rd (epb s) @ rbytes (epb s) @ arriving (epb s) @ d @ unsent (epa s) \<and>
      (\<not> bad (epb s) \<longrightarrow> d = datas (qab s)))"
proof -
  obtain s where "net_run 0 net_start demo_send = Some s" "qab s = [Pkt (MH_DATA 0 2) ''hi'']"
    using demo_send_runs by blast
  note c = this
  show ?thesis
    by (rule exI [of _ s], rule conjI [OF c(2) conjunct1 [OF channel_is_reliable_stream [OF demo_send_reachable [OF c(1)]]]])
qed

theorem data_always_fits_witness:
  "\<exists>s :: net. qab s = [Pkt (MH_DATA 0 2) ''hi''] \<and> unat (2 :: 16 word) = length ''hi'' \<and>
    unat (2 :: 16 word) \<le> cbuf_avail (recvbuf (ch (epb s)))"
proof -
  obtain s where "net_run 0 net_start demo_send = Some s" "qab s = [Pkt (MH_DATA 0 2) ''hi'']"
    "\<not> bad (epb s)" "rx (epb s) = None"
    using demo_send_runs by blast
  note c = this
  show ?thesis
    using data_always_fits [OF demo_send_reachable [OF c(1)] c(2-4)] c(2) by (intro exI [of _ s]) simp
qed

end
