(* ===== verification/Fattr.thy ===== *)
theory Fattr
  imports Prelude "HOL-Library.Word"
begin

unbundle bit_operations_syntax

text \<open>
  File attributes, \<open>fattr.c\<close> with the POSIX support table of \<open>fattr_posix.h\<close>: the attribute
  structure with its validity mask, the text form exchanged with the server and kept in the
  status file, merging, overriding, comparison and the modes used for checkouts and new nodes.
  The user and group caches are the record \<open>idb\<close>; where the code leaves a string for the memory
  behind it the result is \<open>Oob\<close>.
\<close>

section \<open>Types, attributes and the support table\<close>

abbreviation FT_UNKNOWN :: int where "FT_UNKNOWN \<equiv> 0"
abbreviation FT_FILE :: int where "FT_FILE \<equiv> 1"
abbreviation FT_DIRECTORY :: int where "FT_DIRECTORY \<equiv> 2"
abbreviation FT_CDEV :: int where "FT_CDEV \<equiv> 3"
abbreviation FT_BDEV :: int where "FT_BDEV \<equiv> 4"
abbreviation FT_SYMLINK :: int where "FT_SYMLINK \<equiv> 5"
abbreviation FT_MAX :: int where "FT_MAX \<equiv> 5"

type_synonym amask = "32 word"

abbreviation FA_FILETYPE :: amask where "FA_FILETYPE \<equiv> 0x0001"
abbreviation FA_MODTIME :: amask where "FA_MODTIME \<equiv> 0x0002"
abbreviation FA_SIZE :: amask where "FA_SIZE \<equiv> 0x0004"
abbreviation FA_LINKTARGET :: amask where "FA_LINKTARGET \<equiv> 0x0008"
abbreviation FA_RDEV :: amask where "FA_RDEV \<equiv> 0x0010"
abbreviation FA_OWNER :: amask where "FA_OWNER \<equiv> 0x0020"
abbreviation FA_GROUP :: amask where "FA_GROUP \<equiv> 0x0040"
abbreviation FA_MODE :: amask where "FA_MODE \<equiv> 0x0080"
abbreviation FA_FLAGS :: amask where "FA_FLAGS \<equiv> 0x0100"
abbreviation FA_LINKCOUNT :: amask where "FA_LINKCOUNT \<equiv> 0x0200"
abbreviation FA_DEV :: amask where "FA_DEV \<equiv> 0x0400"
abbreviation FA_INODE :: amask where "FA_INODE \<equiv> 0x0800"
abbreviation FA_MASK :: amask where "FA_MASK \<equiv> 0x0fff"

abbreviation FA_PERMMASK :: "32 word" where "FA_PERMMASK \<equiv> 0x1ff"
abbreviation FA_SETIDMASK :: "32 word" where "FA_SETIDMASK \<equiv> 0xe00"

definition hasa :: "amask \<Rightarrow> amask \<Rightarrow> bool" where
  "hasa m a \<longleftrightarrow> m AND a \<noteq> 0"

definition fattr_support :: "amask list" where
  "fattr_support =
     [0,
      FA_FILETYPE OR FA_MODTIME OR FA_SIZE OR FA_OWNER OR FA_GROUP OR FA_MODE OR FA_LINKCOUNT OR FA_INODE OR FA_DEV,
      FA_FILETYPE OR FA_OWNER OR FA_GROUP OR FA_MODE,
      FA_FILETYPE OR FA_RDEV OR FA_OWNER OR FA_GROUP OR FA_MODE OR FA_LINKCOUNT OR FA_DEV OR FA_INODE,
      FA_FILETYPE OR FA_RDEV OR FA_OWNER OR FA_GROUP OR FA_MODE OR FA_LINKCOUNT OR FA_DEV OR FA_INODE,
      FA_FILETYPE OR FA_LINKTARGET]"

definition fattr_supported :: "int \<Rightarrow> amask" where
  "fattr_supported t = fattr_support ! nat t"

record fattr =
  mask :: amask
  ftype :: int
  modtime :: int
  fsize :: int
  linktarget :: "string option"
  rdev :: "64 word"
  uid :: nat
  gid :: nat
  mode :: "32 word"
  flags :: "32 word"
  linkcount :: "64 word"
  dev :: "64 word"
  inode :: "64 word"

definition fattr_zero :: fattr where
  "fattr_zero = \<lparr>mask = 0, ftype = 0, modtime = 0, fsize = 0, linktarget = None, rdev = 0, uid = 0, gid = 0,
     mode = 0, flags = 0, linkcount = 0, dev = 0, inode = 0\<rparr>"

definition fattr_bogus :: fattr where
  "fattr_bogus = fattr_zero\<lparr>mask := FA_MODTIME OR FA_SIZE OR FA_MODE, ftype := FT_UNKNOWN, modtime := 1\<rparr>"

definition fattr_new :: "int \<Rightarrow> int \<Rightarrow> fattr" where
  "fattr_new t mtime =
     (let fa = fattr_zero\<lparr>ftype := t\<rparr>;
          fa = (if t \<noteq> FT_UNKNOWN then fa\<lparr>mask := mask fa OR FA_FILETYPE\<rparr> else fa);
          fa = (if mtime \<noteq> -1 then fa\<lparr>modtime := mtime, mask := mask fa OR FA_MODTIME\<rparr> else fa)
      in if hasa (fattr_supported t) FA_LINKCOUNT
         then fa\<lparr>mask := mask fa OR FA_LINKCOUNT, linkcount := 1\<rparr> else fa)"

text \<open>The array \<open>defaults\<close> that \<open>fattr_init\<close> fills.\<close>

definition fattr_default :: "int \<Rightarrow> fattr" where
  "fattr_default t =
     (let fa = fattr_new t (-1)
      in fa\<lparr>mode := (if t = FT_DIRECTORY then 0x1ff else 0x1b6), mask := mask fa OR FA_MODE\<rparr>)"

section \<open>From a stat structure\<close>

record stat =
  st_mode :: "32 word"
  st_mtime :: int
  st_size :: int
  st_rdev :: "64 word"
  st_uid :: nat
  st_gid :: nat
  st_nlink :: "64 word"
  st_dev :: "64 word"
  st_ino :: "64 word"

definition stat_type :: "32 word \<Rightarrow> int" where
  "stat_type m =
     (let f = m AND 0xf000 in
      if f = 0x8000 then FT_FILE else if f = 0x4000 then FT_DIRECTORY else if f = 0x2000 then FT_CDEV
      else if f = 0x6000 then FT_BDEV else if f = 0xa000 then FT_SYMLINK else FT_UNKNOWN)"

definition fattr_fromstat :: "stat \<Rightarrow> fattr" where
  "fattr_fromstat sb =
     (let fa = fattr_new FT_UNKNOWN (-1);
          t = stat_type (st_mode sb);
          m = FA_FILETYPE OR fattr_supported t;
          fa = fa\<lparr>ftype := t, mask := m\<rparr>;
          fa = (if hasa m FA_MODTIME then fa\<lparr>modtime := st_mtime sb\<rparr> else fa);
          fa = (if hasa m FA_SIZE then fa\<lparr>fsize := st_size sb\<rparr> else fa);
          fa = (if hasa m FA_RDEV then fa\<lparr>rdev := st_rdev sb\<rparr> else fa);
          fa = (if hasa m FA_OWNER then fa\<lparr>uid := st_uid sb\<rparr> else fa);
          fa = (if hasa m FA_GROUP then fa\<lparr>gid := st_gid sb\<rparr> else fa);
          fa = (if hasa m FA_MODE then fa\<lparr>mode := st_mode sb AND (FA_SETIDMASK OR FA_PERMMASK)\<rparr> else fa);
          fa = (if hasa m FA_LINKCOUNT then fa\<lparr>linkcount := st_nlink sb\<rparr> else fa);
          fa = (if hasa m FA_DEV then fa\<lparr>dev := st_dev sb\<rparr> else fa)
      in if hasa m FA_INODE then fa\<lparr>inode := st_ino sb\<rparr> else fa)"

section \<open>Merging and comparing\<close>

definition fattr_override :: "fattr \<Rightarrow> fattr \<Rightarrow> amask \<Rightarrow> fattr" where
  "fattr_override fa from m0 =
     (let m = m0 AND mask from
      in \<lparr>mask = mask fa OR m,
          ftype = (if hasa m FA_FILETYPE then ftype from else ftype fa),
          modtime = (if hasa m FA_MODTIME then modtime from else modtime fa),
          fsize = (if hasa m FA_SIZE then fsize from else fsize fa),
          linktarget = (if hasa m FA_LINKTARGET then linktarget from else linktarget fa),
          rdev = (if hasa m FA_RDEV then rdev from else rdev fa),
          uid = (if hasa m FA_OWNER then uid from else uid fa),
          gid = (if hasa m FA_GROUP then gid from else gid fa),
          mode = (if hasa m FA_MODE then mode from else mode fa),
          flags = (if hasa m FA_FLAGS then flags from else flags fa),
          linkcount = (if hasa m FA_LINKCOUNT then linkcount from else linkcount fa),
          dev = (if hasa m FA_DEV then dev from else dev fa),
          inode = (if hasa m FA_INODE then inode from else inode fa)\<rparr>)"

definition fattr_merge :: "fattr \<Rightarrow> fattr \<Rightarrow> fattr" where
  "fattr_merge fa from = fattr_override fa from (mask from AND NOT (mask fa))"

definition fattr_mergedefault :: "fattr \<Rightarrow> fattr" where
  "fattr_mergedefault fa = fattr_merge fa (fattr_default (ftype fa))"

definition fattr_dup :: "fattr \<Rightarrow> fattr" where
  "fattr_dup from = fattr_override (fattr_new FT_UNKNOWN (-1)) from FA_MASK"

definition fattr_umask :: "fattr \<Rightarrow> 32 word \<Rightarrow> fattr" where
  "fattr_umask fa u = (if hasa (mask fa) FA_MODE then fa\<lparr>mode := mode fa AND NOT u\<rparr> else fa)"

definition fattr_maskout :: "fattr \<Rightarrow> amask \<Rightarrow> fattr" where
  "fattr_maskout fa m =
     (let fa1 = (if hasa m FA_LINKTARGET \<and> hasa (mask fa) FA_LINKTARGET then fa\<lparr>linktarget := None\<rparr> else fa)
      in fa1\<lparr>mask := mask fa1 AND NOT m\<rparr>)"

definition fattr_forcheckout :: "fattr \<Rightarrow> 32 word \<Rightarrow> fattr" where
  "fattr_forcheckout rcs u =
     (let fa = fattr_new FT_FILE (-1) in
      if hasa (mask rcs) FA_MODE then
        fa\<lparr>mode := (if mode rcs AND 0x49 > 0 then 0x1ff else 0x1b6) AND NOT u, mask := mask fa OR FA_MODE\<rparr>
      else fa)"

definition fattr_equal :: "fattr \<Rightarrow> fattr \<Rightarrow> bool" where
  "fattr_equal fa1 fa2 =
     (let m = mask fa1 AND mask fa2 in
      if ftype fa1 = FT_UNKNOWN \<or> ftype fa2 = FT_UNKNOWN then False
      else if hasa m FA_FILETYPE \<and> ftype fa1 \<noteq> ftype fa2 then False
      else if hasa m FA_MODTIME \<and> modtime fa1 \<noteq> modtime fa2 then False
      else if hasa m FA_SIZE \<and> fsize fa1 \<noteq> fsize fa2 then False
      else if hasa m FA_LINKTARGET \<and> linktarget fa1 \<noteq> linktarget fa2 then False
      else if hasa m FA_RDEV \<and> rdev fa1 \<noteq> rdev fa2 then False
      else if hasa m FA_OWNER \<and> uid fa1 \<noteq> uid fa2 then False
      else if hasa m FA_GROUP \<and> gid fa1 \<noteq> gid fa2 then False
      else if hasa m FA_MODE \<and> mode fa1 \<noteq> mode fa2 then False
      else if hasa m FA_FLAGS \<and> flags fa1 \<noteq> flags fa2 then False
      else if hasa m FA_LINKCOUNT \<and> linkcount fa1 \<noteq> linkcount fa2 then False
      else if hasa m FA_DEV \<and> dev fa1 \<noteq> dev fa2 then False
      else if hasa m FA_INODE \<and> inode fa1 \<noteq> inode fa2 then False
      else True)"

text \<open>The mode bits that may be set, and the mode of a node that \<open>fattr_makenode\<close> creates.\<close>

definition mode_mask :: "amask \<Rightarrow> 32 word" where
  "mode_mask m = (if hasa m FA_OWNER \<and> hasa m FA_GROUP then FA_SETIDMASK OR FA_PERMMASK else FA_PERMMASK)"

text \<open>
  The system calls that change the file system. A routine is the list of the calls it makes when
  none fails; \<open>run_ops\<close> makes them in order against the file system \<open>sys\<close> and stops at the first
  that fails, which is the \<open>goto bad\<close> of the code. In \<open>Chown\<close> an id that is left alone (-1) is \<open>None\<close>.
\<close>

datatype sysop =
    Unlink string | Rmdir string | Symlink "string option" string | Mkdir string "32 word"
  | Utimes string int | Chown string "nat option" "nat option" | Chmod string "32 word" | Rename string string

fun run_ops :: "(sysop \<Rightarrow> 's \<Rightarrow> 's option) \<Rightarrow> sysop list \<Rightarrow> 's \<Rightarrow> bool \<times> 's" where
  "run_ops sys [] s = (True, s)"
| "run_ops sys (c # cs) s = (case sys c s of None \<Rightarrow> (False, s) | Some s1 \<Rightarrow> run_ops sys cs s1)"

definition fattr_makenode :: "fattr \<Rightarrow> string \<Rightarrow> sysop list" where
  "fattr_makenode fa path =
     (let md = (if hasa (mask fa) FA_MODE then mode fa AND mode_mask (mask fa) else 0x1c0) in
      if ftype fa = FT_DIRECTORY then [Mkdir path md]
      else if ftype fa = FT_SYMLINK then [Symlink (linktarget fa) path]
      else [])"

text \<open>\<open>fattr_frompath\<close> on the results of \<open>lstat\<close> or \<open>stat\<close> and of \<open>readlink\<close>, with its buffer of 1024 bytes.\<close>

definition fattr_frompath :: "stat option \<Rightarrow> string option \<Rightarrow> fattr option" where
  "fattr_frompath st link =
     (case st of None \<Rightarrow> None
      | Some sb \<Rightarrow>
          let fa = fattr_fromstat sb in
          if hasa (mask fa) FA_LINKTARGET then
            (case link of None \<Rightarrow> None
             | Some l \<Rightarrow> if min (length l) 1024 > 1023 then None else Some (fa\<lparr>linktarget := Some l\<rparr>))
          else Some fa)"

definition fattr_fromfd :: "stat option \<Rightarrow> fattr option" where
  "fattr_fromfd st = map_option fattr_fromstat st"

text \<open>What \<open>fattr_delete\<close> does to a path with these attributes.\<close>

definition fattr_delete :: "fattr \<Rightarrow> string \<Rightarrow> sysop list" where
  "fattr_delete fa path = (if ftype fa = FT_DIRECTORY then [Rmdir path] else [Unlink path])"

text \<open>The mode \<open>fattr_install\<close> gives a file, from the wanted attributes and the old file's.\<close>

definition install_mode :: "fattr \<Rightarrow> fattr option \<Rightarrow> 32 word" where
  "install_mode fa old =
     (let mm = mode_mask (mask fa AND fattr_supported (ftype fa));
          newmode = mode fa AND mm
      in case old of
           Some o1 \<Rightarrow> if hasa (mask o1) FA_MODE
                     then (newmode OR (mode o1 AND NOT mm)) AND (FA_SETIDMASK OR FA_PERMMASK) else newmode
         | None \<Rightarrow> newmode)"

text \<open>The calls of \<open>fattr_install\<close>, and the routine: -1 an error, 0 nothing to do, 1 done.\<close>

definition install_ops :: "fattr \<Rightarrow> string \<Rightarrow> string option \<Rightarrow> fattr option \<Rightarrow> sysop list" where
  "install_ops fa topath from old =
     (let m = mask fa AND fattr_supported (ftype fa);
          inplace = (from = None);
          frompath = (case from of None \<Rightarrow> topath | Some p \<Rightarrow> p)
      in (case old of
            None \<Rightarrow> []
          | Some o1 \<Rightarrow>
              (if inplace \<and> ftype fa = FT_SYMLINK \<and> ftype o1 = FT_FILE
               then [Unlink topath, Symlink (linktarget fa) topath] else []) @
              (if \<not> inplace \<and> (ftype fa = FT_DIRECTORY) \<noteq> (ftype o1 = FT_DIRECTORY)
               then (if ftype o1 = FT_DIRECTORY then [Rmdir topath] else [Unlink topath]) else [])) @
         (if hasa m FA_MODTIME then [Utimes frompath (modtime fa)] else []) @
         (if hasa m FA_OWNER \<or> hasa m FA_GROUP
          then [Chown frompath (if hasa m FA_OWNER then Some (uid fa) else None)
                  (if hasa m FA_GROUP then Some (gid fa) else None)] else []) @
         (if hasa m FA_MODE then [Chmod frompath (install_mode fa old)] else []) @
         (if \<not> inplace then [Rename frompath topath] else []))"

definition fattr_install ::
  "(sysop \<Rightarrow> 's \<Rightarrow> 's option) \<Rightarrow> fattr \<Rightarrow> string \<Rightarrow> string option \<Rightarrow> fattr option \<Rightarrow> 's \<Rightarrow> int \<times> 's" where
  "fattr_install sys fa topath from old s =
     (if from = None \<and> (\<exists>o1 \<in> set_option old. fattr_equal fa o1) then (0, s)
      else (case run_ops sys (install_ops fa topath from old) s of
              (ok, s1) \<Rightarrow> (if ok then 1 else -1, s1)))"

section \<open>The text form\<close>

record idb =
  getuserbyid :: "nat \<Rightarrow> string option"
  getuidbyname :: "string \<Rightarrow> nat option"
  getgroupbyid :: "nat \<Rightarrow> string option"
  getgidbyname :: "string \<Rightarrow> nat option"

text \<open>A piece: the length in a field of four characters, \<open>#\<close> and the value.\<close>

definition attr_piece :: "string \<Rightarrow> string" where
  "attr_piece v = take 3 (num_str 10 (length v)) @ CHR ''#'' # v"

definition encode_mask :: "idb \<Rightarrow> fattr \<Rightarrow> amask list option \<Rightarrow> amask \<Rightarrow> amask" where
  "encode_mask db fa support ignore =
     (let m = (case support of None \<Rightarrow> mask fa | Some s \<Rightarrow> mask fa AND s ! nat (ftype fa));
          m = m AND NOT ignore;
          m = (if hasa (mask fa) FA_OWNER \<and> getuserbyid db (uid fa) = None then m AND NOT FA_OWNER else m);
          m = (if hasa (mask fa) FA_GROUP \<and> getgroupbyid db (gid fa) = None then m AND NOT FA_GROUP else m)
      in if hasa (mask fa) FA_LINKCOUNT \<and> linkcount fa = 1 then m AND NOT FA_LINKCOUNT else m)"

definition encode_pieces :: "idb \<Rightarrow> fattr \<Rightarrow> amask \<Rightarrow> string list" where
  "encode_pieces db fa m =
     [num_str 16 (unat m)] @
     (if hasa m FA_FILETYPE then [int_str (ftype fa)] else []) @
     (if hasa m FA_MODTIME then [int_str (modtime fa)] else []) @
     (if hasa m FA_SIZE then [int_str (fsize fa)] else []) @
     (if hasa m FA_LINKTARGET then [the (linktarget fa)] else []) @
     (if hasa m FA_RDEV then [int_str (sint (rdev fa))] else []) @
     (if hasa m FA_OWNER then [the (getuserbyid db (uid fa))] else []) @
     (if hasa m FA_GROUP then [the (getgroupbyid db (gid fa))] else []) @
     (if hasa m FA_MODE then [num_str 8 (unat (mode fa AND mode_mask m))] else []) @
     (if hasa m FA_FLAGS then [num_str 16 (unat (flags fa))] else []) @
     (if hasa m FA_LINKCOUNT then [int_str (sint (linkcount fa))] else []) @
     (if hasa m FA_DEV then [num_str 16 (unat (dev fa))] else []) @
     (if hasa m FA_INODE then [int_str (sint (inode fa))] else [])"

text \<open>\<open>None\<close> is the NULL link target of a structure that claims to have one.\<close>

definition fattr_encode :: "idb \<Rightarrow> fattr \<Rightarrow> amask list option \<Rightarrow> amask \<Rightarrow> string option" where
  "fattr_encode db fa support ignore =
     (let m = encode_mask db fa support ignore in
      if hasa m FA_LINKTARGET \<and> linktarget fa = None then None
      else Some (concat (map attr_piece (encode_pieces db fa m))))"

text \<open>
  \<open>fattr_scanattr\<close>: \<open>Scanned fa None\<close> is the NULL return. The length in front of a piece is not
  checked against the string (\<open>len\<close> is computed and never used). \<open>Oob\<close> is a length that
  goes beyond the end of the string: the code then saves, overwrites and restores a byte of the
  memory behind the string, and for a link target or a name it goes on reading there. When the
  string is a token of a line, that memory is mostly the rest of the stream's buffer, so this need not be a
  fault; what is there is outside the model, which makes no claim about such input.
\<close>

datatype scanned = Oob | Scanned fattr "string option"

definition scan_number :: "(fattr \<Rightarrow> int \<Rightarrow> fattr) \<Rightarrow> int \<times> bool \<times> string \<Rightarrow> string \<Rightarrow> fattr \<Rightarrow> scanned" where
  "scan_number upd r next fa =
     (case r of (v, err, rest) \<Rightarrow> Scanned (upd fa v) (if err \<or> rest \<noteq> [] then None else Some next))"

definition fattr_scanattr :: "idb \<Rightarrow> fattr \<Rightarrow> amask \<Rightarrow> string option \<Rightarrow> scanned" where
  "fattr_scanattr db fa type attr =
     (case attr of
        None \<Rightarrow> Scanned fa None
      | Some s \<Rightarrow>
          (case strtoul 10 s of
             (alen, err, rest) \<Rightarrow>
               if err \<or> rest = [] \<or> hd rest \<noteq> CHR ''#'' then Scanned fa None
               else if nat alen > length (tl rest) then Oob
               else
                 let v = take (nat alen) (tl rest); next = drop (nat alen) (tl rest);
                     num = (\<lambda>upd r. scan_number upd r next fa)
                 in
                 if type = FA_MASK then num (\<lambda>fa v. fa\<lparr>mask := of_int v\<rparr>) (strtol 16 v)
                 else if type = FA_FILETYPE then
                   num (\<lambda>fa v. fa\<lparr>ftype := sint (of_int v :: 32 word)\<rparr>) (strtol 10 v)
                 else if type = FA_MODTIME then num (\<lambda>fa v. fa\<lparr>modtime := v\<rparr>) (strtol 10 v)
                 else if type = FA_SIZE then num (\<lambda>fa v. fa\<lparr>fsize := v\<rparr>) (strtol 10 v)
                 else if type = FA_LINKTARGET then Scanned (fa\<lparr>linktarget := Some v\<rparr>) (Some next)
                 else if type = FA_RDEV then num (\<lambda>fa v. fa\<lparr>rdev := of_int v\<rparr>) (strtol 16 v)
                 else if type = FA_OWNER then
                   Scanned (case getuidbyname db v of Some u \<Rightarrow> fa\<lparr>uid := u\<rparr>
                            | None \<Rightarrow> fa\<lparr>mask := mask fa AND NOT FA_OWNER\<rparr>) (Some next)
                 else if type = FA_GROUP then
                   Scanned (case getgidbyname db v of Some g \<Rightarrow> fa\<lparr>gid := g\<rparr>
                            | None \<Rightarrow> fa\<lparr>mask := mask fa AND NOT FA_GROUP\<rparr>) (Some next)
                 else if type = FA_MODE then
                   num (\<lambda>fa v. fa\<lparr>mode := of_int v AND mode_mask (mask fa)\<rparr>) (strtol 8 v)
                 else if type = FA_FLAGS then num (\<lambda>fa v. fa\<lparr>flags := of_int v\<rparr>) (strtoul 16 v)
                 else if type = FA_LINKCOUNT then num (\<lambda>fa v. fa\<lparr>linkcount := of_int v\<rparr>) (strtol 16 v)
                 else if type = FA_DEV then num (\<lambda>fa v. fa\<lparr>dev := of_int v\<rparr>) (strtol 16 v)
                 else if type = FA_INODE then num (\<lambda>fa v. fa\<lparr>inode := of_int v\<rparr>) (strtol 10 v)
                 else Scanned fa (Some next)))"

text \<open>One \<open>if (fa->mask & FA_x) next = fattr_scanattr(fa, FA_x, next)\<close>.\<close>

definition scan_if :: "idb \<Rightarrow> amask \<Rightarrow> scanned \<Rightarrow> scanned" where
  "scan_if db a sc =
     (case sc of Oob \<Rightarrow> Oob
      | Scanned fa next \<Rightarrow> if hasa (mask fa) a then fattr_scanattr db fa a next else Scanned fa next)"

definition scan_linkcount :: "idb \<Rightarrow> scanned \<Rightarrow> scanned" where
  "scan_linkcount db sc =
     (case sc of Oob \<Rightarrow> Oob
      | Scanned fa next \<Rightarrow>
          if hasa (mask fa) FA_LINKCOUNT then fattr_scanattr db fa FA_LINKCOUNT next
          else if hasa (fattr_supported (ftype fa)) FA_LINKCOUNT
               then Scanned (fa\<lparr>mask := mask fa OR FA_LINKCOUNT, linkcount := 1\<rparr>) next
          else Scanned fa next)"

definition decode_type :: "idb \<Rightarrow> fattr \<Rightarrow> string \<Rightarrow> scanned" where
  "decode_type db fa next =
     (if hasa (mask fa) FA_FILETYPE then
        (case fattr_scanattr db fa FA_FILETYPE (Some next) of
           Scanned fa1 (Some n1) \<Rightarrow>
             Scanned (if ftype fa1 < 0 \<or> ftype fa1 > FT_MAX then fa1\<lparr>ftype := FT_UNKNOWN\<rparr> else fa1) (Some n1)
         | r \<Rightarrow> r)
      else Scanned (fa\<lparr>mask := mask fa OR FA_FILETYPE, ftype := FT_UNKNOWN\<rparr>) (Some next))"

text \<open>The result: \<open>None\<close> when a read or write is out of bounds, \<open>Some None\<close> the NULL return.\<close>

definition fattr_decode :: "idb \<Rightarrow> string \<Rightarrow> fattr option option" where
  "fattr_decode db attr =
     (case fattr_scanattr db (fattr_new FT_UNKNOWN (-1)) FA_MASK (Some attr) of
        Oob \<Rightarrow> None
      | Scanned fa None \<Rightarrow> Some None
      | Scanned fa (Some next) \<Rightarrow>
          if sint (mask fa AND NOT FA_MASK) > 0 then Some None
          else (case decode_type db fa next of
             Oob \<Rightarrow> None
           | Scanned fa1 None \<Rightarrow> Some None
           | Scanned fa1 (Some n1) \<Rightarrow>
               let fa2 = fa1\<lparr>mask := mask fa1 AND fattr_supported (ftype fa1)\<rparr>;
                   scans = [FA_MODTIME, FA_SIZE, FA_LINKTARGET, FA_RDEV, FA_OWNER, FA_GROUP, FA_MODE, FA_FLAGS];
                   sc = foldl (\<lambda>sc a. scan_if db a sc) (Scanned fa2 (Some n1)) scans;
                   sc = scan_linkcount db sc;
                   sc = foldl (\<lambda>sc a. scan_if db a sc) sc [FA_DEV, FA_INODE]
               in (case sc of
                     Oob \<Rightarrow> None
                   | Scanned fa3 None \<Rightarrow> Some None
                   | Scanned fa3 (Some _) \<Rightarrow> Some (Some fa3))))"

section \<open>Reading a piece back\<close>

lemma num_str_3: "n < 1000 \<Longrightarrow> length (num_str 10 n) \<le> 3"
proof -
  assume n: "n < 1000"
  have s: "length (num_str 10 m) = (if m < 10 then 1 else Suc (length (num_str 10 (m div 10))))" for m :: nat
    by (subst num_str.simps) simp
  have "n div 10 div 10 < 10" using n by simp
  then show ?thesis using s [of n] s [of "n div 10"] s [of "n div 10 div 10"] by simp
qed

lemma not_starts_hash [simp]: "\<not> starts_digit b (CHR ''#'' # s)"
  by (simp add: starts_digit_def digit_val_def)

lemma strtoul_piece:
  assumes "length v < 1000"
  shows "strtoul 10 (attr_piece v @ rest) = (int (length v), False, CHR ''#'' # v @ rest)"
proof -
  have "attr_piece v @ rest = num_str 10 (length v) @ CHR ''#'' # v @ rest"
    using num_str_3 [OF assms] by (simp add: attr_piece_def)
  moreover have "strtol_gen (- ULONG_MAX) ULONG_MAX 10 (num_str 10 (length v) @ CHR ''#'' # v @ rest)
      = (int (length v), False, CHR ''#'' # v @ rest)"
    using assms by (intro strtol_gen_num_str) (auto simp: int_limits)
  ultimately show ?thesis using assms by (simp add: strtoul_def)
qed

lemma strtol_num_str: "2 \<le> b \<Longrightarrow> b \<le> 16 \<Longrightarrow> int n \<le> LONG_MAX \<Longrightarrow> strtol b (num_str b n) = (int n, False, [])"
  using strtol_gen_num_str [of b "[]" LONG_MIN n LONG_MAX] by (simp add: strtol_def int_limits starts_digit_def)

lemma strtol_int_str: "LONG_MIN \<le> i \<Longrightarrow> i \<le> LONG_MAX \<Longrightarrow> strtol 10 (int_str i) = (i, False, [])"
  using strtol_gen_int_str [of LONG_MIN i LONG_MAX "[]"] by (simp add: strtol_def starts_digit_def)

text \<open>The piece a scan expects, when the mask says there is one.\<close>

definition piece_if :: "bool \<Rightarrow> string \<Rightarrow> string" where
  "piece_if c v = (if c then attr_piece v else [])"

lemma scan_piece:
  assumes "length v < 1000"
  shows "fattr_scanattr db fa a (Some (attr_piece v @ nxt)) =
    (let num = (\<lambda>upd r. scan_number upd r nxt fa) in
                 if a = FA_MASK then num (\<lambda>fa v. fa\<lparr>mask := of_int v\<rparr>) (strtol 16 v)
                 else if a = FA_FILETYPE then
                   num (\<lambda>fa v. fa\<lparr>ftype := sint (of_int v :: 32 word)\<rparr>) (strtol 10 v)
                 else if a = FA_MODTIME then num (\<lambda>fa v. fa\<lparr>modtime := v\<rparr>) (strtol 10 v)
                 else if a = FA_SIZE then num (\<lambda>fa v. fa\<lparr>fsize := v\<rparr>) (strtol 10 v)
                 else if a = FA_LINKTARGET then Scanned (fa\<lparr>linktarget := Some v\<rparr>) (Some nxt)
                 else if a = FA_RDEV then num (\<lambda>fa v. fa\<lparr>rdev := of_int v\<rparr>) (strtol 16 v)
                 else if a = FA_OWNER then
                   Scanned (case getuidbyname db v of Some u \<Rightarrow> fa\<lparr>uid := u\<rparr>
                            | None \<Rightarrow> fa\<lparr>mask := mask fa AND NOT FA_OWNER\<rparr>) (Some nxt)
                 else if a = FA_GROUP then
                   Scanned (case getgidbyname db v of Some g \<Rightarrow> fa\<lparr>gid := g\<rparr>
                            | None \<Rightarrow> fa\<lparr>mask := mask fa AND NOT FA_GROUP\<rparr>) (Some nxt)
                 else if a = FA_MODE then
                   num (\<lambda>fa v. fa\<lparr>mode := of_int v AND mode_mask (mask fa)\<rparr>) (strtol 8 v)
                 else if a = FA_FLAGS then num (\<lambda>fa v. fa\<lparr>flags := of_int v\<rparr>) (strtoul 16 v)
                 else if a = FA_LINKCOUNT then num (\<lambda>fa v. fa\<lparr>linkcount := of_int v\<rparr>) (strtol 16 v)
                 else if a = FA_DEV then num (\<lambda>fa v. fa\<lparr>dev := of_int v\<rparr>) (strtol 16 v)
                 else if a = FA_INODE then num (\<lambda>fa v. fa\<lparr>inode := of_int v\<rparr>) (strtol 10 v)
                 else Scanned fa (Some nxt))"
  using strtoul_piece [OF assms, of nxt] by (simp add: fattr_scanattr_def Let_def)

lemma num_str_short: "2 \<le> b \<Longrightarrow> n < b ^ k \<Longrightarrow> 0 < k \<Longrightarrow> length (num_str b n) \<le> k"
proof (induction k arbitrary: n)
  case (Suc k)
  show ?case
  proof (cases "n < b")
    case True
    then show ?thesis by (subst num_str.simps) simp
  next
    case False
    then have "0 < k" using Suc.prems by (cases k) auto
    moreover have "n div b < b ^ k" using Suc.prems(2) by (simp add: less_mult_imp_div_less mult.commute)
    ultimately have "length (num_str b (n div b)) \<le> k" using Suc by simp
    then show ?thesis using False Suc.prems(1) by (subst num_str.simps) simp
  qed
qed simp

lemma int_str_short: "LONG_MIN \<le> i \<Longrightarrow> i \<le> LONG_MAX \<Longrightarrow> length (int_str i) < 1000"
proof -
  assume "LONG_MIN \<le> i" "i \<le> LONG_MAX"
  then have "nat i < 10 ^ 20" "nat (- i) < 10 ^ 20" by (auto simp: int_limits nat_less_iff)
  then have "length (num_str 10 (nat i)) \<le> 20" "length (num_str 10 (nat (- i))) \<le> 20"
    using num_str_short [of 10 _ 20] by auto
  then show ?thesis by (auto simp: int_str_def)
qed

lemma hex_short: "2 \<le> b \<Longrightarrow> n < 2 ^ 64 \<Longrightarrow> length (num_str b n) < 1000"
proof -
  assume b: "2 \<le> b" and n: "n < 2 ^ 64"
  have "(2 :: nat) ^ 64 \<le> b ^ 64" using b by (rule power_mono) simp
  then have "length (num_str b n) \<le> 64" using b n num_str_short [of b n 64] by simp
  then show ?thesis by simp
qed

section \<open>Encoding and decoding\<close>

text \<open>
  The attributes that survive the text form: only supported ones, fields outside the mask at
  their initial value, the link count present where it is supported, known short names, a
  device number and a link count below ten, and values that fit a signed 64-bit number.
\<close>

definition wf_fattr :: "idb \<Rightarrow> fattr \<Rightarrow> bool" where
  "wf_fattr db fa \<longleftrightarrow>
     ftype fa \<in> {1..5} \<and> mask fa AND fattr_supported (ftype fa) = mask fa \<and> hasa (mask fa) FA_FILETYPE \<and>
     (hasa (mask fa) FA_LINKCOUNT \<longleftrightarrow> hasa (fattr_supported (ftype fa)) FA_LINKCOUNT) \<and>
     LONG_MIN \<le> modtime fa \<and> modtime fa \<le> LONG_MAX \<and> (hasa (mask fa) FA_MODTIME \<or> modtime fa = 0) \<and>
     LONG_MIN \<le> fsize fa \<and> fsize fa \<le> LONG_MAX \<and> (hasa (mask fa) FA_SIZE \<or> fsize fa = 0) \<and>
     (if hasa (mask fa) FA_LINKTARGET then (\<exists>l. linktarget fa = Some l \<and> length l < 1000) else linktarget fa = None) \<and>
     unat (rdev fa) < 10 \<and> (hasa (mask fa) FA_RDEV \<or> rdev fa = 0) \<and>
     (if hasa (mask fa) FA_OWNER
      then (\<exists>n. getuserbyid db (uid fa) = Some n \<and> getuidbyname db n = Some (uid fa) \<and> length n < 1000) else uid fa = 0) \<and>
     (if hasa (mask fa) FA_GROUP
      then (\<exists>n. getgroupbyid db (gid fa) = Some n \<and> getgidbyname db n = Some (gid fa) \<and> length n < 1000) else gid fa = 0) \<and>
     mode fa AND mode_mask (mask fa) = mode fa \<and> (hasa (mask fa) FA_MODE \<or> mode fa = 0) \<and>
     flags fa = 0 \<and> (if hasa (mask fa) FA_LINKCOUNT then unat (linkcount fa) < 10 else linkcount fa = 0) \<and>
     unat (dev fa) < 2 ^ 63 \<and> (hasa (mask fa) FA_DEV \<or> dev fa = 0) \<and> (hasa (mask fa) FA_INODE \<or> inode fa = 0)"

lemma hasa_andnot:
  assumes "a AND b = 0"
  shows "hasa (m AND NOT b) a = hasa m a"
proof -
  have "(m AND NOT b) AND a = m AND a"
  proof (rule bit_word_eqI)
    fix n :: nat
    assume n: "n < LENGTH(32)"
    have "bit (a AND b) n = bit (0 :: amask) n" using assms by simp
    then show "bit ((m AND NOT b) AND a) n = bit (m AND a) n" using n by (auto simp: bit_simps)
  qed
  then show ?thesis by (simp add: hasa_def)
qed

lemma and_keep: "a AND s = a \<Longrightarrow> (a AND b) AND s = a AND (b :: amask)"
  by (metis and.assoc and.commute)

lemma and_none:
  assumes "a AND s = a" "s AND (b :: amask) = 0"
  shows "a AND b = 0"
proof -
  have "a AND b = (a AND s) AND b" by (simp only: assms(1))
  also have "\<dots> = a AND (s AND b)" by (rule and.assoc)
  finally show ?thesis by (simp only: assms(2) and_zero_eq)
qed

lemma hasa_or: "hasa (a OR b) c \<longleftrightarrow> hasa a c \<or> hasa b c"
  by (simp add: hasa_def bit.conj_disj_distrib2 or_eq_0_iff)

text \<open>The conversions, and the value each scan stores.\<close>

lemma small_dec_hex: "n < 10 \<Longrightarrow> num_str 10 n = num_str 16 n"
  by (simp add: num_str.simps)

lemma nat_LONG_MAX: "n < 2 ^ 63 \<Longrightarrow> int n \<le> LONG_MAX"
  unfolding LONG_MAX_def by simp

lemma sint_small:
  assumes "unat w < 2 ^ 63"
  shows "sint (w :: 64 word) = int (unat w)"
proof -
  have "int (unat w) < 2 ^ 63" using nat_LONG_MAX [OF assms] unfolding LONG_MAX_def by simp
  then have "signed_take_bit 63 (uint w) = uint w"
    by (intro signed_take_bit_int_eq_self) (simp_all add: order_trans [OF _ uint_ge_0])
  then show ?thesis by (simp add: sint_uint)
qed

lemma strtol_small:
  assumes "unat (w :: 64 word) < 10"
  shows "strtol 16 (int_str (sint w)) = (int (unat w), False, [])"
proof -
  have "int_str (sint w) = num_str 16 (unat w)"
    using assms small_dec_hex [OF assms] sint_small [of w] by (simp add: int_str_def)
  moreover have "int (unat w) \<le> LONG_MAX" using assms by (intro nat_LONG_MAX) simp
  ultimately show ?thesis using strtol_num_str [of 16 "unat w"] by simp
qed

lemma sint_limits: "LONG_MIN \<le> sint (w :: 64 word) \<and> sint w \<le> LONG_MAX"
  using sint_range_size [of w] by (simp add: int_limits word_size)

text \<open>One scan of an attribute the mask may name: the value is stored, the rest is left.\<close>

lemma scan_if_absent: "\<not> hasa (mask g) a \<Longrightarrow> scan_if db a (Scanned g n) = Scanned g n"
  by (simp add: scan_if_def)

lemma scan_if_piece:
  assumes "mask g = m"
    and "hasa m a \<Longrightarrow> fattr_scanattr db g a (Some (attr_piece v @ rest)) = Scanned g' (Some rest)"
    and "\<not> hasa m a \<Longrightarrow> g' = g"
  shows "scan_if db a (Scanned g (Some (piece_if (hasa m a) v @ rest))) = Scanned g' (Some rest)"
  using assms by (cases "hasa m a") (auto simp: scan_if_def piece_if_def)

lemma scan_if_modtime:
  assumes "mask g = m" "LONG_MIN \<le> t" "t \<le> LONG_MAX" "hasa m FA_MODTIME \<or> modtime g = t"
  shows "scan_if db FA_MODTIME (Scanned g (Some (piece_if (hasa m FA_MODTIME) (int_str t) @ rest))) =
    Scanned (g\<lparr>modtime := t\<rparr>) (Some rest)"
  using assms by (intro scan_if_piece) (auto simp: scan_piece int_str_short strtol_int_str scan_number_def)

lemma scan_if_size:
  assumes "mask g = m" "LONG_MIN \<le> t" "t \<le> LONG_MAX" "hasa m FA_SIZE \<or> fsize g = t"
  shows "scan_if db FA_SIZE (Scanned g (Some (piece_if (hasa m FA_SIZE) (int_str t) @ rest))) =
    Scanned (g\<lparr>fsize := t\<rparr>) (Some rest)"
  using assms by (intro scan_if_piece) (auto simp: scan_piece int_str_short strtol_int_str scan_number_def)

lemma scan_if_target:
  assumes "mask g = m" "hasa m FA_LINKTARGET \<Longrightarrow> \<exists>l. t = Some l \<and> length l < 1000"
    and "hasa m FA_LINKTARGET \<or> linktarget g = t"
  shows "scan_if db FA_LINKTARGET (Scanned g (Some (piece_if (hasa m FA_LINKTARGET) (the t) @ rest))) =
    Scanned (g\<lparr>linktarget := t\<rparr>) (Some rest)"
  using assms by (intro scan_if_piece) (auto simp: scan_piece)

lemma scan_if_rdev:
  assumes "mask g = m" "unat w < 10" "hasa m FA_RDEV \<or> rdev g = w"
  shows "scan_if db FA_RDEV (Scanned g (Some (piece_if (hasa m FA_RDEV) (int_str (sint w)) @ rest))) =
    Scanned (g\<lparr>rdev := w\<rparr>) (Some rest)"
  using assms sint_limits [of w]
  by (intro scan_if_piece) (auto simp: scan_piece int_str_short strtol_small scan_number_def)

lemma scan_if_owner:
  assumes "mask g = m" "hasa m FA_OWNER \<Longrightarrow> \<exists>n. nm = Some n \<and> getuidbyname db n = Some u \<and> length n < 1000"
    and "hasa m FA_OWNER \<or> uid g = u"
  shows "scan_if db FA_OWNER (Scanned g (Some (piece_if (hasa m FA_OWNER) (the nm) @ rest))) =
    Scanned (g\<lparr>uid := u\<rparr>) (Some rest)"
  using assms by (intro scan_if_piece) (auto simp: scan_piece)

lemma scan_if_group:
  assumes "mask g = m" "hasa m FA_GROUP \<Longrightarrow> \<exists>n. nm = Some n \<and> getgidbyname db n = Some u \<and> length n < 1000"
    and "hasa m FA_GROUP \<or> gid g = u"
  shows "scan_if db FA_GROUP (Scanned g (Some (piece_if (hasa m FA_GROUP) (the nm) @ rest))) =
    Scanned (g\<lparr>gid := u\<rparr>) (Some rest)"
  using assms by (intro scan_if_piece) (auto simp: scan_piece)

lemma unat_mode_word: "unat (w :: 32 word) < 2 ^ 64" "int (unat (w :: 32 word)) \<le> LONG_MAX"
proof -
  have "unat w < 2 ^ 32" using unsigned_less [of w, where ?'a = nat] by simp
  then have b: "unat w < 2 ^ 63" "unat w < 2 ^ 64" by simp_all
  show "unat w < 2 ^ 64" by (rule b(2))
  show "int (unat w) \<le> LONG_MAX" by (rule nat_LONG_MAX [OF b(1)])
qed

lemma scan_if_mode:
  assumes "mask g = m" "w AND mode_mask m = w" "hasa m FA_MODE \<or> mode g = w"
  shows "scan_if db FA_MODE (Scanned g (Some (piece_if (hasa m FA_MODE) (num_str 8 (unat (w AND mode_mask m))) @ rest))) =
    Scanned (g\<lparr>mode := w\<rparr>) (Some rest)"
  using assms unat_mode_word [of w]
  by (intro scan_if_piece) (auto simp: scan_piece hex_short strtol_num_str scan_number_def)

lemma scan_if_dev:
  assumes "mask g = m" "unat w < 2 ^ 63" "hasa m FA_DEV \<or> dev g = w"
  shows "scan_if db FA_DEV (Scanned g (Some (piece_if (hasa m FA_DEV) (num_str 16 (unat w)) @ rest))) =
    Scanned (g\<lparr>dev := w\<rparr>) (Some rest)"
proof -
  have "unat w < 2 ^ 64" "int (unat w) \<le> LONG_MAX" using assms(2) by (simp, intro nat_LONG_MAX)
  with assms show ?thesis
    by (intro scan_if_piece) (auto simp: scan_piece hex_short strtol_num_str scan_number_def)
qed

lemma scan_if_inode:
  assumes "mask g = m" "hasa m FA_INODE \<or> inode g = w"
  shows "scan_if db FA_INODE (Scanned g (Some (piece_if (hasa m FA_INODE) (int_str (sint w)) @ rest))) =
    Scanned (g\<lparr>inode := w\<rparr>) (Some rest)"
  using assms sint_limits [of w]
  by (intro scan_if_piece) (auto simp: scan_piece int_str_short strtol_int_str scan_number_def)

text \<open>A link count of one is not sent; the decoder puts it back.\<close>

lemma restore_bit: "bit (m :: 32 word) k \<Longrightarrow> (m AND NOT (push_bit k 1)) OR push_bit k 1 = m"
  by (intro bit_word_eqI) (auto simp: bit_simps)

lemma restore_linkcount:
  assumes "hasa m FA_LINKCOUNT"
  shows "(m AND NOT FA_LINKCOUNT) OR FA_LINKCOUNT = m"
proof -
  have "bit m 9" using assms by (simp add: hasa_def bit_iff_and_push_bit_not_eq_0)
  then show ?thesis using restore_bit [of m 9] by simp
qed

lemma scan_linkcount_step:
  assumes "mask g = m" "ftype g = t"
    and s: "hasa m0 FA_LINKCOUNT \<longleftrightarrow> hasa (fattr_supported t) FA_LINKCOUNT"
    and m: "m = (if hasa m0 FA_LINKCOUNT \<and> c = 1 then m0 AND NOT FA_LINKCOUNT else m0)"
    and c: "unat c < 10" "hasa m0 FA_LINKCOUNT \<or> linkcount g = c"
  shows "scan_linkcount db (Scanned g (Some (piece_if (hasa m FA_LINKCOUNT) (int_str (sint c)) @ rest))) =
    Scanned (g\<lparr>mask := m0, linkcount := c\<rparr>) (Some rest)"
proof -
  consider (one) "hasa m0 FA_LINKCOUNT" "c = 1" | (sent) "hasa m0 FA_LINKCOUNT" "c \<noteq> 1" | (no) "\<not> hasa m0 FA_LINKCOUNT"
    by blast
  then show ?thesis
  proof cases
    case one
    then have m': "m = m0 AND NOT FA_LINKCOUNT" using m by simp
    have "\<not> hasa m FA_LINKCOUNT" unfolding m' by (simp add: hasa_def and.assoc)
    moreover have "m OR FA_LINKCOUNT = m0" unfolding m' by (rule restore_linkcount [OF one(1)])
    ultimately show ?thesis using one s assms(1,2) by (simp add: scan_linkcount_def piece_if_def)
  next
    case sent
    then show ?thesis using m assms(1) c(1) sint_limits [of c]
      by (auto simp: scan_linkcount_def piece_if_def scan_piece int_str_short strtol_small scan_number_def)
  next
    case no
    then show ?thesis using m s assms(1,2) c(2) by (simp add: scan_linkcount_def piece_if_def)
  qed
qed

lemma supported_types:
  assumes "1 \<le> t" "t \<le> 5"
  shows "fattr_supported t AND NOT FA_MASK = 0" "\<not> hasa (fattr_supported t) FA_FLAGS"
    "hasa (fattr_supported t) FA_FILETYPE"
proof -
  have "t = 1 \<or> t = 2 \<or> t = 3 \<or> t = 4 \<or> t = 5" using assms by auto
  then show "fattr_supported t AND NOT FA_MASK = 0" "\<not> hasa (fattr_supported t) FA_FLAGS"
    "hasa (fattr_supported t) FA_FILETYPE"
    by (auto simp: fattr_supported_def fattr_support_def hasa_def)
qed

text \<open>The mask a well-formed structure is sent with.\<close>

lemma wf_sent_mask:
  assumes wf: "wf_fattr db fa" and m: "m = encode_mask db fa None 0"
  shows "m = (if hasa (mask fa) FA_LINKCOUNT \<and> linkcount fa = 1 then mask fa AND NOT FA_LINKCOUNT else mask fa)"
    and "m AND fattr_supported (ftype fa) = m" and "m AND NOT FA_MASK = 0"
    and "\<And>a. a AND FA_LINKCOUNT = 0 \<Longrightarrow> hasa m a = hasa (mask fa) a"
    and "\<not> hasa m FA_FLAGS" and "mode_mask m = mode_mask (mask fa)"
proof -
  have sup: "mask fa AND fattr_supported (ftype fa) = mask fa" and t: "1 \<le> ftype fa" "ftype fa \<le> 5"
    using wf by (auto simp: wf_fattr_def)
  show 1: "m = (if hasa (mask fa) FA_LINKCOUNT \<and> linkcount fa = 1 then mask fa AND NOT FA_LINKCOUNT else mask fa)"
  proof -
    have "hasa (mask fa) FA_OWNER \<Longrightarrow> getuserbyid db (uid fa) \<noteq> None"
      and "hasa (mask fa) FA_GROUP \<Longrightarrow> getgroupbyid db (gid fa) \<noteq> None"
      using wf unfolding wf_fattr_def by (elim conjE; force)+
    then have "(hasa (mask fa) FA_OWNER \<and> getuserbyid db (uid fa) = None) = False"
      and "(hasa (mask fa) FA_GROUP \<and> getgroupbyid db (gid fa) = None) = False"
      by blast+
    then show ?thesis unfolding m encode_mask_def by (simp only: Let_def if_False) simp
  qed
  show 2: "m AND fattr_supported (ftype fa) = m"
    using sup unfolding 1 by (simp add: and_keep)
  show "m AND NOT FA_MASK = 0"
    by (rule and_none [OF 2 supported_types(1) [OF t]])
  show 4: "hasa m a = hasa (mask fa) a" if "a AND FA_LINKCOUNT = 0" for a
    unfolding 1 using hasa_andnot [OF that, of "mask fa"] by simp
  show "\<not> hasa m FA_FLAGS"
    using and_none [OF 2] supported_types(2) [OF t] by (simp add: hasa_def)
  show "mode_mask m = mode_mask (mask fa)" by (simp add: mode_mask_def 4)
qed

lemma concat_pieces:
  "concat (map attr_piece (if c then [v] else [])) = piece_if c v"
  by (simp add: piece_if_def)

lemma fattr_zero_simps [simp]:
  "mask fattr_zero = 0" "ftype fattr_zero = 0" "modtime fattr_zero = 0" "fsize fattr_zero = 0"
  "linktarget fattr_zero = None" "rdev fattr_zero = 0" "uid fattr_zero = 0" "gid fattr_zero = 0"
  "mode fattr_zero = 0" "flags fattr_zero = 0" "linkcount fattr_zero = 0" "dev fattr_zero = 0" "inode fattr_zero = 0"
  by (simp_all add: fattr_zero_def)

lemma decode_type_step:
  assumes "hasa (mask g) FA_FILETYPE" "1 \<le> t" "t \<le> 5"
  shows "decode_type db g (attr_piece (int_str t) @ rest) = Scanned (g\<lparr>ftype := t\<rparr>) (Some rest)"
proof -
  have "LONG_MIN \<le> t" "t \<le> LONG_MAX" using assms(2,3) unfolding int_limits by simp_all
  moreover have "sint (of_int t :: 32 word) = t"
    using assms(2,3) by (simp add: signed_of_int signed_take_bit_int_eq_self)
  ultimately show ?thesis using assms
    by (simp add: decode_type_def scan_piece int_str_short strtol_int_str scan_number_def)
qed

lemma wf_fields:
  assumes wf: "wf_fattr db fa" and m: "m = encode_mask db fa None 0"
  shows "LONG_MIN \<le> modtime fa" "modtime fa \<le> LONG_MAX" "hasa m FA_MODTIME \<or> modtime fa = 0"
    "LONG_MIN \<le> fsize fa" "fsize fa \<le> LONG_MAX" "hasa m FA_SIZE \<or> fsize fa = 0"
    "hasa m FA_LINKTARGET \<Longrightarrow> \<exists>l. linktarget fa = Some l \<and> length l < 1000"
    "hasa m FA_LINKTARGET \<or> None = linktarget fa"
    "unat (rdev fa) < 10" "hasa m FA_RDEV \<or> rdev fa = 0"
    "hasa m FA_OWNER \<Longrightarrow> \<exists>n. getuserbyid db (uid fa) = Some n \<and> getuidbyname db n = Some (uid fa) \<and> length n < 1000"
    "hasa m FA_OWNER \<or> uid fa = 0"
    "hasa m FA_GROUP \<Longrightarrow> \<exists>n. getgroupbyid db (gid fa) = Some n \<and> getgidbyname db n = Some (gid fa) \<and> length n < 1000"
    "hasa m FA_GROUP \<or> gid fa = 0"
    "mode fa AND mode_mask m = mode fa" "hasa m FA_MODE \<or> mode fa = 0" "flags fa = 0"
    "unat (linkcount fa) < 10" "hasa (mask fa) FA_LINKCOUNT \<or> linkcount fa = 0"
    "hasa (mask fa) FA_LINKCOUNT \<longleftrightarrow> hasa (fattr_supported (ftype fa)) FA_LINKCOUNT"
    "unat (dev fa) < 2 ^ 63" "hasa m FA_DEV \<or> dev fa = 0" "hasa m FA_INODE \<or> inode fa = 0"
  using wf wf_sent_mask(4,6) [OF assms] unfolding wf_fattr_def by (simp_all add: eq_commute [of None] split: if_splits)

lemmas scan_steps = scan_if_modtime scan_if_size scan_if_target scan_if_rdev scan_if_owner scan_if_group
  scan_if_mode scan_if_dev scan_if_inode

text \<open>The encoded form, piece by piece.\<close>

definition fattr_text :: "idb \<Rightarrow> fattr \<Rightarrow> amask \<Rightarrow> string" where
  "fattr_text db fa m = attr_piece (num_str 16 (unat m)) @ attr_piece (int_str (ftype fa)) @
     piece_if (hasa m FA_MODTIME) (int_str (modtime fa)) @
     piece_if (hasa m FA_SIZE) (int_str (fsize fa)) @
     piece_if (hasa m FA_LINKTARGET) (the (linktarget fa)) @
     piece_if (hasa m FA_RDEV) (int_str (sint (rdev fa))) @
     piece_if (hasa m FA_OWNER) (the (getuserbyid db (uid fa))) @
     piece_if (hasa m FA_GROUP) (the (getgroupbyid db (gid fa))) @
     piece_if (hasa m FA_MODE) (num_str 8 (unat (mode fa AND mode_mask m))) @
     piece_if (hasa m FA_LINKCOUNT) (int_str (sint (linkcount fa))) @
     piece_if (hasa m FA_DEV) (num_str 16 (unat (dev fa))) @
     piece_if (hasa m FA_INODE) (int_str (sint (inode fa)))"

lemma encode_text:
  assumes wf: "wf_fattr db fa" and m: "m = encode_mask db fa None 0"
  shows "fattr_encode db fa None 0 = Some (fattr_text db fa m)"
proof -
  note M = wf_sent_mask [OF assms]
  have hm: "hasa m FA_FILETYPE" using wf M(4) by (simp add: wf_fattr_def)
  have "\<not> (hasa m FA_LINKTARGET \<and> linktarget fa = None)"
    using wf M(4) [of FA_LINKTARGET] by (auto simp: wf_fattr_def)
  then show ?thesis using hm M(5)
    by (simp add: fattr_encode_def fattr_text_def encode_pieces_def concat_pieces flip: m)
qed

lemma scan_mask_text:
  "fattr_scanattr db (fattr_new FT_UNKNOWN (-1)) FA_MASK (Some (attr_piece (num_str 16 (unat (m :: amask))) @ rest)) =
     Scanned (fattr_zero\<lparr>mask := m\<rparr>) (Some rest)"
  using unat_mode_word [of m]
  by (simp add: scan_piece hex_short strtol_num_str scan_number_def fattr_new_def fattr_zero_def
      fattr_supported_def fattr_support_def hasa_def)

lemma decode_text:
  assumes wf: "wf_fattr db fa" and m: "m = encode_mask db fa None 0"
  shows "fattr_decode db (fattr_text db fa m) = Some (Some fa)"
proof -
  note M = wf_sent_mask [OF assms] and W = wf_fields [OF assms]
  have t: "1 \<le> ftype fa" "ftype fa \<le> 5" "hasa m FA_FILETYPE"
    using wf M(4) by (auto simp: wf_fattr_def)
  have lc: "scan_linkcount db (Scanned h (Some (piece_if (hasa m FA_LINKCOUNT) (int_str (sint (linkcount fa))) @ rest))) =
    Scanned (h\<lparr>mask := mask fa, linkcount := linkcount fa\<rparr>) (Some rest)"
    if "mask h = m" "ftype h = ftype fa" "linkcount h = 0" for h rest
    using that W(19) by (intro scan_linkcount_step [OF _ _ W(20) M(1) W(18)]) auto
  have dv: "hasa m FA_DEV = hasa (mask fa) FA_DEV" "hasa m FA_INODE = hasa (mask fa) FA_INODE"
    using M(4) by simp_all
  have e: "fattr_zero\<lparr>mask := mask fa, ftype := ftype fa, modtime := modtime fa, fsize := fsize fa,
     linktarget := linktarget fa, rdev := rdev fa, uid := uid fa, gid := gid fa, mode := mode fa,
     linkcount := linkcount fa, dev := dev fa, inode := inode fa\<rparr> = fa"
    using W(17) by (intro fattr.equality) simp_all
  show ?thesis
    using M(3) e W(21) unfolding fattr_decode_def fattr_text_def scan_mask_text
    by (simp add: decode_type_step t M(2,5) Let_def scan_steps scan_if_target [OF _ W(7)] scan_if_owner [OF _ W(11)]
        scan_if_group [OF _ W(13)] scan_if_mode [OF _ W(15), unfolded W(15)] scan_if_absent lc dv
        scan_if_inode [where rest = "[]", unfolded append_Nil2] W W(22,23) [unfolded dv])
qed

text \<open>
  Claim C9. The text form is faithful: a well-formed attribute structure is encoded, and the
  decoder, which finds the pieces by their lengths and decides from the mask and the type
  which ones to expect, returns the same structure, with the link count of one that the
  encoder leaves out restored.
\<close>

theorem fattr_roundtrip:
  assumes "wf_fattr db fa"
  shows "\<exists>s. fattr_encode db fa None 0 = Some s \<and> fattr_decode db s = Some (Some fa)"
  using encode_text [OF assms refl] decode_text [OF assms refl] by blast

section \<open>Installing attributes\<close>

lemma run_ops_append:
  "run_ops sys (xs @ ys) s = (case run_ops sys xs s of (True, s1) \<Rightarrow> run_ops sys ys s1 | r \<Rightarrow> r)"
  by (induction xs arbitrary: s) (auto split: option.splits)

fun op_target :: "sysop \<Rightarrow> string set" where
  "op_target (Unlink p) = {p}"
| "op_target (Rmdir p) = {p}"
| "op_target (Symlink l p) = {p}"
| "op_target (Mkdir p m) = {p}"
| "op_target (Utimes p t) = {p}"
| "op_target (Chown p u g) = {p}"
| "op_target (Chmod p m) = {p}"
| "op_target (Rename a b) = {a, b}"

lemma run_ops_frame:
  assumes "\<And>c s s'. sys c s = Some s' \<Longrightarrow> p \<notin> op_target c \<Longrightarrow> look s' p = look s p"
    and "\<forall>c \<in> set cs. p \<notin> op_target c" and "run_ops sys cs s = (ok, s1)"
  shows "look s1 p = look s p"
  using assms(2,3)
proof (induction cs arbitrary: s)
  case (Cons c cs)
  then show ?case using assms(1) by (fastforce split: option.splits)
qed simp

lemma install_ops_rename:
  assumes "tmp \<noteq> topath" and "\<forall>o1 \<in> set_option old. (ftype fa = FT_DIRECTORY) = (ftype o1 = FT_DIRECTORY)"
  shows "\<exists>pre. install_ops fa topath (Some tmp) old = pre @ [Rename tmp topath] \<and> (\<forall>c \<in> set pre. topath \<notin> op_target c)"
  using assms by (cases old) (auto simp: install_ops_def Let_def)

text \<open>
  Claim C20. An installation that replaces a node by one that is a directory exactly if the old
  one is (or where nothing was) is all or nothing: when the new file is prepared at a path of its own,
  an installation that fails, at whatever system call, has left the target as it was. The file
  system is any one in which a successful call changes only the paths it names. The case left out,
  a directory over something else or the reverse, is the one where \<open>fattr_install\<close> removes the
  target first and a later failure leaves nothing in its place.
\<close>

theorem install_failure_keeps_target:
  assumes "\<And>c s s' p. sys c s = Some s' \<Longrightarrow> p \<notin> op_target c \<Longrightarrow> look s' p = look s p"
    and "tmp \<noteq> topath" and "\<forall>o1 \<in> set_option old. (ftype fa = FT_DIRECTORY) = (ftype o1 = FT_DIRECTORY)"
    and "fattr_install sys fa topath (Some tmp) old s = (-1, s')"
  shows "look s' topath = look s topath"
proof -
  obtain pre where pre: "install_ops fa topath (Some tmp) old = pre @ [Rename tmp topath]"
    "\<forall>c \<in> set pre. topath \<notin> op_target c" using install_ops_rename [OF assms(2,3)] by blast
  obtain ok s1 where r: "run_ops sys pre s = (ok, s1)" by (cases "run_ops sys pre s")
  have "s' = s1" using assms(4) r
    by (cases ok) (auto simp: fattr_install_def pre(1) run_ops_append split: option.splits)
  then show ?thesis
    using run_ops_frame [where look = look and p = topath, OF _ pre(2) r] assms(1) by blast
qed

theorem install_failure_keeps_target_witness:
  "let fa = fattr_zero\<lparr>ftype := FT_FILE, mask := FA_FILETYPE OR FA_MODE, mode := 0x1a4\<rparr>;
       sys = (\<lambda>c s. case c of Chmod p m \<Rightarrow> Some (s(p := unat m)) | _ \<Rightarrow> None);
       r = fattr_install sys fa ''f'' (Some ''tmp'') None (\<lambda>p. 0)
   in fst r = -1 \<and> snd r ''tmp'' = 420 \<and> snd r ''f'' = 0"
proof -
  let ?fa = "fattr_zero\<lparr>ftype := FT_FILE, mask := FA_FILETYPE OR FA_MODE, mode := 0x1a4\<rparr>"
  let ?sys = "\<lambda>c s. case c of Chmod p m \<Rightarrow> Some (s(p := unat m)) | _ \<Rightarrow> None"
  let ?r = "fattr_install ?sys ?fa ''f'' (Some ''tmp'') None (\<lambda>p. 0 :: nat)"
  have r: "?r = (-1, (\<lambda>p. 0)(''tmp'' := 420))"
    by (simp add: fattr_install_def install_ops_def fattr_supported_def fattr_support_def hasa_def install_mode_def
        mode_mask_def Let_def)
  have "snd ?r ''f'' = (\<lambda>p. 0 :: nat) ''f''"
    by (rule install_failure_keeps_target [where sys = ?sys and look = "\<lambda>s p. s p" and tmp = "''tmp''"
          and topath = "''f''" and old = None and fa = ?fa])
      (use r in \<open>auto split: sysop.splits\<close>)
  then show ?thesis using r by (simp add: Let_def)
qed

lemma no_new_bits:
  fixes x y :: "32 word"
  assumes "p AND q = 0"
  shows "((x AND p OR (y AND NOT p)) AND m) AND q AND NOT y = 0"
proof (rule bit_word_eqI)
  fix n :: nat
  assume n: "n < LENGTH(32)"
  have "bit (p AND q) n = bit (0 :: 32 word) n" using assms by simp
  then show "bit (((x AND p OR (y AND NOT p)) AND m) AND q AND NOT y) n = bit (0 :: 32 word) n"
    using n by (auto simp: bit_simps)
qed

text \<open>
  Claim C21. A transfer never grants set-id bits unless it also sets the owner and the group:
  when one of them is not among the attributes, every mode that is given to a file is free of
  set-user-id, set-group-id and sticky bits the old file did not have, and a new directory has none.
\<close>

theorem install_no_new_setid:
  assumes "\<not> (hasa (mask fa) FA_OWNER \<and> hasa (mask fa) FA_GROUP)"
    and "c \<in> set (install_ops fa topath from old) \<union> set (fattr_makenode fa path)"
  shows "case c of Chmod p m \<Rightarrow> m AND FA_SETIDMASK AND NOT (case old of None \<Rightarrow> 0 | Some o1 \<Rightarrow> mode o1) = 0
    | Mkdir p m \<Rightarrow> m AND FA_SETIDMASK = 0 | _ \<Rightarrow> True"
proof -
  have split: "\<not> (hasa (a AND b) FA_OWNER \<and> hasa (a AND b) FA_GROUP)"
    if "\<not> (hasa a FA_OWNER \<and> hasa a FA_GROUP)" for a b
  proof -
    have "hasa (a AND b) x \<Longrightarrow> hasa a x" for x by (auto simp: hasa_def and.assoc and.left_commute [of a b])
    with that show ?thesis by blast
  qed
  have mm: "mode_mask (mask fa) = FA_PERMMASK" "mode_mask (mask fa AND b) = FA_PERMMASK" for b
    using assms(1) split [OF assms(1), of b] by (simp_all add: mode_mask_def)
  have b1: "(x AND FA_PERMMASK) AND FA_SETIDMASK = 0" for x :: "32 word" by (simp add: and.assoc)
  have b3: "(x AND FA_PERMMASK) AND FA_SETIDMASK AND z = 0" for x z :: "32 word"
    by (simp only: b1 and.assoc [symmetric] zero_and_eq)
  have b2: "((x AND FA_PERMMASK OR (y AND NOT FA_PERMMASK)) AND (FA_SETIDMASK OR FA_PERMMASK)) AND FA_SETIDMASK AND NOT y = 0"
    for x y :: "32 word"
    by (rule no_new_bits) simp
  have i: "install_mode fa old AND FA_SETIDMASK AND NOT (case old of None \<Rightarrow> 0 | Some o1 \<Rightarrow> mode o1) = 0"
    by (cases old; cases "hasa (mask (the old)) FA_MODE")
      (simp_all only: install_mode_def mm Let_def option.case option.sel if_True if_False b2 b3)
  have "c \<in> set (install_ops fa topath from old) \<Longrightarrow> \<exists>p. c = Chmod p (install_mode fa old) \<or> (\<forall>p m. c \<noteq> Chmod p m \<and> c \<noteq> Mkdir p m)"
    by (auto simp: install_ops_def Let_def split: option.splits if_splits)
  moreover have "c \<in> set (fattr_makenode fa path) \<Longrightarrow> \<exists>p m. c = Mkdir p m \<and> m AND FA_SETIDMASK = 0 \<or> (\<forall>p m. c \<noteq> Chmod p m \<and> c \<noteq> Mkdir p m)"
    by (auto simp: fattr_makenode_def Let_def mm b1 split: if_splits)
  ultimately show ?thesis using assms(2) i by (auto split: sysop.splits)
qed

theorem install_no_new_setid_witness:
  "let fa = fattr_zero\<lparr>ftype := FT_FILE, mask := FA_FILETYPE OR FA_MODE OR FA_GROUP, mode := 0x9ed, gid := 7\<rparr>
   in Chmod ''f'' 0x1ed \<in> set (install_ops fa ''f'' None None) \<and> (0x1ed :: 32 word) AND FA_SETIDMASK AND NOT 0 = 0"
proof -
  let ?fa = "fattr_zero\<lparr>ftype := FT_FILE, mask := FA_FILETYPE OR FA_MODE OR FA_GROUP, mode := 0x9ed, gid := 7\<rparr>"
  have c: "Chmod ''f'' 0x1ed \<in> set (install_ops ?fa ''f'' None None)"
    by (simp add: install_ops_def fattr_supported_def fattr_support_def hasa_def install_mode_def mode_mask_def Let_def)
  have "case Chmod ''f'' 0x1ed of Chmod p m \<Rightarrow> m AND FA_SETIDMASK AND NOT (case None :: fattr option of None \<Rightarrow> 0 | Some o1 \<Rightarrow> mode o1) = 0
    | Mkdir p m \<Rightarrow> m AND FA_SETIDMASK = 0 | _ \<Rightarrow> True"
    by (rule install_no_new_setid [where old = None, OF _ UnI1 [OF c]]) (simp add: hasa_def)
  with c show ?thesis by (simp add: Let_def)
qed

theorem fattr_roundtrip_witness:
  "let db = \<lparr>getuserbyid = (\<lambda>u. if u = 0 then Some ''root'' else None), getuidbyname = (\<lambda>n. if n = ''root'' then Some 0 else None),
            getgroupbyid = (\<lambda>g. None), getgidbyname = (\<lambda>n. None)\<rparr>;
       fa = fattr_zero\<lparr>mask := 0x2a7, ftype := FT_FILE, modtime := 1000, fsize := 42, mode := 0x1a4, linkcount := 1\<rparr>
   in wf_fattr db fa \<and> (\<exists>s. fattr_encode db fa None 0 = Some s \<and> fattr_decode db s = Some (Some fa))"
proof -
  let ?db = "\<lparr>getuserbyid = (\<lambda>u. if u = 0 then Some ''root'' else None), getuidbyname = (\<lambda>n. if n = ''root'' then Some 0 else None),
            getgroupbyid = (\<lambda>g :: nat. None :: string option), getgidbyname = (\<lambda>n. None)\<rparr>"
  let ?fa = "fattr_zero\<lparr>mask := 0x2a7, ftype := FT_FILE, modtime := 1000, fsize := 42, mode := 0x1a4, linkcount := 1\<rparr>"
  have "wf_fattr ?db ?fa"
    by (simp add: wf_fattr_def fattr_supported_def fattr_support_def hasa_def int_limits mode_mask_def)
  with fattr_roundtrip [of ?db ?fa] show ?thesis by (simp add: Let_def)
qed

section \<open>What the text form loses\<close>

lemma two_digits:
  assumes "10 \<le> n" "n < 100"
  shows "num_str 10 n = num_str 16 (16 * (n div 10) + n mod 10)"
proof -
  have d: "1 \<le> n div 10" "n div 10 < 10" using assms by (auto simp: div_greater_zero_iff)
  then have "\<not> 16 * (n div 10) + n mod 10 < 16" by linarith
  moreover have "n mod 10 < 16" using mod_less_divisor [of 10 n] by linarith
  ultimately show ?thesis using assms d small_dec_hex [OF d(2)]
    by (subst num_str.simps; subst num_str.simps [of 16]) simp
qed

text \<open>
  Link counts and device numbers do not survive: \<open>fattr_encode\<close> writes them in decimal and
  \<open>fattr_scanattr\<close> reads them in base 16 (the link count with the radix of the flags), so that a
  number of two digits is read as the one its digits denote in hexadecimal. This is why
  \<open>wf_fattr\<close> asks for a link count and a device number below ten.
\<close>

lemma two_digits_read_as_hex:
  assumes "10 \<le> n" and "n < 100"
  shows "fattr_scanattr db fa FA_LINKCOUNT (Some (attr_piece (int_str (int n)) @ rest)) =
      Scanned (fa\<lparr>linkcount := of_nat (16 * (n div 10) + n mod 10)\<rparr>) (Some rest)"
    and "fattr_scanattr db fa FA_RDEV (Some (attr_piece (int_str (int n)) @ rest)) =
      Scanned (fa\<lparr>rdev := of_nat (16 * (n div 10) + n mod 10)\<rparr>) (Some rest)"
proof -
  let ?k = "16 * (n div 10) + n mod 10"
  have k: "?k < 1000" using assms by linarith
  have v: "int_str (int n) = num_str 16 ?k" using two_digits [OF assms] by (simp add: int_str_def)
  have "int ?k \<le> LONG_MAX" using k by (intro nat_LONG_MAX) simp
  then have "strtol 16 (num_str 16 ?k) = (int ?k, False, [])" by (intro strtol_num_str) simp_all
  moreover have "length (num_str 16 ?k) < 1000" using k by (intro hex_short) simp_all
  ultimately show
    "fattr_scanattr db fa FA_LINKCOUNT (Some (attr_piece (int_str (int n)) @ rest)) = Scanned (fa\<lparr>linkcount := of_nat ?k\<rparr>) (Some rest)"
    "fattr_scanattr db fa FA_RDEV (Some (attr_piece (int_str (int n)) @ rest)) = Scanned (fa\<lparr>rdev := of_nat ?k\<rparr>) (Some rest)"
    unfolding v by (simp_all only: scan_piece) (simp_all add: scan_number_def)
qed

end
