(* ===== verification/Proto.thy ===== *)
theory Proto
  imports Misc Stream Fattr
begin

text \<open>
  The text protocol, \<open>proto.c\<close>: escaping, the message writer \<open>proto_printf\<close>, the token readers and
  the first exchanges of a session. A writer is the list of the calls it makes on its stream,
  \<open>stream_printf\<close> (\<open>True\<close>) or \<open>stream_write\<close> (\<open>False\<close>) with the text they add, which
  \<^const>\<open>stream_puts\<close> runs until one fails. A reader works on the variable \<open>line\<close>, a pointer
  that may be NULL; the outer \<open>None\<close> is a failed assertion or a NULL dereference.
\<close>

type_synonym calls = "(bool \<times> string) list"

definition calls_text :: "calls \<Rightarrow> string" where
  "calls_text cs = concat (map snd cs)"

lemma calls_text_simps [simp]:
  "calls_text [] = []" "calls_text ((w, s) # cs) = s @ calls_text cs" "calls_text (xs @ ys) = calls_text xs @ calls_text ys"
  by (simp_all add: calls_text_def)

section \<open>Escaping\<close>

definition needs_escape :: "char \<Rightarrow> bool" where
  "needs_escape c \<longleftrightarrow> c \<in> {CHR '' '', CHR 0x09, CHR 0x0D, CHR 0x0A, CHR 0x5C}"

definition escape_seq :: "char \<Rightarrow> string" where
  "escape_seq c =
     (if c = CHR '' '' then [CHR 0x5C, CHR ''_''] else if c = CHR 0x09 then [CHR 0x5C, CHR ''t'']
      else if c = CHR 0x0D then [CHR 0x5C, CHR ''r''] else if c = CHR 0x0A then [CHR 0x5C, CHR ''n'']
      else [CHR 0x5C, CHR 0x5C])"

function proto_escape :: "string \<Rightarrow> calls" where
  "proto_escape s =
     (let pre = takeWhile (\<lambda>c. \<not> needs_escape c) s in
      (False, pre) #
      (case dropWhile (\<lambda>c. \<not> needs_escape c) s of
         [] \<Rightarrow> []
       | c # t \<Rightarrow> (False, escape_seq c) # proto_escape t))"
  by auto
termination
  by (relation "measure length") (auto dest: length_dropWhile_less)

declare proto_escape.simps [simp del]

definition unescape_char :: "char \<Rightarrow> char" where
  "unescape_char c =
     (if c = CHR ''_'' then CHR '' '' else if c = CHR ''t'' then CHR 0x09 else if c = CHR ''r'' then CHR 0x0D
      else if c = CHR ''n'' then CHR 0x0A else c)"

text \<open>The loop of \<open>proto_unescape\<close>; a backslash at the end is overwritten by the terminating NUL.\<close>

fun proto_unescape :: "string \<Rightarrow> string" where
  "proto_unescape [] = []"
| "proto_unescape [c] = (if c = CHR 0x5C then [] else [c])"
| "proto_unescape (c # d # s) =
     (if c = CHR 0x5C then unescape_char d # proto_unescape s else c # proto_unescape (d # s))"

section \<open>Writing messages\<close>

datatype parg =
    Achar char | Aint int | Aoff int | Atime int | Asize nat | Astr "string option"
  | Afattr fattr | Afattr_ign fattr "amask list" amask

text \<open>
  One conversion: its output calls and the arguments left. An unknown conversion prints nothing;
  an argument of another type is undefined behaviour. \<open>%x\<close> and \<open>%o\<close> print the 32 bits of the \<open>int\<close>.
\<close>

definition proto_conv :: "idb \<Rightarrow> char \<Rightarrow> parg list \<Rightarrow> (calls \<times> parg list) option" where
  "proto_conv db c args =
     (if c = CHR ''%'' then Some ([(False, ''%'')], args)
      else if c \<notin> set ''cdixoOSstaAz'' then Some ([], args)
      else case args of
          [] \<Rightarrow> None
        | a # args1 \<Rightarrow>
           (case a of
              Achar x \<Rightarrow> if c = CHR ''c'' then Some ([(True, [x])], args1) else None
            | Aint v \<Rightarrow>
                if c = CHR ''d'' \<or> c = CHR ''i'' then Some ([(True, int_str v)], args1)
                else if c = CHR ''x'' then Some ([(True, num_str 16 (nat (v mod 2 ^ 32)))], args1)
                else if c = CHR ''o'' then Some ([(True, num_str 8 (nat (v mod 2 ^ 32)))], args1)
                else None
            | Aoff v \<Rightarrow> if c = CHR ''O'' then Some ([(True, int_str v)], args1) else None
            | Atime v \<Rightarrow> if c = CHR ''t'' then Some ([(True, int_str v)], args1) else None
            | Asize n \<Rightarrow> if c = CHR ''z'' then Some ([(True, num_str 10 n)], args1) else None
            | Astr s \<Rightarrow>
                (case s of None \<Rightarrow> None
                 | Some t \<Rightarrow> if c = CHR ''S'' then Some ([(True, t)], args1)
                            else if c = CHR ''s'' then Some (proto_escape t, args1) else None)
            | Afattr fa \<Rightarrow>
                if c = CHR ''a''
                then map_option (\<lambda>t. (proto_escape t, args1)) (fattr_encode db fa None 0) else None
            | Afattr_ign fa supp ign \<Rightarrow>
                if c = CHR ''A''
                then map_option (\<lambda>t. (proto_escape t, args1)) (fattr_encode db fa (Some supp) ign) else None))"

function proto_printf :: "idb \<Rightarrow> string \<Rightarrow> parg list \<Rightarrow> calls option" where
  "proto_printf db fmt args =
     (case split_first (CHR ''%'') fmt of
        None \<Rightarrow> Some (if fmt \<noteq> [] then [(True, fmt)] else [])
      | Some (pre, rest) \<Rightarrow>
          let lit = (if pre \<noteq> [] then [(False, pre)] else []) in
          (case rest of
             [] \<Rightarrow> Some lit
           | c # fmt1 \<Rightarrow>
               (case proto_conv db c args of
                  None \<Rightarrow> None
                | Some (out, args1) \<Rightarrow>
                    map_option (\<lambda>cs. lit @ out @ cs) (proto_printf db fmt1 args1))))"
  by auto
termination
  by (relation "measure (\<lambda>(db, fmt, args). length fmt)") (auto dest!: split_first_length)

declare proto_printf.simps [simp del]

section \<open>Reading tokens\<close>

type_synonym line = "string option"

definition strsep :: "char \<Rightarrow> line \<Rightarrow> line \<times> line" where
  "strsep c s =
     (case s of None \<Rightarrow> (None, None)
      | Some t \<Rightarrow> (case split_first c t of None \<Rightarrow> (Some t, None) | Some (a, b) \<Rightarrow> (Some a, Some b)))"

definition proto_get_ascii :: "line \<Rightarrow> line \<times> line" where
  "proto_get_ascii s =
     (case strsep (CHR '' '') s of
        (None, s1) \<Rightarrow> (None, s1)
      | (Some ret, s1) \<Rightarrow> if ret = [] then (None, None) else (Some (proto_unescape ret), s1))"

text \<open>The value and the line, \<open>None\<close> in the value for -1.\<close>

definition proto_get_char :: "line \<Rightarrow> (char option \<times> line) option" where
  "proto_get_char s =
     (case proto_get_ascii s of
        (None, s1) \<Rightarrow> Some (None, s1)
      | (Some cp, s1) \<Rightarrow>
          (case cp of [] \<Rightarrow> None
           | [c] \<Rightarrow> Some (Some c, s1)
           | _ \<Rightarrow> Some (None, None)))"

definition proto_get_rest :: "line \<Rightarrow> (string \<times> line) option" where
  "proto_get_rest s = (case s of None \<Rightarrow> None | Some ret \<Rightarrow> Some (proto_unescape ret, None))"

definition proto_get_int :: "line \<Rightarrow> nat \<Rightarrow> int option \<times> line" where
  "proto_get_int s base =
     (case proto_get_ascii s of
        (None, s1) \<Rightarrow> (None, s1)
      | (Some cp, s1) \<Rightarrow> (asciitoint cp base, s1))"

text \<open>\<open>strtoll\<close>, whose result is converted to \<open>size_t\<close>.\<close>

definition proto_get_sizet :: "line \<Rightarrow> nat \<Rightarrow> nat option \<times> line" where
  "proto_get_sizet s base =
     (case proto_get_ascii s of
        (None, s1) \<Rightarrow> (None, s1)
      | (Some cp, s1) \<Rightarrow>
          (case strtol base cp of
             (v, err, end) \<Rightarrow> (if err \<or> end \<noteq> [] then None else Some (nat (v mod 2 ^ 64)), s1)))"

definition proto_get_time :: "line \<Rightarrow> int option \<times> line" where
  "proto_get_time s =
     (case proto_get_ascii s of
        (None, s1) \<Rightarrow> (None, s1)
      | (Some cp, s1) \<Rightarrow>
          (case strtol 10 cp of (v, err, end) \<Rightarrow> (if err \<or> end \<noteq> [] then None else Some v, s1)))"

section \<open>The first exchanges\<close>

text \<open>
  Each exchange is a function of the lines the server sends: the status it returns (or the
  result) and the lines left. \<open>getln\<close> gives NULL at the end of the input.
\<close>

abbreviation STATUS_SUCCESS :: int where "STATUS_SUCCESS \<equiv> 0"
abbreviation STATUS_FAILURE :: int where "STATUS_FAILURE \<equiv> 1"
abbreviation STATUS_TRANSIENTFAILURE :: int where "STATUS_TRANSIENTFAILURE \<equiv> 2"
abbreviation STATUS_INTERRUPTED :: int where "STATUS_INTERRUPTED \<equiv> 3"

fun getln :: "string list \<Rightarrow> line \<times> string list" where
  "getln [] = (None, [])"
| "getln (l # ls) = (Some l, ls)"

definition proto_greet :: "string list \<Rightarrow> (int \<times> string list) option" where
  "proto_greet ls0 =
     (let (line, ls) = getln ls0; (cmd, line) = proto_get_ascii line in
      if cmd = Some ''OK'' then Some (STATUS_SUCCESS, ls)
      else if cmd = Some ''!'' then map_option (\<lambda>_. (STATUS_TRANSIENTFAILURE, ls)) (proto_get_rest line)
      else Some (STATUS_FAILURE, ls))"

definition PROTO_MAJ :: int where "PROTO_MAJ = 17"
definition PROTO_MIN :: int where "PROTO_MIN = 0"
definition PROTO_SWVER :: string where "PROTO_SWVER = ''CSUP_1_0''"

definition proto_negproto_request :: "idb \<Rightarrow> calls option" where
  "proto_negproto_request db =
     proto_printf db (''PROTO %d %d %s'' @ [CHR 0x0A]) [Aint PROTO_MAJ, Aint PROTO_MIN, Astr (Some PROTO_SWVER)]"

definition proto_negproto :: "string list \<Rightarrow> (int \<times> string list) option" where
  "proto_negproto ls0 =
     (let (line, ls) = getln ls0; (cmd, line) = proto_get_ascii line in
      if cmd = None \<or> line = None then Some (STATUS_FAILURE, ls)
      else if cmd = Some ''!'' then map_option (\<lambda>_. (1, ls)) (proto_get_rest line)
      else if cmd \<noteq> Some ''PROTO'' then Some (STATUS_FAILURE, ls)
      else (case proto_get_int line 10 of
          (None, _) \<Rightarrow> Some (STATUS_FAILURE, ls)
        | (Some maj, line) \<Rightarrow>
            (case proto_get_int line 10 of
               (None, _) \<Rightarrow> Some (STATUS_FAILURE, ls)
             | (Some mi, _) \<Rightarrow>
                 Some (if maj \<noteq> PROTO_MAJ \<or> mi \<noteq> PROTO_MIN then STATUS_FAILURE else STATUS_SUCCESS, ls))))"

definition FT_NUMBER :: nat where "FT_NUMBER = 6"

definition proto_fileattr_request :: "idb \<Rightarrow> calls option" where
  "proto_fileattr_request db =
     (let p = proto_printf db;
          rows = map (\<lambda>i. p (''%x'' @ [CHR 0x0A]) [Aint (uint (fattr_supported (int i)))]) [0..<FT_NUMBER];
          all = p (''ATTR %d'' @ [CHR 0x0A]) [Aint (int FT_NUMBER)] # rows @ [p (''.'' @ [CHR 0x0A]) []]
      in if None \<in> set all then None else Some (concat (map the all)))"

text \<open>The first loop: one line with a mask for each of the \<open>n\<close> types the server knows.\<close>

fun fileattr_rows :: "nat \<Rightarrow> nat \<Rightarrow> string list \<Rightarrow> (amask list \<times> string list) option" where
  "fileattr_rows i 0 ls = Some ([], ls)"
| "fileattr_rows i (Suc n) ls =
     (case getln ls of
        (None, _) \<Rightarrow> None
      | (line, ls1) \<Rightarrow>
          (case fst (proto_get_int line 16) of
             None \<Rightarrow> None
           | Some attr \<Rightarrow>
               map_option (\<lambda>(sup, ls2). ((fattr_supported (int i) AND of_int attr) # sup, ls2))
                 (fileattr_rows (Suc i) n ls1)))"

text \<open>
  The answer to the negotiation: \<open>Some (Some (support, rest))\<close> on success, \<open>Some None\<close> a protocol
  error, \<open>None\<close> a write outside the array \<open>support\<close>: only an upper bound of the count is checked.
\<close>

definition proto_fileattr :: "string list \<Rightarrow> (amask list \<times> string list) option option" where
  "proto_fileattr ls0 =
     (case getln ls0 of
        (None, _) \<Rightarrow> Some None
      | (line, ls) \<Rightarrow>
          let (cmd, line) = proto_get_ascii line; (n, line) = proto_get_int line 10 in
          (case n of
             None \<Rightarrow> Some None
           | Some n \<Rightarrow>
               if line \<noteq> None \<or> cmd \<noteq> Some ''ATTR'' \<or> n > int FT_NUMBER then Some None
               else (case fileattr_rows 0 (nat n) ls of
                   None \<Rightarrow> Some None
                 | Some (rows, ls1) \<Rightarrow>
                     if n < 0 then None
                     else (case getln ls1 of
                         (line, ls2) \<Rightarrow>
                           Some (if line \<noteq> Some ''.'' then None
                                 else Some (rows @ replicate (FT_NUMBER - nat n) 0, ls2))))))"

section \<open>Escaping is invertible\<close>

definition esc :: "string \<Rightarrow> string" where
  "esc s = concat (map (\<lambda>c. if needs_escape c then escape_seq c else [c]) s)"

lemma esc_plain: "\<forall>c \<in> set s. \<not> needs_escape c \<Longrightarrow> esc s = s"
  by (induction s) (auto simp: esc_def)

lemma esc_simps [simp]: "esc [] = []" "esc (a @ b) = esc a @ esc b"
  "esc (c # s) = (if needs_escape c then escape_seq c else [c]) @ esc s"
  by (simp_all add: esc_def)

lemma proto_escape_text: "calls_text (proto_escape s) = esc s"
proof (induction s rule: proto_escape.induct)
  case (1 s)
  let ?p = "\<lambda>c. \<not> needs_escape c"
  have pre: "esc (takeWhile ?p s) = takeWhile ?p s" by (rule esc_plain) (auto dest: set_takeWhileD)
  show ?case
  proof (cases "dropWhile ?p s")
    case Nil
    then have "\<forall>c \<in> set s. ?p c" by simp
    then show ?thesis
      by (subst proto_escape.simps) (simp add: takeWhile_all dropWhile_all esc_plain)
  next
    case (Cons c t)
    then have "s = takeWhile ?p s @ c # t" by (metis takeWhile_dropWhile_id)
    then have "esc s = esc (takeWhile ?p s @ c # t)" by simp
    moreover have "needs_escape c" using hd_dropWhile [of ?p s] Cons by simp
    ultimately show ?thesis using Cons pre "1.IH" [OF refl Cons] by (subst proto_escape.simps) simp
  qed
qed

lemma unescape_plain: "c \<noteq> CHR 0x5C \<Longrightarrow> proto_unescape (c # s) = c # proto_unescape s"
  by (cases s) auto

lemma unescape_esc [simp]: "proto_unescape (esc s @ t) = s @ proto_unescape t"
  by (induction s) (auto simp: escape_seq_def needs_escape_def unescape_plain unescape_char_def)

lemma esc_clean: "c \<in> {CHR '' '', CHR 0x09, CHR 0x0D, CHR 0x0A} \<Longrightarrow> c \<notin> set (esc s)"
  by (induction s) (auto simp: escape_seq_def needs_escape_def)

lemma esc_Nil_iff [simp]: "esc s = [] \<longleftrightarrow> s = []"
  by (cases s) (auto simp: escape_seq_def)

lemma esc_nul: "CHR 0x00 \<in> set (esc s) \<longleftrightarrow> CHR 0x00 \<in> set s"
  by (induction s) (auto simp: escape_seq_def needs_escape_def)

section \<open>Messages\<close>

text \<open>
  A message as both ends see it: a list of fields, each with the conversion that prints it
  and the routine that reads it. \<open>Flit\<close> is a letter of the format itself, \<open>Fchar\<close> a letter
  printed with \<open>%c\<close>.
\<close>

datatype field =
    Flit char | Fchar char | Fint int | Fhex nat | Foct nat | Ftime int | Fsize nat | Fstr string | Fattr fattr

fun field_fmt :: "field \<Rightarrow> string" where
  "field_fmt (Flit c) = [c]"
| "field_fmt (Fchar c) = ''%c''"
| "field_fmt (Fint i) = ''%d''"
| "field_fmt (Fhex n) = ''%x''"
| "field_fmt (Foct n) = ''%o''"
| "field_fmt (Ftime t) = ''%t''"
| "field_fmt (Fsize n) = ''%z''"
| "field_fmt (Fstr s) = ''%s''"
| "field_fmt (Fattr fa) = ''%a''"

fun field_args :: "field \<Rightarrow> parg list" where
  "field_args (Flit c) = []"
| "field_args (Fchar c) = [Achar c]"
| "field_args (Fint i) = [Aint i]"
| "field_args (Fhex n) = [Aint (int n)]"
| "field_args (Foct n) = [Aint (int n)]"
| "field_args (Ftime t) = [Atime t]"
| "field_args (Fsize n) = [Asize n]"
| "field_args (Fstr s) = [Astr (Some s)]"
| "field_args (Fattr fa) = [Afattr fa]"

fun field_text :: "idb \<Rightarrow> field \<Rightarrow> string" where
  "field_text db (Flit c) = [c]"
| "field_text db (Fchar c) = [c]"
| "field_text db (Fint i) = int_str i"
| "field_text db (Fhex n) = num_str 16 n"
| "field_text db (Foct n) = num_str 8 n"
| "field_text db (Ftime t) = int_str t"
| "field_text db (Fsize n) = num_str 10 n"
| "field_text db (Fstr s) = esc s"
| "field_text db (Fattr fa) = esc (the (fattr_encode db fa None 0))"

fun field_ok :: "idb \<Rightarrow> field \<Rightarrow> bool" where
  "field_ok db (Flit c) \<longleftrightarrow> \<not> needs_escape c \<and> c \<noteq> CHR ''%'' \<and> c \<noteq> CHR 0x00"
| "field_ok db (Fchar c) \<longleftrightarrow> \<not> needs_escape c \<and> c \<noteq> CHR 0x00"
| "field_ok db (Fint i) \<longleftrightarrow> INT_MIN \<le> i \<and> i \<le> INT_MAX"
| "field_ok db (Fhex n) \<longleftrightarrow> int n \<le> INT_MAX"
| "field_ok db (Foct n) \<longleftrightarrow> int n \<le> INT_MAX"
| "field_ok db (Ftime t) \<longleftrightarrow> LONG_MIN \<le> t \<and> t \<le> LONG_MAX"
| "field_ok db (Fsize n) \<longleftrightarrow> int n \<le> LONG_MAX"
| "field_ok db (Fstr s) \<longleftrightarrow> s \<noteq> [] \<and> CHR 0x00 \<notin> set s"
| "field_ok db (Fattr fa) \<longleftrightarrow> wf_fattr db fa \<and> CHR 0x00 \<notin> set (the (fattr_encode db fa None 0))"

text \<open>Reading one field of the kind of \<open>f\<close>.\<close>

definition get_field :: "idb \<Rightarrow> field \<Rightarrow> line \<Rightarrow> (field \<times> line) option" where
  "get_field db f s =
     (case f of
        Flit c \<Rightarrow> (case proto_get_char s of Some (Some d, s1) \<Rightarrow> Some (Flit d, s1) | _ \<Rightarrow> None)
      | Fchar c \<Rightarrow> (case proto_get_char s of Some (Some d, s1) \<Rightarrow> Some (Fchar d, s1) | _ \<Rightarrow> None)
      | Fint i \<Rightarrow> (case proto_get_int s 10 of (Some j, s1) \<Rightarrow> Some (Fint j, s1) | _ \<Rightarrow> None)
      | Fhex n \<Rightarrow> (case proto_get_int s 16 of (Some j, s1) \<Rightarrow> Some (Fhex (nat j), s1) | _ \<Rightarrow> None)
      | Foct n \<Rightarrow> (case proto_get_int s 8 of (Some j, s1) \<Rightarrow> Some (Foct (nat j), s1) | _ \<Rightarrow> None)
      | Ftime t \<Rightarrow> (case proto_get_time s of (Some j, s1) \<Rightarrow> Some (Ftime j, s1) | _ \<Rightarrow> None)
      | Fsize n \<Rightarrow> (case proto_get_sizet s 10 of (Some j, s1) \<Rightarrow> Some (Fsize j, s1) | _ \<Rightarrow> None)
      | Fstr x \<Rightarrow> (case proto_get_ascii s of (Some y, s1) \<Rightarrow> Some (Fstr y, s1) | _ \<Rightarrow> None)
      | Fattr fa \<Rightarrow>
          (case proto_get_ascii s of
             (Some y, s1) \<Rightarrow> (case fattr_decode db y of Some (Some fb) \<Rightarrow> Some (Fattr fb, s1) | _ \<Rightarrow> None)
           | _ \<Rightarrow> None))"

fun get_fields :: "idb \<Rightarrow> field list \<Rightarrow> line \<Rightarrow> (field list \<times> line) option" where
  "get_fields db [] s = Some ([], s)"
| "get_fields db (f # fs) s =
     (case get_field db f s of
        None \<Rightarrow> None
      | Some (g, s1) \<Rightarrow> map_option (\<lambda>(gs, s2). (g # gs, s2)) (get_fields db fs s1))"

definition spaced :: "string list \<Rightarrow> string" where
  "spaced ws = (case ws of [] \<Rightarrow> [] | w # ws \<Rightarrow> w @ concat (map ((#) (CHR '' '')) ws))"

definition message_fmt :: "field list \<Rightarrow> string" where
  "message_fmt fs = spaced (map field_fmt fs) @ [CHR 0x0A]"

definition message_text :: "idb \<Rightarrow> field list \<Rightarrow> string" where
  "message_text db fs = spaced (map (field_text db) fs)"

subsection \<open>What a message looks like\<close>

definition printf_text :: "idb \<Rightarrow> string \<Rightarrow> parg list \<Rightarrow> string option" where
  "printf_text db fmt args = map_option calls_text (proto_printf db fmt args)"

lemma printf_text_Nil [simp]: "printf_text db [] args = Some []"
  by (simp add: printf_text_def proto_printf.simps [of db "[]"])

lemma printf_text_lit: "c \<noteq> CHR ''%'' \<Longrightarrow> printf_text db (c # fmt) args = map_option ((#) c) (printf_text db fmt args)"
  by (cases "split_first (CHR ''%'') fmt")
    (auto simp: printf_text_def proto_printf.simps [of db "c # fmt"] proto_printf.simps [of db fmt] Let_def
      option.map_comp o_def split: option.splits list.splits)

lemma printf_text_conv:
  "printf_text db (CHR ''%'' # c # fmt) args =
     (case proto_conv db c args of None \<Rightarrow> None
      | Some (out, args1) \<Rightarrow> map_option ((@) (calls_text out)) (printf_text db fmt args1))"
  by (auto simp: printf_text_def proto_printf.simps [of db "CHR ''%'' # c # fmt"] option.map_comp o_def split: option.splits)

lemma wf_encodes: "wf_fattr db fa \<Longrightarrow> \<exists>t. fattr_encode db fa None 0 = Some t \<and> t \<noteq> [] \<and> fattr_decode db t = Some (Some fa)"
  using encode_text [OF _ refl] decode_text [OF _ refl] by (fastforce simp: fattr_text_def attr_piece_def)

lemma printf_field:
  assumes "field_ok db f"
  shows "printf_text db (field_fmt f @ fmt) (field_args f @ args) = map_option ((@) (field_text db f)) (printf_text db fmt args)"
proof -
  have m: "int n mod 2 ^ 32 = int n" if "int n \<le> INT_MAX" for n using that by (simp add: int_limits)
  show ?thesis
    using assms m
    by (cases f) (auto simp: printf_text_conv printf_text_lit proto_conv_def proto_escape_text append_Cons [abs_def]
        dest!: wf_encodes split: option.splits)
qed

lemma printf_spaced:
  assumes "\<forall>f \<in> set fs. field_ok db f"
  shows "printf_text db (concat (map ((#) (CHR '' '')) (map field_fmt fs)) @ [CHR 0x0A]) (concat (map field_args fs)) =
    Some (concat (map ((#) (CHR '' '')) (map (field_text db) fs)) @ [CHR 0x0A])"
  using assms by (induction fs) (simp_all add: printf_text_lit printf_field)

lemma printf_message:
  assumes "\<forall>f \<in> set fs. field_ok db f"
  shows "printf_text db (message_fmt fs) (concat (map field_args fs)) = Some (message_text db fs @ [CHR 0x0A])"
  using assms printf_spaced [of "tl fs" db]
  by (cases fs) (simp_all add: message_fmt_def message_text_def spaced_def printf_text_lit printf_field)

subsection \<open>Reading it back\<close>

definition line_tail :: "line \<Rightarrow> string" where
  "line_tail r = (case r of None \<Rightarrow> [] | Some t \<Rightarrow> CHR '' '' # t)"

lemma get_ascii_token:
  assumes "w \<noteq> []" "CHR '' '' \<notin> set w"
  shows "proto_get_ascii (Some (w @ line_tail r)) = (Some (proto_unescape w), r)"
proof -
  have "split_first (CHR '' '') (w @ line_tail r) = map_option (\<lambda>t. (w, t)) r"
    using assms by (cases r) (simp_all add: line_tail_def split_first_None)
  then show ?thesis using assms by (cases r) (simp_all add: proto_get_ascii_def strsep_def line_tail_def)
qed

lemma unescape_id: "CHR 0x5C \<notin> set w \<Longrightarrow> proto_unescape w = w"
  by (induction w) (auto simp: unescape_plain)

lemma digits_clean:
  assumes "2 \<le> b" "b \<le> 16" "c \<in> set (num_str b n)"
  shows "\<not> needs_escape c \<and> c \<noteq> CHR 0x00"
  using num_str_digits [OF assms(1,2), of n] assms(3) by (fastforce simp: needs_escape_def digit_val_def)

lemma int_str_clean: "c \<in> set (int_str i) \<Longrightarrow> \<not> needs_escape c \<and> c \<noteq> CHR 0x00"
  using digits_clean [of 10] by (auto simp: int_str_def needs_escape_def split: if_splits)

definition wire_safe :: "string \<Rightarrow> bool" where
  "wire_safe w \<longleftrightarrow> (\<forall>c \<in> set w. c \<notin> {CHR '' '', CHR 0x09, CHR 0x0D, CHR 0x0A, CHR 0x00})"

lemma wire_safe_esc: "CHR 0x00 \<notin> set s \<Longrightarrow> wire_safe (esc s)"
  unfolding wire_safe_def using esc_clean [of _ s] esc_nul [of s] by blast

lemma wire_safe_plain: "\<forall>c \<in> set s. \<not> needs_escape c \<and> c \<noteq> CHR 0x00 \<Longrightarrow> wire_safe s"
  unfolding wire_safe_def needs_escape_def by blast

lemma wire_safe_num: "2 \<le> b \<Longrightarrow> b \<le> 16 \<Longrightarrow> wire_safe (num_str b n)"
  using digits_clean by (intro wire_safe_plain) blast

lemma field_text_clean:
  assumes "field_ok db f"
  shows "field_text db f \<noteq> []" "wire_safe (field_text db f)"
proof -
  show "field_text db f \<noteq> []"
    using assms by (cases f) (auto simp: int_str_def dest: wf_encodes)
  show "wire_safe (field_text db f)"
    using assms int_str_clean by (cases f) (simp_all add: wire_safe_esc wire_safe_num wire_safe_plain)
qed

lemma asciitoint_num_str:
  assumes "2 \<le> b" "b \<le> 16" "int n \<le> INT_MAX"
  shows "asciitoint (num_str b n) b = Some (int n)"
proof -
  have "int n \<le> LONG_MAX" using assms(3) by (simp add: int_limits)
  with assms show ?thesis by (simp add: asciitoint_def strtol_num_str int_limits)
qed

lemma asciitoint_int_str:
  assumes "INT_MIN \<le> i" "i \<le> INT_MAX"
  shows "asciitoint (int_str i) 10 = Some i"
proof -
  have "LONG_MIN \<le> i" "i \<le> LONG_MAX" using assms by (simp_all add: int_limits)
  with assms show ?thesis by (simp add: asciitoint_def strtol_int_str)
qed

lemma get_field_text:
  assumes ok: "field_ok db f"
  shows "get_field db f (Some (field_text db f @ line_tail r)) = Some (f, r)"
proof -
  have tok: "proto_get_ascii (Some (field_text db f @ line_tail r)) = (Some (proto_unescape (field_text db f)), r)"
    using field_text_clean [OF ok] by (intro get_ascii_token) (auto simp: wire_safe_def)
  have num: "proto_unescape (num_str b n) = num_str b n" if "2 \<le> b" "b \<le> 16" for b n
    using digits_clean [OF that] by (intro unescape_id) (auto simp: needs_escape_def)
  have int: "proto_unescape (int_str i) = int_str i" for i
    using int_str_clean by (intro unescape_id) (auto simp: needs_escape_def)
  have e: "proto_unescape (esc s) = s" for s using unescape_esc [of s "[]"] by simp
  show ?thesis
    using ok tok
    by (cases f) (auto simp: get_field_def proto_get_char_def proto_get_int_def proto_get_time_def proto_get_sizet_def
        num int e asciitoint_num_str asciitoint_int_str strtol_int_str strtol_num_str needs_escape_def int_limits
        dest: wf_encodes)
qed

lemma spaced_Cons: "spaced (w # ws) = w @ line_tail (if ws = [] then None else Some (spaced ws))"
  by (cases ws) (simp_all add: spaced_def line_tail_def)

lemma get_fields_message:
  assumes "\<forall>f \<in> set fs. field_ok db f" "fs \<noteq> []"
  shows "get_fields db fs (Some (message_text db fs)) = Some (fs, None)"
  using assms
proof (induction fs)
  case (Cons f fs)
  then show ?case by (cases "fs = []") (simp_all add: message_text_def spaced_Cons get_field_text)
qed simp

lemma message_text_clean:
  assumes "\<forall>f \<in> set fs. field_ok db f"
  shows "CHR 0x0A \<notin> set (message_text db fs) \<and> CHR 0x00 \<notin> set (message_text db fs)"
  using assms
proof (induction fs)
  case (Cons f fs)
  then have "wire_safe (field_text db f)" by (intro field_text_clean) simp
  then show ?case using Cons
    by (cases "fs = []") (auto simp: message_text_def spaced_Cons line_tail_def wire_safe_def)
qed (simp add: message_text_def spaced_def)

definition message_calls :: "idb \<Rightarrow> field list \<Rightarrow> calls" where
  "message_calls db fs = the (proto_printf db (message_fmt fs) (concat (map field_args fs)))"

definition message_ok :: "idb \<Rightarrow> field list \<Rightarrow> bool" where
  "message_ok db fs \<longleftrightarrow> fs \<noteq> [] \<and> (\<forall>f \<in> set fs. field_ok db f)"

lemma message_calls_ok:
  assumes "message_ok db fs"
  shows "proto_printf db (message_fmt fs) (concat (map field_args fs)) = Some (message_calls db fs)"
    and "calls_text (message_calls db fs) = message_text db fs @ [CHR 0x0A]"
  using printf_message [of fs db] assms by (auto simp: message_ok_def message_calls_def printf_text_def)

lemma lines_of_Cons:
  assumes "CHR 0x0A \<notin> set t"
  shows "lines_of (t @ CHR 0x0A # rest) = (t @ [CHR 0x0A]) # lines_of rest"
proof -
  have "find_nl (t @ CHR 0x0A # rest) = Some (length t)" using assms by (induction t) auto
  then have "first_line (t @ CHR 0x0A # rest) = t @ [CHR 0x0A]" by (simp add: first_line_def)
  then show ?thesis by (subst lines_of.simps) simp
qed

lemma received_lines:
  assumes "\<forall>m \<in> set ms. message_ok db m"
  shows "map c_line (lines_of (calls_text (concat (map (message_calls db) ms)))) = map (message_text db) ms"
  using assms
proof (induction ms)
  case (Cons m ms)
  let ?t = "message_text db m"
  have c: "CHR 0x0A \<notin> set ?t" "CHR 0x00 \<notin> set ?t"
    using message_text_clean [of m db] Cons.prems by (auto simp: message_ok_def)
  have "c_line (?t @ [CHR 0x0A]) = ?t"
    using c unfolding c_line_def by (subst takeWhile_append_stop) auto
  then show ?case using Cons message_calls_ok(2) [of db m] c(1) by (simp add: lines_of_Cons)
qed (simp add: lines_of.simps)

section \<open>What the protocol promises\<close>

text \<open>
  Claim C11. The wire format is faithful: a message of characters, numbers, times, sizes, strings
  and file attributes printed by \<open>proto_printf\<close> is one line, without a newline or NUL inside,
  and reading it token by token gives every field back and ends exactly at the end of the line,
  whatever blanks, newlines or backslashes the strings contain.
\<close>

theorem message_roundtrip:
  assumes "message_ok db fs"
  shows "\<exists>cs. proto_printf db (message_fmt fs) (concat (map field_args fs)) = Some cs \<and>
    calls_text cs = message_text db fs @ [CHR 0x0A] \<and>
    CHR 0x0A \<notin> set (message_text db fs) \<and> CHR 0x00 \<notin> set (message_text db fs) \<and>
    get_fields db fs (Some (message_text db fs)) = Some (fs, None)"
  using message_calls_ok [OF assms] message_text_clean [of fs db] get_fields_message [of fs db] assms
  by (auto simp: message_ok_def)

theorem message_roundtrip_witness:
  "let db = \<lparr>getuserbyid = (\<lambda>u. None), getuidbyname = (\<lambda>n. None), getgroupbyid = (\<lambda>g. None), getgidbyname = (\<lambda>n. None)\<rparr>;
       fs = [Flit (CHR ''U''), Fstr ''a b'', Fchar (CHR ''x'')]
   in message_ok db fs \<and> message_text db fs = ''U a'' @ [CHR 0x5C] @ ''_b x'' \<and>
      get_fields db fs (Some (message_text db fs)) = Some (fs, None)"
proof -
  let ?db = "\<lparr>getuserbyid = (\<lambda>u. None), getuidbyname = (\<lambda>n. None), getgroupbyid = (\<lambda>g. None), getgidbyname = (\<lambda>n. None)\<rparr>"
  let ?fs = "[Flit (CHR ''U''), Fstr ''a b'', Fchar (CHR ''x'')]"
  have ok: "message_ok ?db ?fs" by (simp add: message_ok_def needs_escape_def int_limits)
  have "message_text ?db ?fs = ''U a'' @ [CHR 0x5C] @ ''_b x''"
    by (simp add: message_text_def spaced_def escape_seq_def needs_escape_def int_str_def num_str.simps digit_char_def)
  with ok message_roundtrip [OF ok] show ?thesis by (auto simp: Let_def)
qed

text \<open>
  Claim C7. The same through the streams: the calls of a list of messages on a buffered stream
  (without a close function, like the streams of the protocol) return. If the write function
  never fails, the result is 0 and what was sent is the texts of the messages with a newline
  each; another stream that reads these bytes, in whatever pieces, returns lines that parse to
  the same messages, one line each, in order. The calls report an error only over a write
  function that can fail.
\<close>

theorem messages_over_streams:
  assumes w: "writer wfn sent tries kok" "kok k" "sent k = []"
    and r: "sure_reader rfn rest rok"
    and ms: "\<forall>m \<in> set ms. message_ok db m" and x: "md5_appends x"
    and n: "length (calls_text (concat (map (message_calls db) ms))) + tries k + 2 < n"
  shows "\<exists>st1 r. Option.bind (open_writer n x k wfn None STREAM_FILTER_NULL)
      (\<lambda>st. stream_puts n x st (concat (map (message_calls db) ms))) = Some (st1, r) \<and>
    (r = 0 \<and> sent (cookie st1) = concat (map (\<lambda>m. message_text db m @ [CHR 0x0A]) ms) \<and>
       (\<forall>k2. rok k2 \<longrightarrow> rest k2 = sent (cookie st1) \<longrightarrow>
         (\<exists>st2 ls. Option.bind (open_reader k2 rfn) (\<lambda>st. stream_lines n n x2 st False) = Some (st2, ls) \<and>
            list_all2 (\<lambda>m l. get_fields db m (Some l) = Some (m, None)) ms ls)) \<or>
     r = -1 \<and> write_can_fail wfn kok)"
proof -
  let ?cs = "concat (map (message_calls db) ms)" and ?t = "calls_text (concat (map (message_calls db) ms))"
  have t: "?t = concat (map (\<lambda>m. message_text db m @ [CHR 0x0A]) ms)"
    using ms message_calls_ok(2) [of db] by (induction ms) (auto simp: calls_text_def)
  from writer.session_ok [OF w(1) x _ w(2), of STREAM_FILTER_NULL ?cs n None] n
  obtain st1 r where s: "Option.bind (open_writer n x k wfn None STREAM_FILTER_NULL) (\<lambda>st. stream_puts n x st ?cs) = Some (st1, r)"
    "r = 0 \<and> sent (cookie st1) = ?t \<or> r = -1 \<and> write_can_fail wfn kok" using w(3) by (auto simp: calls_text_def)
  have "\<exists>st2 ls. Option.bind (open_reader k2 rfn) (\<lambda>st. stream_lines n n x2 st False) = Some (st2, ls) \<and>
      list_all2 (\<lambda>m l. get_fields db m (Some l) = Some (m, None)) ms ls" if k2: "rok k2" "rest k2 = ?t" for k2
  proof -
    have "length (rest k2) < n" using k2 n by simp
    from sure_reader.open_lines_ok [OF r k2(1) this, of x2 False]
    obtain st2 where "Option.bind (open_reader k2 rfn) (\<lambda>st. stream_lines n n x2 st False) =
        Some (st2, map (message_text db) ms)"
      using received_lines [OF ms] k2 by auto
    moreover have "list_all2 (\<lambda>m l. get_fields db m (Some l) = Some (m, None)) ms (map (message_text db) ms)"
      using ms by (auto simp: list_all2_map2 message_ok_def intro!: list.rel_refl_strong get_fields_message)
    ultimately show ?thesis by blast
  qed
  with s show ?thesis unfolding t by (intro exI [of _ st1] exI [of _ r]) auto
qed

theorem messages_over_streams_witness:
  "let db = \<lparr>getuserbyid = (\<lambda>u. None), getuidbyname = (\<lambda>n. None), getgroupbyid = (\<lambda>g. None), getgidbyname = (\<lambda>n. None)\<rparr>;
       ms = [[Flit (CHR ''U''), Fstr ''a b''], [Fchar (CHR ''.'')]];
       t = ''U a'' @ [CHR 0x5C] @ ''_b'' @ [CHR 0x0A] @ ''.'' @ [CHR 0x0A]
   in \<exists>st1 st2 ls. Option.bind (open_writer 50 plain_lib (buf_new 3) stream_append_buf None STREAM_FILTER_NULL)
        (\<lambda>st. stream_puts 50 plain_lib st (concat (map (message_calls db) ms))) = Some (st1, 0) \<and>
      appended (cookie st1) = t \<and>
      Option.bind (open_reader \<lparr>bdata = t, bsize = length t, bin = 0, boff = length t\<rparr> stream_read_buf)
        (\<lambda>st. stream_lines 50 50 plain_lib st False) = Some (st2, ls) \<and>
      list_all2 (\<lambda>m l. get_fields db m (Some l) = Some (m, None)) ms ls"
proof -
  let ?db = "\<lparr>getuserbyid = (\<lambda>u. None), getuidbyname = (\<lambda>n. None), getgroupbyid = (\<lambda>g. None), getgidbyname = (\<lambda>n. None)\<rparr>"
  let ?ms = "[[Flit (CHR ''U''), Fstr ''a b''], [Fchar (CHR ''.'')]]"
  let ?t = "''U a'' @ [CHR 0x5C] @ ''_b'' @ [CHR 0x0A] @ ''.'' @ [CHR 0x0A]"
  let ?k2 = "\<lparr>bdata = ?t, bsize = length ?t, bin = 0, boff = length ?t\<rparr>"
  have ok: "\<forall>m \<in> set ?ms. message_ok ?db m" by (simp add: message_ok_def needs_escape_def)
  have t: "calls_text (concat (map (message_calls ?db) ?ms)) = concat (map (\<lambda>m. message_text ?db m @ [CHR 0x0A]) ?ms)"
    using ok message_calls_ok(2) [of ?db] by simp
  have t': "concat (map (\<lambda>m. message_text ?db m @ [CHR 0x0A]) ?ms) = ?t"
    by (simp add: message_text_def spaced_def escape_seq_def needs_escape_def)
  have n: "length (calls_text (concat (map (message_calls ?db) ?ms))) + 0 + 2 < 50" unfolding t t' by simp
  have b: "append_ok (buf_new 3)" "appended (buf_new 3) = []" "md5_appends plain_lib"
    by (simp_all add: append_ok_def buf_new_def appended_def md5_appends_def plain_lib_def)
  obtain st1 where s: "Option.bind (open_writer 50 plain_lib (buf_new 3) stream_append_buf None STREAM_FILTER_NULL)
        (\<lambda>st. stream_puts 50 plain_lib st (concat (map (message_calls ?db) ?ms))) = Some (st1, 0)"
      "appended (cookie st1) = ?t"
      "\<And>k2. read_left k2 = appended (cookie st1) \<Longrightarrow>
       (\<exists>st2 ls. Option.bind (open_reader k2 stream_read_buf) (\<lambda>st. stream_lines 50 50 plain_lib st False) = Some (st2, ls) \<and>
          list_all2 (\<lambda>m l. get_fields ?db m (Some l) = Some (m, None)) ?ms ls)"
    using messages_over_streams [OF bufw.writer_axioms b(1,2) bufr.sure_reader_axioms ok b(3) n, where ?x2.0 = plain_lib]
    unfolding t' by (elim exE conjE disjE) (use bufw_never_fails in \<open>simp_all only: not_False_eq_True\<close>)
  have "read_left ?k2 = appended (cookie st1)" unfolding s(2) by (simp add: read_left_def)
  from s(3) [OF this] s(1,2) show ?thesis unfolding Let_def by blast
qed

section \<open>The exchanges\<close>

lemma fileattr_rows_sub:
  "fileattr_rows i n ls = Some (rows, ls1) \<Longrightarrow>
   length rows = n \<and> (\<forall>j < n. rows ! j AND fattr_supported (int (i + j)) = rows ! j)"
proof (induction i n ls arbitrary: rows rule: fileattr_rows.induct)
  case (2 i n ls)
  from "2.prems" obtain line ls2 attr sup where h: "getln ls = (Some line, ls2)" "fst (proto_get_int (Some line) 16) = Some attr"
    "fileattr_rows (Suc i) n ls2 = Some (sup, ls1)" "rows = (fattr_supported (int i) AND of_int attr) # sup"
    by (auto split: prod.splits option.splits)
  have IH: "length sup = n" "\<And>j. j < n \<Longrightarrow> sup ! j AND fattr_supported (int (Suc i + j)) = sup ! j"
    using "2.IH" [OF h(1) [symmetric] refl h(2) h(3)] by auto
  have "rows ! j AND fattr_supported (int (i + j)) = rows ! j" if "j < Suc n" for j
  proof (cases j)
    case 0
    have "(a AND b) AND a = a AND b" for a b :: amask by (metis and.left_idem and.commute)
    then show ?thesis using h(4) 0 by simp
  next
    case (Suc k)
    then show ?thesis using IH(2) [of k] h(4) that by simp
  qed
  then show ?case using IH(1) h(4) by simp
qed simp

text \<open>
  Claim C22. A negotiation that succeeds never enables an attribute the client does not support:
  there is one mask for each file type, and each is a subset of the client's own support for
  that type, whatever the server answers; types the server does not know get none.
\<close>

theorem fileattr_within_support:
  assumes "proto_fileattr ls = Some (Some (supp, rest))"
  shows "length supp = FT_NUMBER \<and> (\<forall>i < FT_NUMBER. supp ! i AND fattr_supported (int i) = supp ! i)"
proof -
  obtain n rows ls1 ls2 where n: "0 \<le> n" "n \<le> int FT_NUMBER" "fileattr_rows 0 (nat n) ls1 = Some (rows, ls2)"
    and supp: "supp = rows @ replicate (FT_NUMBER - nat n) 0"
    using assms unfolding proto_fileattr_def Let_def
    by (simp add: not_less split: prod.splits option.splits if_splits)
  from fileattr_rows_sub [OF n(3)] n(2) supp show ?thesis by (auto simp: nth_append)
qed

theorem fileattr_within_support_witness:
  "let ls = [''ATTR 2'', ''0'', ''a7'', ''.''] in \<exists>supp rest. proto_fileattr ls = Some (Some (supp, rest)) \<and>
     (length supp = FT_NUMBER \<and> (\<forall>i < FT_NUMBER. supp ! i AND fattr_supported (int i) = supp ! i))"
proof -
  have "proto_fileattr [''ATTR 2'', ''0'', ''a7'', ''.''] = Some (Some ([0, 0xa7, 0, 0, 0, 0], []))"
    by code_simp
  from fileattr_within_support [OF this] this show ?thesis unfolding Let_def by blast
qed

text \<open>
  Two faults a server can cause: a greeting that is just the rejection mark dereferences NULL in
  \<open>proto_get_rest\<close>, whose check is on the wrong pointer (an answer of this form to \<open>proto_negproto\<close> fails
  cleanly, because the rest of the line is checked first), and a negative count in the attribute negotiation writes
  before the array on the stack.
\<close>

lemma server_faults:
  "proto_greet (''!'' # ls) = None \<and>
   (\<forall>n. INT_MIN \<le> n \<and> n < 0 \<longrightarrow> proto_fileattr ((''ATTR '' @ int_str n) # ls) = None)"
proof (intro conjI allI impI)
  show "proto_greet (''!'' # ls) = None" by code_simp
  fix n :: int
  assume n: "INT_MIN \<le> n \<and> n < 0"
  have "proto_get_ascii (Some (''ATTR'' @ line_tail (Some (int_str n)))) = (Some ''ATTR'', Some (int_str n))"
    by (subst get_ascii_token) (simp_all add: unescape_plain)
  then have 1: "proto_get_ascii (Some (''ATTR '' @ int_str n)) = (Some ''ATTR'', Some (int_str n))"
    by (simp add: line_tail_def)
  have "field_ok undefined (Fint n)" using n by (simp add: int_limits)
  from get_field_text [OF this, of None] have 2: "proto_get_int (Some (int_str n)) 10 = (Some n, None)"
    by (auto simp: get_field_def line_tail_def split: prod.splits option.splits)
  show "proto_fileattr ((''ATTR '' @ int_str n) # ls) = None"
    using n 1 2 by (simp add: proto_fileattr_def FT_NUMBER_def)
qed

end
