(* ===== verification/Fnmatch.thy ===== *)
theory Fnmatch
  imports Prelude
begin

unbundle bit_operations_syntax

text \<open>
  The pattern matcher, \<open>fnmatch.c\<close>. Pointers into the pattern and the name are the texts that
  are left; \<open>pre\<close> is what lies between \<open>stringstart\<close> and \<open>string\<close>, last character first, for
  the tests that look back. A recursive call starts with a new \<open>stringstart\<close>.
\<close>

type_synonym fnflags = "32 word"

abbreviation FNM_NOESCAPE :: fnflags where "FNM_NOESCAPE \<equiv> 0x01"
abbreviation FNM_PATHNAME :: fnflags where "FNM_PATHNAME \<equiv> 0x02"
abbreviation FNM_PERIOD :: fnflags where "FNM_PERIOD \<equiv> 0x04"
abbreviation FNM_LEADING_DIR :: fnflags where "FNM_LEADING_DIR \<equiv> 0x08"
abbreviation FNM_CASEFOLD :: fnflags where "FNM_CASEFOLD \<equiv> 0x10"
abbreviation FNM_PREFIX_DIRS :: fnflags where "FNM_PREFIX_DIRS \<equiv> 0x20"

definition fnm :: "fnflags \<Rightarrow> fnflags \<Rightarrow> bool" where
  "fnm flags f \<longleftrightarrow> flags AND f \<noteq> 0"

definition fold_case :: "fnflags \<Rightarrow> char \<Rightarrow> char" where
  "fold_case flags c = (if fnm flags FNM_CASEFOLD then c_tolower c else c)"

section \<open>Bracket expressions\<close>

text \<open>A character of the expression, perhaps quoted, and an element: a character or a range.\<close>

definition range_char :: "fnflags \<Rightarrow> string \<Rightarrow> (char \<times> string) option" where
  "range_char flags pattern =
     (case pattern of
        [] \<Rightarrow> None
      | c # p \<Rightarrow>
          if c = CHR 0x5C \<and> \<not> fnm flags FNM_NOESCAPE then (case p of [] \<Rightarrow> None | d # q \<Rightarrow> Some (d, q))
          else Some (c, p))"

definition range_item :: "fnflags \<Rightarrow> string \<Rightarrow> (char \<times> char option \<times> string) option" where
  "range_item flags pattern =
     (case range_char flags pattern of
        None \<Rightarrow> None
      | Some (c, p1) \<Rightarrow>
          (case p1 of
             d # c2 # p2 \<Rightarrow>
               if d = CHR ''-'' \<and> c2 \<noteq> CHR '']''
               then map_option (\<lambda>(e, p3). (c, Some e, p3)) (range_char flags (c2 # p2))
               else Some (c, None, p1)
           | _ \<Rightarrow> Some (c, None, p1)))"

lemma range_char_shorter: "range_char flags p = Some (c, q) \<Longrightarrow> length q < length p"
  by (auto simp: range_char_def split: list.splits if_splits)

lemma range_item_shorter: "range_item flags p = Some (c, hi, q) \<Longrightarrow> length q < length p"
  by (auto simp: range_item_def dest!: range_char_shorter split: option.splits list.splits if_splits)

definition range_hit :: "fnflags \<Rightarrow> char \<Rightarrow> char \<Rightarrow> char option \<Rightarrow> bool" where
  "range_hit flags test c hi =
     (case hi of
        None \<Rightarrow> fold_case flags c = test
      | Some e \<Rightarrow> (of_char (fold_case flags c) :: nat) \<le> of_char test \<and>
                  (of_char test :: nat) \<le> of_char (fold_case flags e))"

text \<open>The loop of \<open>rangematch\<close>: whether an element matched and the pattern behind the bracket.\<close>

function range_loop :: "fnflags \<Rightarrow> char \<Rightarrow> bool \<Rightarrow> string \<Rightarrow> (bool \<times> string) option" where
  "range_loop flags test ok pattern =
     (if pattern \<noteq> [] \<and> hd pattern = CHR '']'' then Some (ok, tl pattern)
      else (case range_item flags pattern of
              None \<Rightarrow> None
            | Some (c, hi, p) \<Rightarrow> range_loop flags test (ok \<or> range_hit flags test c hi) p))"
  by pat_completeness auto
termination
  by (relation "measure (\<lambda>(flags, test, ok, pattern). length pattern)") (auto dest: range_item_shorter)

declare range_loop.simps [simp del]

definition rangematch :: "string \<Rightarrow> char \<Rightarrow> fnflags \<Rightarrow> string option" where
  "rangematch pattern test flags =
     (let negate = (pattern \<noteq> [] \<and> (hd pattern = CHR ''!'' \<or> hd pattern = CHR ''^''));
          p = (if negate then tl pattern else pattern)
      in (case range_loop flags (fold_case flags test) False p of
            None \<Rightarrow> None
          | Some (ok, rest) \<Rightarrow> if ok = negate then None else Some rest))"

lemma range_loop_shorter: "range_loop flags test ok p = Some (b, rest) \<Longrightarrow> length rest < length p"
proof (induction flags test ok p rule: range_loop.induct)
  case (1 flags test ok pattern)
  show ?case
  proof (cases "pattern \<noteq> [] \<and> hd pattern = CHR '']''")
    case True
    then show ?thesis using "1.prems" by (auto simp: range_loop.simps [of flags test ok pattern])
  next
    case False
    then obtain c hi p where i: "range_item flags pattern = Some (c, hi, p)"
      "range_loop flags test (ok \<or> range_hit flags test c hi) p = Some (b, rest)"
      using "1.prems" by (auto simp: range_loop.simps [of flags test ok pattern] split: option.splits if_splits)
    from "1.IH" [OF False i(1) refl refl i(2)] range_item_shorter [OF i(1)] show ?thesis by simp
  qed
qed

lemma rangematch_shorter: "rangematch p c flags = Some rest \<Longrightarrow> length rest < length p"
  by (cases p) (auto simp: rangematch_def Let_def dest!: range_loop_shorter split: option.splits if_splits)

section \<open>The matcher\<close>

text \<open>The test for a leading period, and the comparison of two characters.\<close>

definition period_barred :: "fnflags \<Rightarrow> string \<Rightarrow> string \<Rightarrow> bool" where
  "period_barred flags pre s \<longleftrightarrow>
     s \<noteq> [] \<and> hd s = CHR ''.'' \<and> fnm flags FNM_PERIOD \<and> (pre = [] \<or> fnm flags FNM_PATHNAME \<and> hd pre = CHR ''/'')"

definition char_same :: "fnflags \<Rightarrow> char \<Rightarrow> char \<Rightarrow> bool" where
  "char_same flags c d \<longleftrightarrow> c = d \<or> fnm flags FNM_CASEFOLD \<and> c_tolower c = c_tolower d"

text \<open>\<open>fnm_char\<close> is the \<open>default\<close> case: \<open>Inr\<close> the rest of the name, \<open>Inl\<close> the result.\<close>

definition fnm_char :: "fnflags \<Rightarrow> char \<Rightarrow> string \<Rightarrow> string \<Rightarrow> bool + string" where
  "fnm_char flags c pre s =
     (case s of
        d # t \<Rightarrow> if char_same flags c d then Inr t else Inl False
      | [] \<Rightarrow> Inl (fnm flags FNM_PREFIX_DIRS \<and> (c = CHR ''/'' \<and> pre \<noteq> [] \<or> pre = [CHR ''/''])))"

text \<open>The quoted character: a backslash at the end of the pattern stands for itself.\<close>

definition fnm_quoted :: "fnflags \<Rightarrow> char \<Rightarrow> string \<Rightarrow> char \<times> string" where
  "fnm_quoted flags c p =
     (if c = CHR 0x5C \<and> \<not> fnm flags FNM_NOESCAPE \<and> p \<noteq> [] then (hd p, tl p) else (c, p))"

text \<open>
  The loop of \<open>fnmatch\<close>, and the loop that tries the rest of the pattern behind a star at each
  place. What \<open>rangematch\<close> leaves is always shorter than the pattern (\<open>rangematch_shorter\<close>);
  the test only lets the termination proof see it.
\<close>

function (sequential) fnm_at :: "string \<Rightarrow> string \<Rightarrow> string \<Rightarrow> fnflags \<Rightarrow> bool"
  and fnm_star :: "string \<Rightarrow> string \<Rightarrow> fnflags \<Rightarrow> bool" where
  "fnm_at [] pre s flags \<longleftrightarrow> (fnm flags FNM_LEADING_DIR \<and> s \<noteq> [] \<and> hd s = CHR ''/'') \<or> s = []"
| "fnm_at (c # p) pre s flags \<longleftrightarrow>
     (if c = CHR ''?'' then
        (case s of [] \<Rightarrow> False
         | d # t \<Rightarrow> if d = CHR ''/'' \<and> fnm flags FNM_PATHNAME then False
                    else if period_barred flags pre s then False
                    else fnm_at p (d # pre) t flags)
      else if c = CHR ''*'' then
        (let q = dropWhile (\<lambda>x. x = CHR ''*'') p in
         if period_barred flags pre s then False
         else if q = [] then
           (if fnm flags FNM_PATHNAME then fnm flags FNM_LEADING_DIR \<or> CHR ''/'' \<notin> set s else True)
         else if hd q = CHR ''/'' \<and> fnm flags FNM_PATHNAME then
           (case dropWhile (\<lambda>x. x \<noteq> CHR ''/'') s of
              [] \<Rightarrow> False
            | s1 \<Rightarrow> fnm_at q (rev (takeWhile (\<lambda>x. x \<noteq> CHR ''/'') s) @ pre) s1 flags)
         else fnm_star q s flags)
      else if c = CHR ''['' then
        (case s of [] \<Rightarrow> False
         | d # t \<Rightarrow> if d = CHR ''/'' \<and> fnm flags FNM_PATHNAME then False
                    else (case rangematch p d flags of
                            None \<Rightarrow> False
                          | Some p1 \<Rightarrow> if length p1 < length p then fnm_at p1 (d # pre) t flags else False))
      else
        (case fnm_quoted flags c p of
           (c1, p1) \<Rightarrow>
             (case fnm_char flags c1 pre s of
                Inl r \<Rightarrow> r
              | Inr t \<Rightarrow> fnm_at p1 (hd s # pre) t flags)))"
| "fnm_star p [] flags \<longleftrightarrow> False"
| "fnm_star p (d # t) flags \<longleftrightarrow>
     fnm_at p [] (d # t) (flags AND NOT FNM_PERIOD) \<or>
     (if d = CHR ''/'' \<and> fnm flags FNM_PATHNAME then False else fnm_star p t flags)"
  by pat_completeness auto
termination
  by (relation "measures [\<lambda>x. case x of Inl (p, _) \<Rightarrow> length p | Inr (p, _) \<Rightarrow> length p,
        \<lambda>x. case x of Inl _ \<Rightarrow> 0 | Inr _ \<Rightarrow> 1, \<lambda>x. case x of Inl _ \<Rightarrow> 0 | Inr (p, s, _) \<Rightarrow> length s]")
    (auto simp: fnm_quoted_def le_imp_less_Suc length_dropWhile_le split: if_splits)

declare fnm_at.simps [simp del] fnm_star.simps [simp del]

definition fnmatch :: "string \<Rightarrow> string \<Rightarrow> fnflags \<Rightarrow> bool" where
  "fnmatch pattern s flags = fnm_at pattern [] s flags"

section \<open>The language of a pattern\<close>

text \<open>
  The specification: which names a pattern denotes. With \<open>FNM_PATHNAME\<close>, \<open>?\<close>, \<open>*\<close> and
  brackets do not match a slash.
\<close>

definition wild_ok :: "fnflags \<Rightarrow> char \<Rightarrow> bool" where
  "wild_ok flags d \<longleftrightarrow> \<not> (d = CHR ''/'' \<and> fnm flags FNM_PATHNAME)"

inductive gmatch :: "fnflags \<Rightarrow> string \<Rightarrow> string \<Rightarrow> bool" for flags where
  g_empty: "gmatch flags [] []"
| g_any: "wild_ok flags d \<Longrightarrow> gmatch flags p s \<Longrightarrow> gmatch flags (CHR ''?'' # p) (d # s)"
| g_star: "\<forall>x \<in> set w. wild_ok flags x \<Longrightarrow> gmatch flags p s \<Longrightarrow> gmatch flags (CHR ''*'' # p) (w @ s)"
| g_set: "wild_ok flags d \<Longrightarrow> rangematch p d flags = Some p1 \<Longrightarrow> gmatch flags p1 s \<Longrightarrow> gmatch flags (CHR ''['' # p) (d # s)"
| g_char: "c \<notin> {CHR ''?'', CHR ''*'', CHR ''[''} \<Longrightarrow> fnm_quoted flags c p = (c1, p1) \<Longrightarrow> char_same flags c1 d \<Longrightarrow>
    gmatch flags p1 s \<Longrightarrow> gmatch flags (c # p) (d # s)"

inductive_simps gmatch_Nil: "gmatch flags [] s"
inductive_simps gmatch_Cons: "gmatch flags (c # p) s"
inductive_cases gmatch_starE: "gmatch flags (CHR ''*'' # p) s"

text \<open>What the matcher accepts: a name the pattern denotes, or with \<open>FNM_LEADING_DIR\<close> a path below one.\<close>

definition accepts :: "fnflags \<Rightarrow> string \<Rightarrow> string \<Rightarrow> bool" where
  "accepts flags p s \<longleftrightarrow>
     (\<exists>a b. s = a @ b \<and> gmatch flags p a \<and> (b = [] \<or> fnm flags FNM_LEADING_DIR \<and> hd b = CHR ''/''))"

lemma accepts_Nil: "accepts flags [] s \<longleftrightarrow> fnm flags FNM_LEADING_DIR \<and> s \<noteq> [] \<and> hd s = CHR ''/'' \<or> s = []"
  by (auto simp: accepts_def gmatch_Nil)

text \<open>A pattern whose first element matches one character.\<close>

lemma accepts_one:
  assumes "\<And>a. gmatch flags p a \<longleftrightarrow> (\<exists>d t. a = d # t \<and> P d \<and> gmatch flags (q d) t)"
  shows "accepts flags p s \<longleftrightarrow> (\<exists>d t. s = d # t \<and> P d \<and> accepts flags (q d) t)"
proof
  assume "accepts flags p s"
  then obtain a b where h: "s = a @ b" "gmatch flags p a" "b = [] \<or> fnm flags FNM_LEADING_DIR \<and> hd b = CHR ''/''"
    unfolding accepts_def by blast
  from h(2) obtain d t where "a = d # t" "P d" "gmatch flags (q d) t" using assms by blast
  with h have "s = d # t @ b" "P d" "gmatch flags (q d) t" "b = [] \<or> fnm flags FNM_LEADING_DIR \<and> hd b = CHR ''/''" by simp_all
  then show "\<exists>d t. s = d # t \<and> P d \<and> accepts flags (q d) t" unfolding accepts_def by blast
next
  assume "\<exists>d t. s = d # t \<and> P d \<and> accepts flags (q d) t"
  then obtain d a b where h: "s = d # a @ b" "P d" "gmatch flags (q d) a" "b = [] \<or> fnm flags FNM_LEADING_DIR \<and> hd b = CHR ''/''"
    unfolding accepts_def by blast
  then have "gmatch flags p (d # a)" using assms by blast
  with h show "accepts flags p s" unfolding accepts_def by (intro exI [of _ "d # a"] exI [of _ b]) simp
qed

lemma accepts_any:
  "accepts flags (CHR ''?'' # p) s \<longleftrightarrow> (\<exists>d t. s = d # t \<and> wild_ok flags d \<and> accepts flags p t)"
  by (rule accepts_one) (simp add: gmatch_Cons)

lemma accepts_set:
  "accepts flags (CHR ''['' # p) s \<longleftrightarrow>
     (\<exists>d t. s = d # t \<and> (wild_ok flags d \<and> rangematch p d flags \<noteq> None) \<and> accepts flags (the (rangematch p d flags)) t)"
  by (rule accepts_one) (auto simp: gmatch_Cons)

lemma accepts_char:
  assumes "c \<notin> {CHR ''?'', CHR ''*'', CHR ''[''}" "fnm_quoted flags c p = (c1, p1)"
  shows "accepts flags (c # p) s \<longleftrightarrow> (\<exists>d t. s = d # t \<and> char_same flags c1 d \<and> accepts flags p1 t)"
  using assms by (intro accepts_one) (auto simp: gmatch_Cons)

lemma gmatch_star:
  "gmatch flags (CHR ''*'' # p) s \<longleftrightarrow> (\<exists>w t. s = w @ t \<and> (\<forall>x \<in> set w. wild_ok flags x) \<and> gmatch flags p t)"
proof
  assume "gmatch flags (CHR ''*'' # p) s"
  then show "\<exists>w t. s = w @ t \<and> (\<forall>x \<in> set w. wild_ok flags x) \<and> gmatch flags p t"
    by (rule gmatch_starE) auto
qed (blast intro: g_star)

lemma gmatch_star_star: "gmatch flags (CHR ''*'' # CHR ''*'' # p) s \<longleftrightarrow> gmatch flags (CHR ''*'' # p) s"
proof
  assume "gmatch flags (CHR ''*'' # CHR ''*'' # p) s"
  then obtain w v t where h: "s = w @ v @ t" "\<forall>x \<in> set w. wild_ok flags x" "\<forall>x \<in> set v. wild_ok flags x" "gmatch flags p t"
    unfolding gmatch_star [of flags "CHR ''*'' # p"] gmatch_star [of flags p] by blast
  have "gmatch flags (CHR ''*'' # p) ((w @ v) @ t)" using h by (intro g_star) auto
  then show "gmatch flags (CHR ''*'' # p) s" using h(1) by simp
next
  assume "gmatch flags (CHR ''*'' # p) s"
  then have "gmatch flags (CHR ''*'' # CHR ''*'' # p) ([] @ s)" by (intro g_star) auto
  then show "gmatch flags (CHR ''*'' # CHR ''*'' # p) s" by simp
qed

lemma gmatch_stars: "gmatch flags (CHR ''*'' # p) s \<longleftrightarrow> gmatch flags (CHR ''*'' # dropWhile (\<lambda>x. x = CHR ''*'') p) s"
proof (induction p)
  case (Cons c p)
  then show ?case by (cases "c = CHR ''*''") (simp_all add: gmatch_star_star)
qed simp

lemma accepts_star:
  "accepts flags (CHR ''*'' # p) s \<longleftrightarrow>
     (\<exists>w t. s = w @ t \<and> (\<forall>x \<in> set w. wild_ok flags x) \<and> accepts flags (dropWhile (\<lambda>x. x = CHR ''*'') p) t)"
    (is "_ \<longleftrightarrow> ?R")
proof
  assume "accepts flags (CHR ''*'' # p) s"
  then obtain a b where h: "s = a @ b" "gmatch flags (CHR ''*'' # p) a" "b = [] \<or> fnm flags FNM_LEADING_DIR \<and> hd b = CHR ''/''"
    unfolding accepts_def by blast
  from h(2) have "gmatch flags (CHR ''*'' # dropWhile (\<lambda>x. x = CHR ''*'') p) a" by (rule iffD1 [OF gmatch_stars])
  then obtain w t where "a = w @ t" "\<forall>x \<in> set w. wild_ok flags x" "gmatch flags (dropWhile (\<lambda>x. x = CHR ''*'') p) t"
    using iffD1 [OF gmatch_star] by blast
  with h have "s = w @ t @ b" "\<forall>x \<in> set w. wild_ok flags x" "gmatch flags (dropWhile (\<lambda>x. x = CHR ''*'') p) t"
    "b = [] \<or> fnm flags FNM_LEADING_DIR \<and> hd b = CHR ''/''" by simp_all
  then show ?R unfolding accepts_def by blast
next
  assume ?R
  then obtain w t where w: "s = w @ t" "\<forall>x \<in> set w. wild_ok flags x" "accepts flags (dropWhile (\<lambda>x. x = CHR ''*'') p) t"
    by blast
  then obtain a b where "t = a @ b" "gmatch flags (dropWhile (\<lambda>x. x = CHR ''*'') p) a"
    "b = [] \<or> fnm flags FNM_LEADING_DIR \<and> hd b = CHR ''/''"
    unfolding accepts_def by blast
  moreover from this w have "gmatch flags (CHR ''*'' # dropWhile (\<lambda>x. x = CHR ''*'') p) (w @ a)"
    by (intro g_star) auto
  then have "gmatch flags (CHR ''*'' # p) (w @ a)" by (rule iffD2 [OF gmatch_stars])
  ultimately show "accepts flags (CHR ''*'' # p) s"
    unfolding accepts_def using w(1) by (intro exI [of _ "w @ a"] exI [of _ b]) simp
qed

section \<open>The matcher decides the language\<close>

lemma and_not_self: "flags AND b = 0 \<Longrightarrow> flags AND NOT b = (flags :: 32 word)"
proof -
  assume h: "flags AND b = 0"
  have "flags AND NOT b = (flags AND b) OR (flags AND NOT b)" using h by simp
  also have "\<dots> = flags" by (simp only: bit.conj_disj_distrib [symmetric] bit.disj_cancel_right bit.conj_one_right)
  finally show ?thesis .
qed

lemma fnm_star_iff:
  assumes "flags AND FNM_PERIOD = 0"
  shows "fnm_star p s flags \<longleftrightarrow> (\<exists>w t. s = w @ t \<and> t \<noteq> [] \<and> (\<forall>x \<in> set w. wild_ok flags x) \<and> fnm_at p [] t flags)"
proof (induction s)
  case (Cons d s)
  have n: "flags AND NOT FNM_PERIOD = flags" by (rule and_not_self [OF assms])
  show ?case
    unfolding fnm_star.simps n
  proof (intro iffI)
    assume "fnm_at p [] (d # s) flags \<or> (if d = CHR ''/'' \<and> fnm flags FNM_PATHNAME then False else fnm_star p s flags)"
    then consider "fnm_at p [] (d # s) flags" | "wild_ok flags d" "fnm_star p s flags" by (auto simp: wild_ok_def split: if_splits)
    then show "\<exists>w t. d # s = w @ t \<and> t \<noteq> [] \<and> (\<forall>x \<in> set w. wild_ok flags x) \<and> fnm_at p [] t flags"
    proof cases
      case 1
      then show ?thesis by (intro exI [of _ "[]"] exI [of _ "d # s"]) simp
    next
      case 2
      with Cons obtain w t where "s = w @ t \<and> t \<noteq> [] \<and> (\<forall>x \<in> set w. wild_ok flags x) \<and> fnm_at p [] t flags" by blast
      with 2 show ?thesis by (intro exI [of _ "d # w"] exI [of _ t]) simp
    qed
  next
    assume "\<exists>w t. d # s = w @ t \<and> t \<noteq> [] \<and> (\<forall>x \<in> set w. wild_ok flags x) \<and> fnm_at p [] t flags"
    then obtain w t where h: "d # s = w @ t" "t \<noteq> []" "\<forall>x \<in> set w. wild_ok flags x" "fnm_at p [] t flags" by blast
    then show "fnm_at p [] (d # s) flags \<or> (if d = CHR ''/'' \<and> fnm flags FNM_PATHNAME then False else fnm_star p s flags)"
      using Cons h by (cases w) (auto simp: wild_ok_def)
  qed
qed (simp add: fnm_star.simps)

lemma accepts_nonempty:
  assumes "accepts flags q t" "q \<noteq> []" "hd q \<noteq> CHR ''*''"
  shows "t \<noteq> []"
proof -
  obtain a b where "t = a @ b" "gmatch flags q a" using assms(1) by (auto simp: accepts_def)
  moreover have "\<not> gmatch flags q []" using assms(2,3) by (cases q) (auto simp: gmatch_Cons)
  ultimately show ?thesis by auto
qed

lemma lower_slash: "c_tolower c = CHR ''/'' \<longleftrightarrow> c = CHR ''/''"
proof -
  have "char_of n \<noteq> CHR ''/''" if "97 \<le> n" "n \<le> 122" for n :: nat
  proof
    assume "char_of n = CHR ''/''"
    then have "(of_char (char_of n) :: nat) = of_char (CHR ''/'')" by simp
    with that show False by simp
  qed
  from this [of "of_char c + 32"] show ?thesis by (auto simp: c_tolower_def Let_def)
qed

lemma same_slash: "char_same flags (CHR ''/'') d \<longleftrightarrow> d = CHR ''/''"
proof -
  have "c_tolower (CHR ''/'') = CHR ''/''" by (simp add: lower_slash)
  then show ?thesis using lower_slash [of d] by (auto simp: char_same_def)
qed

lemma star_slash:
  assumes "hd q = CHR ''/''" "q \<noteq> []" "accepts flags q t"
  shows "\<exists>t1. t = CHR ''/'' # t1"
proof -
  have "fnm_quoted flags (CHR ''/'') (tl q) = (CHR ''/'', tl q)" by (simp add: fnm_quoted_def)
  with accepts_char [of "CHR ''/''" flags "tl q" "CHR ''/''" "tl q" t] assms show ?thesis
    by (cases q) (auto simp: same_slash)
qed

lemma star_end:
  "(\<exists>w t. s = w @ t \<and> (\<forall>x \<in> set w. wild_ok flags x) \<and> accepts flags [] t) \<longleftrightarrow>
     (if fnm flags FNM_PATHNAME then fnm flags FNM_LEADING_DIR \<or> CHR ''/'' \<notin> set s else True)"
    (is "?L \<longleftrightarrow> ?R")
proof
  assume ?L
  then show ?R by (auto simp: accepts_Nil wild_ok_def)
next
  assume r: ?R
  show ?L
  proof (cases "\<forall>x \<in> set s. wild_ok flags x")
    case True
    then show ?thesis by (intro exI [of _ s] exI [of _ "[]"]) (simp add: accepts_Nil)
  next
    case False
    then have p: "fnm flags FNM_PATHNAME" "CHR ''/'' \<in> set s" "fnm flags FNM_LEADING_DIR"
      using r by (auto simp: wild_ok_def)
    then obtain w t where "s = w @ CHR ''/'' # t" "CHR ''/'' \<notin> set w" by (meson split_list_first)
    then show ?thesis using p(3)
      by (intro exI [of _ w] exI [of _ "CHR ''/'' # t"]) (auto simp: accepts_Nil wild_ok_def)
  qed
qed

lemma star_before_slash:
  assumes "hd q = CHR ''/''" "q \<noteq> []" "fnm flags FNM_PATHNAME"
  shows "(\<exists>w t. s = w @ t \<and> (\<forall>x \<in> set w. wild_ok flags x) \<and> accepts flags q t) \<longleftrightarrow>
    accepts flags q (dropWhile (\<lambda>x. x \<noteq> CHR ''/'') s)" (is "?L \<longleftrightarrow> ?R")
proof
  assume ?L
  then obtain w t where h: "s = w @ t" "\<forall>x \<in> set w. x \<noteq> CHR ''/''" "accepts flags q t"
    using assms(3) by (auto simp: wild_ok_def)
  moreover obtain t1 where "t = CHR ''/'' # t1" using star_slash [OF assms(1,2) h(3)] by blast
  ultimately show ?R using dropWhile_append_stop [of w "\<lambda>x. x \<noteq> CHR ''/''" "CHR ''/''" t1] by simp
next
  assume ?R
  then show ?L
    by (intro exI [of _ "takeWhile (\<lambda>x. x \<noteq> CHR ''/'') s"] exI [of _ "dropWhile (\<lambda>x. x \<noteq> CHR ''/'') s"])
      (auto simp: wild_ok_def dest: set_takeWhileD)
qed

lemma fnm_at_accepts:
  assumes f: "flags AND FNM_PERIOD = 0" "flags AND FNM_PREFIX_DIRS = 0"
  shows "fnm_at p pre s flags \<longleftrightarrow> accepts flags p s"
proof (induction p arbitrary: pre s rule: length_induct)
  case (1 p)
  have np: "\<not> period_barred flags pre s" "\<not> fnm flags FNM_PREFIX_DIRS" for pre s
    using f by (simp_all add: period_barred_def fnm_def)
  show ?case
  proof (cases p)
    case Nil
    then show ?thesis by (auto simp: fnm_at.simps accepts_Nil)
  next
    case (Cons c p1)
    have IH: "fnm_at q pre s flags \<longleftrightarrow> accepts flags q s" if "length q \<le> length p1" for q pre s
      using 1 that Cons by simp
    let ?q = "dropWhile (\<lambda>x. x = CHR ''*'') p1"
    have ql: "length ?q \<le> length p1" by (rule length_dropWhile_le)
    consider "c = CHR ''?''" | "c = CHR ''*''" | "c = CHR ''[''" | "c \<notin> {CHR ''?'', CHR ''*'', CHR ''[''}" by blast
    then show ?thesis
    proof cases
      case 1
      then show ?thesis using Cons np by (cases s) (auto simp: fnm_at.simps accepts_any IH wild_ok_def)
    next
      case 2
      have ne: "t \<noteq> []" if "?q \<noteq> []" "accepts flags ?q t" for t
        using accepts_nonempty [OF that(2,1)] hd_dropWhile [OF that(1)] by simp
      have a: "accepts flags p s \<longleftrightarrow> (\<exists>w t. s = w @ t \<and> (\<forall>x \<in> set w. wild_ok flags x) \<and> accepts flags ?q t)"
        using accepts_star [of flags p1 s] Cons 2 by simp
      consider "?q = []" | "?q \<noteq> []" "hd ?q = CHR ''/''" "fnm flags FNM_PATHNAME"
        | "?q \<noteq> []" "\<not> (hd ?q = CHR ''/'' \<and> fnm flags FNM_PATHNAME)" by blast
      then show ?thesis
      proof cases
        case q: 1
        show ?thesis unfolding a unfolding q star_end unfolding Cons 2 fnm_at.simps Let_def q using np by simp
      next
        case q: 2
        have "\<not> accepts flags ?q []" using ne [OF q(1), of "[]"] by blast
        then show ?thesis
          unfolding a star_before_slash [OF q(2,1,3)] unfolding Cons 2 fnm_at.simps Let_def using q np IH [OF ql]
          by (cases "dropWhile (\<lambda>x. x \<noteq> CHR ''/'') s") (simp_all del: dropWhile_eq_Nil_conv)
      next
        case q: 3
        have "fnm_star ?q s flags \<longleftrightarrow> (\<exists>w t. s = w @ t \<and> (\<forall>x \<in> set w. wild_ok flags x) \<and> accepts flags ?q t)"
          unfolding fnm_star_iff [OF f(1)] IH [OF ql] using ne [OF q(1)] by blast
        then show ?thesis unfolding a unfolding Cons 2 fnm_at.simps Let_def using q np by auto
      qed
    next
      case 3
      show ?thesis
      proof (cases s)
        case Nil
        then show ?thesis unfolding Cons 3 fnm_at.simps by (simp add: accepts_set)
      next
        case s: (Cons d t)
        show ?thesis
        proof (cases "rangematch p1 d flags")
          case None
          then show ?thesis unfolding Cons 3 fnm_at.simps s accepts_set by simp
        next
          case (Some p2)
          from rangematch_shorter [OF this] have "length p2 \<le> length p1" "length p2 < length p1" by simp_all
          then show ?thesis unfolding Cons 3 fnm_at.simps s accepts_set using Some IH [of p2] by (simp add: wild_ok_def)
        qed
      qed
    next
      case 4
      obtain c1 p2 where q: "fnm_quoted flags c p1 = (c1, p2)" by (cases "fnm_quoted flags c p1")
      then have "length p2 \<le> length p1" by (auto simp: fnm_quoted_def split: if_splits)
      then show ?thesis using 4 Cons np accepts_char [OF 4 q] q
        by (cases s) (auto simp: fnm_at.simps fnm_char_def IH)
    qed
  qed
qed

section \<open>What the matcher promises\<close>

text \<open>
  Claim C25. Without the two flags that depend on the position in the name, \<open>fnmatch\<close> decides the
  language of the pattern: with its shortcuts for a star at the end or before a slash, and its
  search that stops at a slash, it accepts exactly the names the pattern denotes and, with
  \<open>FNM_LEADING_DIR\<close>, the paths below such a name. It always returns.
\<close>

theorem fnmatch_decides:
  assumes "flags AND FNM_PERIOD = 0" and "flags AND FNM_PREFIX_DIRS = 0"
  shows "fnmatch p s flags \<longleftrightarrow> (\<exists>a b. s = a @ b \<and> gmatch flags p a \<and>
    (b = [] \<or> flags AND FNM_LEADING_DIR \<noteq> 0 \<and> hd b = CHR ''/''))"
  unfolding fnmatch_def fnm_at_accepts [OF assms] by (simp add: accepts_def fnm_def)

theorem fnmatch_decides_witness:
  "(\<exists>a b. ''src/sys/kern/x.c'' = a @ b \<and> gmatch FNM_PATHNAME ''s*/sys/*[!a]/?.c'' a \<and>
     (b = [] \<or> (FNM_PATHNAME :: fnflags) AND FNM_LEADING_DIR \<noteq> 0 \<and> hd b = CHR ''/''))"
proof -
  have "fnmatch ''s*/sys/*[!a]/?.c'' ''src/sys/kern/x.c'' FNM_PATHNAME" by code_simp
  with fnmatch_decides [of FNM_PATHNAME "''s*/sys/*[!a]/?.c''" "''src/sys/kern/x.c''"] show ?thesis by simp
qed

text \<open>
  The flag \<open>FNM_PREFIX_DIRS\<close> is to accept the directories that lead to a match, but not
  through a star in front of a slash: \<open>*/b\<close> accepts \<open>a/b\<close> and rejects the directory \<open>a\<close>,
  while \<open>?/b\<close> accepts both.
\<close>

lemma prefix_dirs_misses_star:
  "let flags = FNM_PATHNAME OR FNM_LEADING_DIR OR FNM_PREFIX_DIRS in
   fnmatch ''*/b'' ''a/b'' flags \<and> \<not> fnmatch ''*/b'' ''a'' flags \<and>
   fnmatch ''?/b'' ''a/b'' flags \<and> fnmatch ''?/b'' ''a'' flags"
  by code_simp

end
