(* ===== verification/Globtree.thy ===== *)
theory Globtree
  imports Fnmatch Misc
begin

text \<open>
  Boolean expressions over path patterns, \<open>globtree.c\<close>, and the directory and file filters that
  \<open>proto_xchgcoll\<close> builds from the accept and refuse patterns of a collection. The library's
  \<open>regexec\<close> is the parameter \<open>re\<close>.
\<close>

datatype globtree =
    GT_not globtree | GT_and globtree globtree | GT_or globtree globtree
  | GT_match string fnflags | GT_regex string | GT_true | GT_false

definition globtree_match :: "string \<Rightarrow> fnflags \<Rightarrow> globtree" where
  "globtree_match pattern flags = GT_match pattern flags"

definition globtree_regex :: "string \<Rightarrow> globtree" where
  "globtree_regex pattern = GT_regex pattern"

definition globtree_and :: "globtree \<Rightarrow> globtree \<Rightarrow> globtree" where
  "globtree_and left right =
     (if left = GT_false \<or> right = GT_false then GT_false
      else if left = GT_true then right
      else if right = GT_true then left
      else GT_and left right)"

definition globtree_or :: "globtree \<Rightarrow> globtree \<Rightarrow> globtree" where
  "globtree_or left right =
     (if left = GT_true \<or> right = GT_true then GT_true
      else if left = GT_false then right
      else if right = GT_false then left
      else GT_or left right)"

definition globtree_not :: "globtree \<Rightarrow> globtree" where
  "globtree_not child =
     (if child = GT_true then GT_false else if child = GT_false then GT_true else GT_not child)"

text \<open>A leaf; \<open>None\<close> is the failed assertion for an operator.\<close>

fun globtree_eval :: "(string \<Rightarrow> string \<Rightarrow> bool) \<Rightarrow> globtree \<Rightarrow> string \<Rightarrow> bool option" where
  "globtree_eval re GT_true path = Some True"
| "globtree_eval re GT_false path = Some False"
| "globtree_eval re (GT_match p flags) path = Some (fnmatch p path flags)"
| "globtree_eval re (GT_regex p) path = Some (re p path)"
| "globtree_eval re _ path = None"

section \<open>The walk with an explicit stack\<close>

datatype walkstate = STATE_DOINGLEFT | STATE_DOINGRIGHT

type_synonym gt_stack = "(globtree \<times> walkstate) list"

fun gt_cost :: "globtree \<Rightarrow> nat" where
  "gt_cost (GT_not l) = gt_cost l + 2"
| "gt_cost (GT_and l r) = gt_cost l + gt_cost r + 2"
| "gt_cost (GT_or l r) = gt_cost l + gt_cost r + 2"
| "gt_cost _ = 2"

fun gt_pending :: "globtree \<times> walkstate \<Rightarrow> nat" where
  "gt_pending (GT_and l r, STATE_DOINGLEFT) = gt_cost r + 1"
| "gt_pending (GT_or l r, STATE_DOINGLEFT) = gt_cost r + 1"
| "gt_pending _ = 1"

lemma gt_pending_pos [simp]: "0 < gt_pending x"
  by (cases x rule: gt_pending.cases) auto

text \<open>
  The two loops of \<open>globtree_test\<close>: down to the left until a leaf, then up through the stack, and
  down again into a right subtree that is still needed. The \<open>state\<close> field of a node on the stack is
  kept beside it.
\<close>

function (sequential) gt_down :: "(string \<Rightarrow> string \<Rightarrow> bool) \<Rightarrow> string \<Rightarrow> globtree \<Rightarrow> gt_stack \<Rightarrow> bool option"
  and gt_up :: "(string \<Rightarrow> string \<Rightarrow> bool) \<Rightarrow> string \<Rightarrow> bool \<Rightarrow> gt_stack \<Rightarrow> bool option" where
  "gt_down re path (GT_not l) stack = gt_down re path l ((GT_not l, STATE_DOINGLEFT) # stack)"
| "gt_down re path (GT_and l r) stack = gt_down re path l ((GT_and l r, STATE_DOINGLEFT) # stack)"
| "gt_down re path (GT_or l r) stack = gt_down re path l ((GT_or l r, STATE_DOINGLEFT) # stack)"
| "gt_down re path leaf stack =
     (case globtree_eval re leaf path of None \<Rightarrow> None | Some v \<Rightarrow> gt_up re path v stack)"
| "gt_up re path v [] = Some v"
| "gt_up re path v ((GT_not l, st) # stack) = gt_up re path (\<not> v) stack"
| "gt_up re path v ((GT_and l r, st) # stack) =
     (if st = STATE_DOINGLEFT \<and> v then gt_down re path r ((GT_and l r, STATE_DOINGRIGHT) # stack)
      else gt_up re path v stack)"
| "gt_up re path v ((GT_or l r, st) # stack) =
     (if st = STATE_DOINGLEFT \<and> \<not> v then gt_down re path r ((GT_or l r, STATE_DOINGRIGHT) # stack)
      else gt_up re path v stack)"
| "gt_up re path v ((leaf, st) # stack) = None"
  by pat_completeness auto
termination
  by (relation "measure (\<lambda>x. case x of
      Inl (_, _, g, st) \<Rightarrow> gt_cost g + sum_list (map gt_pending st)
    | Inr (_, _, _, st) \<Rightarrow> sum_list (map gt_pending st) + 1)") (auto split: walkstate.splits)

definition globtree_test :: "(string \<Rightarrow> string \<Rightarrow> bool) \<Rightarrow> globtree \<Rightarrow> string \<Rightarrow> bool option" where
  "globtree_test re gt path = gt_down re path gt []"

section \<open>What an expression means\<close>

fun gt_sem :: "(string \<Rightarrow> string \<Rightarrow> bool) \<Rightarrow> globtree \<Rightarrow> string \<Rightarrow> bool" where
  "gt_sem re GT_true path \<longleftrightarrow> True"
| "gt_sem re GT_false path \<longleftrightarrow> False"
| "gt_sem re (GT_match p flags) path \<longleftrightarrow> fnmatch p path flags"
| "gt_sem re (GT_regex p) path \<longleftrightarrow> re p path"
| "gt_sem re (GT_not g) path \<longleftrightarrow> \<not> gt_sem re g path"
| "gt_sem re (GT_and l r) path \<longleftrightarrow> gt_sem re l path \<and> gt_sem re r path"
| "gt_sem re (GT_or l r) path \<longleftrightarrow> gt_sem re l path \<or> gt_sem re r path"

lemma gt_down_sem: "gt_down re path g stack = gt_up re path (gt_sem re g path) stack"
  by (induction g arbitrary: stack) auto

lemma gt_sem_ops [simp]:
  "gt_sem re (globtree_and l r) path \<longleftrightarrow> gt_sem re l path \<and> gt_sem re r path"
  "gt_sem re (globtree_or l r) path \<longleftrightarrow> gt_sem re l path \<or> gt_sem re r path"
  "gt_sem re (globtree_not l) path \<longleftrightarrow> \<not> gt_sem re l path"
  "gt_sem re (globtree_match p flags) path \<longleftrightarrow> fnmatch p path flags"
  "gt_sem re (globtree_regex p) path \<longleftrightarrow> re p path"
  by (auto simp: globtree_and_def globtree_or_def globtree_not_def globtree_match_def globtree_regex_def)

text \<open>
  Claim C27. \<open>globtree_test\<close> is the recursive evaluation of the expression: the walk with the
  explicit stack and the state kept in the nodes, which leaves out right subtrees that cannot
  matter, ends, never fails its assertions and returns the value of the boolean expression,
  for trees built in any order by the simplifying constructors.
\<close>

theorem globtree_test_evaluates:
  "globtree_test re gt path = Some (gt_sem re gt path) \<and>
   globtree_test re (globtree_and gt (globtree_or gt2 gt3)) path =
     Some (gt_sem re gt path \<and> (gt_sem re gt2 path \<or> gt_sem re gt3 path)) \<and>
   globtree_test re (globtree_not gt) path = Some (\<not> gt_sem re gt path)"
  by (simp add: globtree_test_def gt_down_sem)

section \<open>The filters of a collection\<close>

text \<open>In checkout mode a pattern that does not end in a star is made to name the RCS file.\<close>

definition file_pattern :: "bool \<Rightarrow> string \<Rightarrow> string" where
  "file_pattern checkout pat = (if checkout \<and> (pat = [] \<or> last pat \<noteq> CHR ''*'') then pat @ '',v'' else pat)"

definition ACC_FLAGS :: fnflags where
  "ACC_FLAGS = FNM_PATHNAME OR FNM_LEADING_DIR OR FNM_PREFIX_DIRS"

definition or_patterns :: "(string \<Rightarrow> string) \<Rightarrow> fnflags \<Rightarrow> globtree \<Rightarrow> string list \<Rightarrow> globtree" where
  "or_patterns f flags gt pats = foldl (\<lambda>g pat. globtree_or g (globtree_match (f pat) flags)) gt pats"

definition coll_filters :: "bool \<Rightarrow> string list \<Rightarrow> string list \<Rightarrow> globtree \<times> globtree" where
  "coll_filters checkout acc refuse =
     (let diraccept = (if acc \<noteq> [] then or_patterns (\<lambda>p. p) ACC_FLAGS GT_false acc else GT_true);
          fileaccept = (if acc \<noteq> [] then or_patterns (file_pattern checkout) ACC_FLAGS GT_false acc else GT_true);
          dirrefuse = or_patterns (\<lambda>p. p) 0 GT_false refuse;
          filerefuse = or_patterns (file_pattern checkout) 0 GT_false refuse
      in (globtree_and diraccept (globtree_not dirrefuse), globtree_and fileaccept (globtree_not filerefuse)))"

lemma or_patterns_sem:
  "gt_sem re (or_patterns f flags gt pats) path \<longleftrightarrow>
     gt_sem re gt path \<or> (\<exists>p \<in> set pats. fnmatch (f p) path flags)"
  by (induction pats arbitrary: gt) (auto simp: or_patterns_def)

text \<open>
  Claim C28. The filters of a collection mean what the configuration says: a path passes when no
  accept pattern is given or one of them matches, and no refuse pattern matches, for directories
  and for files, where checkout mode compares the patterns with the name of the RCS file.
\<close>

theorem coll_filters_mean:
  "(let (dirs, files) = coll_filters checkout acc refuse in
    globtree_test re dirs path =
      Some ((acc = [] \<or> (\<exists>p \<in> set acc. fnmatch p path ACC_FLAGS)) \<and> \<not> (\<exists>p \<in> set refuse. fnmatch p path 0)) \<and>
    globtree_test re files path =
      Some ((acc = [] \<or> (\<exists>p \<in> set acc. fnmatch (file_pattern checkout p) path ACC_FLAGS)) \<and>
        \<not> (\<exists>p \<in> set refuse. fnmatch (file_pattern checkout p) path 0)))"
  by (simp add: coll_filters_def globtree_test_def gt_down_sem or_patterns_sem Let_def)

end
