(* ===== verification/Fixups.thy ===== *)
theory Fixups
  imports Prelude
begin

text \<open>
  The queue of fixup requests between the updater and the detailer, \<open>fixups.c\<close>, with the mutex
  and the condition variable: the parts between lock and unlock are the operations below, and the
  interleavings of the two threads are the steps of \<open>fx_step\<close>. An entry is its collection and name.
\<close>

section \<open>The operations under the lock\<close>

record 'a fixups =
  fixupq :: "'a list"
  fcur :: "'a option"
  fsize :: nat
  fclosed :: bool

definition fixups_new :: "'a fixups" where
  "fixups_new = \<lparr>fixupq = [], fcur = None, fsize = 0, fclosed = False\<rparr>"

text \<open>The queue and whether to signal; \<open>None\<close> is the assertion that the queue is open.\<close>

definition fixups_put :: "'a fixups \<Rightarrow> 'a \<Rightarrow> ('a fixups \<times> bool) option" where
  "fixups_put f x =
     (if fclosed f then None
      else Some (f\<lparr>fixupq := fixupq f @ [x], fsize := fsize f + 1\<rparr>, fsize f = 0))"

definition fixups_close :: "'a fixups \<Rightarrow> 'a fixups \<times> bool" where
  "fixups_close f = (f\<lparr>fclosed := True\<rparr>, fsize f = 0 \<and> \<not> fclosed f)"

text \<open>
  \<open>fixups_get\<close> with the lock held: it waits, returns NULL, or returns the first entry and frees the
  one it returned before; \<open>Get_fail\<close> is the read of the head of an empty list.
\<close>

datatype 'a get = Get_wait | Get_null | Get_fail | Get_fixup 'a "'a option"

definition fixups_get :: "'a fixups \<Rightarrow> 'a fixups \<times> 'a get" where
  "fixups_get f =
     (if fsize f = 0 \<and> \<not> fclosed f then (f, Get_wait)
      else if fclosed f \<and> fsize f = 0 then (f, Get_null)
      else (case fixupq f of
              [] \<Rightarrow> (f, Get_fail)
            | x # q \<Rightarrow> (f\<lparr>fixupq := q, fcur := Some x, fsize := fsize f - 1\<rparr>, Get_fixup x (fcur f))))"

text \<open>The entries \<open>fixups_free\<close> releases; \<open>None\<close> is the assertion that the queue was closed.\<close>

definition fixups_free :: "'a fixups \<Rightarrow> 'a list option" where
  "fixups_free f = (if fclosed f then Some (fixupq f @ (case fcur f of None \<Rightarrow> [] | Some x \<Rightarrow> [x])) else None)"

section \<open>Two threads\<close>

text \<open>
  The consumer runs, waits on the condition variable, has been woken (by a signal or spuriously)
  and is about to look again, or has seen the end. The producer has released the lock and still
  has to signal when \<open>signalling\<close>. The two logs are the history.
\<close>

datatype consumer = C_running | C_waiting | C_woken | C_done | C_crashed

record 'a fxsys =
  fx :: "'a fixups"
  cons :: consumer
  signalling :: bool
  put_log :: "'a list"
  got_log :: "'a list"
  freed :: "'a list"

definition fx_start :: "'a fxsys" where
  "fx_start = \<lparr>fx = fixups_new, cons = C_running, signalling = False, put_log = [], got_log = [], freed = []\<rparr>"

definition fx_get :: "'a fxsys \<Rightarrow> 'a fxsys" where
  "fx_get s =
     (case fixups_get (fx s) of
        (f, Get_wait) \<Rightarrow> s\<lparr>fx := f, cons := C_waiting\<rparr>
      | (f, Get_null) \<Rightarrow> s\<lparr>fx := f, cons := C_done\<rparr>
      | (f, Get_fail) \<Rightarrow> s\<lparr>fx := f, cons := C_crashed\<rparr>
      | (f, Get_fixup x old) \<Rightarrow>
          s\<lparr>fx := f, cons := C_running, got_log := got_log s @ [x],
            freed := freed s @ (case old of None \<Rightarrow> [] | Some y \<Rightarrow> [y])\<rparr>)"

definition fx_put :: "'a fxsys \<Rightarrow> 'a \<Rightarrow> 'a fxsys option" where
  "fx_put s x =
     map_option (\<lambda>(f, sig). s\<lparr>fx := f, signalling := sig, put_log := put_log s @ [x]\<rparr>) (fixups_put (fx s) x)"

inductive fx_step :: "'a fxsys \<Rightarrow> 'a fxsys \<Rightarrow> bool" where
  st_put: "\<not> signalling s \<Longrightarrow> fx_put s x = Some s' \<Longrightarrow> fx_step s s'"
| st_close: "\<not> signalling s \<Longrightarrow> fixups_close (fx s) = (f, sig) \<Longrightarrow> fx_step s (s\<lparr>fx := f, signalling := sig\<rparr>)"
| st_signal: "signalling s \<Longrightarrow>
    fx_step s (s\<lparr>signalling := False, cons := (if cons s = C_waiting then C_woken else cons s)\<rparr>)"
| st_spurious: "cons s = C_waiting \<Longrightarrow> fx_step s (s\<lparr>cons := C_woken\<rparr>)"
| st_get: "cons s = C_running \<or> cons s = C_woken \<Longrightarrow> fx_step s (fx_get s)"

inductive_cases fx_stepE: "fx_step s s'"

inductive fx_reachable :: "'a fxsys \<Rightarrow> bool" where
  start: "fx_reachable fx_start"
| step: "fx_reachable s \<Longrightarrow> fx_step s s' \<Longrightarrow> fx_reachable s'"

definition fx_inv :: "'a fxsys \<Rightarrow> bool" where
  "fx_inv s \<longleftrightarrow>
     fsize (fx s) = length (fixupq (fx s)) \<and> put_log s = got_log s @ fixupq (fx s) \<and>
     got_log s = freed s @ (case fcur (fx s) of None \<Rightarrow> [] | Some x \<Rightarrow> [x]) \<and>
     cons s \<noteq> C_crashed \<and>
     (cons s = C_waiting \<longrightarrow> signalling s \<or> fixupq (fx s) = [] \<and> \<not> fclosed (fx s)) \<and>
     (cons s = C_done \<longrightarrow> fixupq (fx s) = [] \<and> fclosed (fx s))"

lemma fx_inv_start: "fx_inv fx_start"
  by (simp add: fx_inv_def fx_start_def fixups_new_def)

lemma fx_inv_get: "fx_inv s \<Longrightarrow> fx_inv (fx_get s)"
  by (auto simp: fx_inv_def fx_get_def fixups_get_def split: list.splits option.splits if_splits)

lemma fx_inv_step:
  assumes "fx_step s s'" "fx_inv s"
  shows "fx_inv s'"
  using assms
proof (cases rule: fx_step.cases)
  case (st_put x)
  then show ?thesis using assms(2)
    by (auto simp: fx_inv_def fx_put_def fixups_put_def split: option.splits if_splits)
next
  case (st_close f sig)
  then show ?thesis using assms(2) by (auto simp: fx_inv_def fixups_close_def)
next
  case st_signal
  then show ?thesis using assms(2) by (auto simp: fx_inv_def)
next
  case st_spurious
  then show ?thesis using assms(2) by (auto simp: fx_inv_def)
next
  case st_get
  then show ?thesis using fx_inv_get [OF assms(2)] by simp
qed

lemma fx_reachable_inv: "fx_reachable s \<Longrightarrow> fx_inv s"
  by (induction rule: fx_reachable.induct) (auto intro: fx_inv_start fx_inv_step)

text \<open>
  Claim C13. The fixup queue loses nothing and no wakeup: in every interleaving of updater and
  detailer the requests come out in the order they went in, the detailer never reads an empty
  list, the request it works on is never freed under it, and it sees the end only when the queue
  is closed and empty.
\<close>

theorem fixups_fifo:
  assumes "fx_reachable s"
  shows "put_log s = got_log s @ fixupq (fx s) \<and> cons s \<noteq> C_crashed \<and>
    got_log s = freed s @ (case fcur (fx s) of None \<Rightarrow> [] | Some x \<Rightarrow> [x]) \<and>
    (cons s = C_done \<longrightarrow> fclosed (fx s) \<and> got_log s = put_log s)"
  using fx_reachable_inv [OF assms] by (auto simp: fx_inv_def)

text \<open>
  Claim C14. The detailer never sleeps on work: when it waits while a request is queued or the
  queue is closed, the updater is about to signal, can do nothing else before that, and after
  the signal the waiting \<open>fixups_get\<close> returns.
\<close>

theorem fixups_no_lost_wakeup:
  assumes "fx_reachable s" and "cons s = C_waiting" and "fixupq (fx s) \<noteq> [] \<or> fclosed (fx s)"
  shows "\<exists>s1. fx_step s s1 \<and> cons s1 = C_woken \<and> \<not> signalling s1 \<and> fx s1 = fx s \<and>
    cons (fx_get s1) \<in> {C_running, C_done} \<and>
    (\<forall>s2. fx_step s s2 \<longrightarrow> cons s2 = C_woken \<and> fx s2 = fx s)"
proof -
  have inv: "fx_inv s" and sig: "signalling s" using fx_reachable_inv [OF assms(1)] assms(2,3) by (auto simp: fx_inv_def)
  let ?s1 = "s\<lparr>signalling := False, cons := C_woken\<rparr>"
  have "fx_step s ?s1" using st_signal [OF sig] assms(2) by simp
  moreover have "cons (fx_get ?s1) \<in> {C_running, C_done}"
    using inv assms(2,3) by (auto simp: fx_inv_def fx_get_def fixups_get_def split: list.splits)
  moreover have "cons s2 = C_woken \<and> fx s2 = fx s" if "fx_step s s2" for s2
    using that by (cases rule: fx_stepE) (use sig assms(2) in auto)
  ultimately show ?thesis by (intro exI [of _ ?s1]) simp
qed

text \<open>The detailer goes to sleep, and a request arrives.\<close>

definition fx_demo :: "nat fxsys" where
  "fx_demo = the (fx_put (fx_get fx_start) 7)"

lemma fx_demo_reachable: "fx_reachable fx_demo"
proof -
  have "fx_put (fx_get fx_start) (7 :: nat) = Some fx_demo"
    by (simp add: fx_demo_def fx_put_def fx_get_def fx_start_def fixups_new_def fixups_get_def fixups_put_def)
  moreover have "fx_reachable (fx_get (fx_start :: nat fxsys))"
    by (rule fx_reachable.step [OF fx_reachable.start st_get]) (simp add: fx_start_def)
  moreover have "\<not> signalling (fx_get (fx_start :: nat fxsys))"
    by (simp add: fx_start_def fx_get_def fixups_get_def fixups_new_def)
  ultimately show ?thesis by (auto intro: fx_reachable.step st_put)
qed

theorem fixups_fifo_witness:
  "put_log fx_demo = [7] \<and> put_log fx_demo = got_log fx_demo @ fixupq (fx fx_demo)"
  using fixups_fifo [OF fx_demo_reachable]
  by (simp add: fx_demo_def fx_put_def fx_get_def fx_start_def fixups_new_def fixups_get_def fixups_put_def)

theorem fixups_no_lost_wakeup_witness:
  "\<exists>s1. fx_step fx_demo s1 \<and> cons s1 = C_woken \<and> cons (fx_get s1) \<in> {C_running, C_done}"
proof -
  have "cons fx_demo = C_waiting" "fixupq (fx fx_demo) = [7]"
    by (simp_all add: fx_demo_def fx_put_def fx_get_def fx_start_def fixups_new_def fixups_get_def fixups_put_def)
  then have w: "cons fx_demo = C_waiting" "fixupq (fx fx_demo) \<noteq> [] \<or> fclosed (fx fx_demo)" by simp_all
  show ?thesis using fixups_no_lost_wakeup [OF fx_demo_reachable w] by (elim exE conjE) (intro exI conjI)
qed

end
