(* ===== verification/Keyword.thy ===== *)
theory Keyword
  imports Prelude
begin

text \<open>
  RCS keyword expansion, \<open>keyword.c\<close>: the list of keywords of a collection with its aliases, and
  the rewriting of a line. \<open>rcsdatetotm\<close> and \<open>strftime\<close> are the parameter \<open>fmtdate\<close>, which formats
  the date of a revision; \<open>None\<close> of it is the exit of the program on a bad date.
\<close>

section \<open>The keyword list\<close>

datatype rcskey =
    RCSKEY_AUTHOR | RCSKEY_CVSHEADER | RCSKEY_DATE | RCSKEY_HEADER | RCSKEY_ID | RCSKEY_LOCKER | RCSKEY_LOG
  | RCSKEY_NAME | RCSKEY_RCSFILE | RCSKEY_REVISION | RCSKEY_SOURCE | RCSKEY_STATE

record tag =
  ident :: string
  tkey :: rcskey
  enabled :: bool

definition tag_new :: "string \<Rightarrow> rcskey \<Rightarrow> tag" where
  "tag_new s k = \<lparr>ident = s, tkey = k, enabled = True\<rparr>"

record keyword =
  kwlist :: "tag list"
  minkeylen :: nat
  maxkeylen :: nat

definition tag_defaults :: "(string \<times> rcskey) list" where
  "tag_defaults =
     [(''Author'', RCSKEY_AUTHOR), (''CVSHeader'', RCSKEY_CVSHEADER), (''Date'', RCSKEY_DATE),
      (''Header'', RCSKEY_HEADER), (''Id'', RCSKEY_ID), (''Locker'', RCSKEY_LOCKER), (''Log'', RCSKEY_LOG),
      (''Name'', RCSKEY_NAME), (''RCSfile'', RCSKEY_RCSFILE), (''Revision'', RCSKEY_REVISION),
      (''Source'', RCSKEY_SOURCE), (''State'', RCSKEY_STATE)]"

definition keyword_new :: keyword where
  "keyword_new =
     foldl (\<lambda>k (s, key). k\<lparr>kwlist := kwlist k @ [tag_new s key],
               minkeylen := min (minkeylen k) (length s), maxkeylen := max (maxkeylen k) (length s)\<rparr>)
       \<lparr>kwlist = [], minkeylen = 2 ^ 64 - 1, maxkeylen = 0\<rparr> tag_defaults"

lemma keyword_new_eq:
  "keyword_new = \<lparr>kwlist = map (\<lambda>(s, key). tag_new s key) tag_defaults, minkeylen = 2, maxkeylen = 9\<rparr>"
  by (simp add: keyword_new_def tag_defaults_def)

text \<open>The expansion modes, with the numbers of \<open>keyword.h\<close>.\<close>

abbreviation EXPAND_DEFAULT :: int where "EXPAND_DEFAULT \<equiv> 0"
abbreviation EXPAND_KEYVALUE :: int where "EXPAND_KEYVALUE \<equiv> 1"
abbreviation EXPAND_KEYVALUELOCKER :: int where "EXPAND_KEYVALUELOCKER \<equiv> 2"
abbreviation EXPAND_KEY :: int where "EXPAND_KEY \<equiv> 3"
abbreviation EXPAND_OLD :: int where "EXPAND_OLD \<equiv> 4"
abbreviation EXPAND_BINARY :: int where "EXPAND_BINARY \<equiv> 5"
abbreviation EXPAND_VALUE :: int where "EXPAND_VALUE \<equiv> 6"

definition keyword_decode_expand :: "string \<Rightarrow> int" where
  "keyword_decode_expand s =
     (if s = ''.'' then EXPAND_DEFAULT else if s = ''kv'' then EXPAND_KEYVALUE
      else if s = ''kvl'' then EXPAND_KEYVALUELOCKER else if s = ''k'' then EXPAND_KEY
      else if s = ''o'' then EXPAND_OLD else if s = ''b'' then EXPAND_BINARY
      else if s = ''v'' then EXPAND_VALUE else -1)"

definition keyword_encode_expand :: "int \<Rightarrow> string option" where
  "keyword_encode_expand e =
     (if e = EXPAND_DEFAULT then Some ''.'' else if e = EXPAND_KEYVALUE then Some ''kv''
      else if e = EXPAND_KEYVALUELOCKER then Some ''kvl'' else if e = EXPAND_KEY then Some ''k''
      else if e = EXPAND_OLD then Some ''o'' else if e = EXPAND_BINARY then Some ''b''
      else if e = EXPAND_VALUE then Some ''v'' else None)"

lemma expand_code_roundtrip: "keyword_encode_expand e = Some s \<Longrightarrow> keyword_decode_expand s = e"
  by (auto simp: keyword_encode_expand_def keyword_decode_expand_def split: if_splits)

text \<open>The operations return the keyword list and 0 or -1.\<close>

definition keyword_alias :: "keyword \<Rightarrow> string \<Rightarrow> string \<Rightarrow> keyword \<times> int" where
  "keyword_alias k s rcskey =
     (case find (\<lambda>t. ident t = rcskey) (kwlist k) of
        Some t \<Rightarrow> (k\<lparr>kwlist := tag_new s (tkey t) # kwlist k\<rparr>, 0)
      | None \<Rightarrow> (k, -1))"

fun set_enabled :: "bool \<Rightarrow> string \<Rightarrow> tag list \<Rightarrow> tag list \<times> bool" where
  "set_enabled v s [] = ([], False)"
| "set_enabled v s (t # ts) =
     (if ident t = s then (t\<lparr>enabled := v\<rparr> # ts, True)
      else (case set_enabled v s ts of (ts', found) \<Rightarrow> (t # ts', found)))"

definition set_keyword :: "bool \<Rightarrow> keyword \<Rightarrow> string \<Rightarrow> keyword \<times> int" where
  "set_keyword v k s =
     (if s = ''.'' then (k\<lparr>kwlist := map (\<lambda>t. t\<lparr>enabled := v\<rparr>) (kwlist k)\<rparr>, 0)
      else (case set_enabled v s (kwlist k) of
              (ts, found) \<Rightarrow> (k\<lparr>kwlist := ts\<rparr>, if found then 0 else -1)))"

definition keyword_enable :: "keyword \<Rightarrow> string \<Rightarrow> keyword \<times> int" where
  "keyword_enable = set_keyword True"

definition keyword_disable :: "keyword \<Rightarrow> string \<Rightarrow> keyword \<times> int" where
  "keyword_disable = set_keyword False"

definition keyword_prepare :: "keyword \<Rightarrow> keyword" where
  "keyword_prepare k = k\<lparr>kwlist := filter enabled (kwlist k)\<rparr>"

section \<open>Expanding a line\<close>

record diffinfo =
  di_rcsfile :: string
  di_cvsroot :: string
  di_revnum :: string
  di_revdate :: string
  di_author :: string
  di_tag :: "string option"
  di_state :: string
  di_expand :: int

text \<open>The value of a keyword, \<open>Some None\<close> for an empty one.\<close>

definition tag_expand :: "(string \<Rightarrow> string option) \<Rightarrow> tag \<Rightarrow> diffinfo \<Rightarrow> string option option" where
  "tag_expand fmtdate t di =
     (case fmtdate (di_revdate di) of
        None \<Rightarrow> None
      | Some cvsdate \<Rightarrow>
          let filename = (case split_last (CHR ''/'') (di_rcsfile di) of None \<Rightarrow> di_rcsfile di | Some (_, f) \<Rightarrow> f);
              rest = '' '' @ di_revnum di @ '' '' @ cvsdate @ '' '' @ di_author di @ '' '' @ di_state di
          in Some (case tkey t of
               RCSKEY_AUTHOR \<Rightarrow> Some (di_author di)
             | RCSKEY_CVSHEADER \<Rightarrow> Some (di_rcsfile di @ rest)
             | RCSKEY_DATE \<Rightarrow> Some cvsdate
             | RCSKEY_HEADER \<Rightarrow> Some (di_cvsroot di @ ''/'' @ di_rcsfile di @ rest)
             | RCSKEY_ID \<Rightarrow> Some (filename @ rest)
             | RCSKEY_LOCKER \<Rightarrow> None
             | RCSKEY_LOG \<Rightarrow> None
             | RCSKEY_NAME \<Rightarrow> di_tag di
             | RCSKEY_RCSFILE \<Rightarrow> Some filename
             | RCSKEY_REVISION \<Rightarrow> Some (di_revnum di)
             | RCSKEY_SOURCE \<Rightarrow> Some (di_cvsroot di @ ''/'' @ di_rcsfile di)
             | RCSKEY_STATE \<Rightarrow> Some (di_state di)))"

text \<open>What replaces \<open>$key...$\<close>; \<open>None\<close> the exit or the assertion on the mode.\<close>

definition tag_text :: "(string \<Rightarrow> string option) \<Rightarrow> diffinfo \<Rightarrow> tag \<Rightarrow> string \<Rightarrow> string option" where
  "tag_text fmtdate di t key =
     (let val = (\<lambda>v. case v of None \<Rightarrow> [] | Some s \<Rightarrow> s) in
      if di_expand di = EXPAND_KEY then Some (''$'' @ key @ ''$'')
      else if di_expand di = EXPAND_VALUE then map_option val (tag_expand fmtdate t di)
      else if di_expand di \<in> {EXPAND_DEFAULT, EXPAND_KEYVALUE, EXPAND_KEYVALUELOCKER}
           then map_option (\<lambda>v. ''$'' @ key @ '': '' @ val v @ '' $'') (tag_expand fmtdate t di)
      else None)"

text \<open>
  The keyword that starts at the text \<open>body\<close> between two dollar signs: the characters before the
  first colon, when there are some and not too few or too many of them. (The comparison with
  \<open>strncmp\<close> is equality, for lines without NUL bytes.)
\<close>

definition find_tag :: "keyword \<Rightarrow> string \<Rightarrow> (string \<times> tag) option" where
  "find_tag k body =
     (let key = takeWhile (\<lambda>c. c \<noteq> CHR '':'') body in
      if key = [] \<or> length key < minkeylen k \<or> length key > maxkeylen k then None
      else map_option (Pair key) (find (\<lambda>t. ident t = key) (kwlist k)))"

text \<open>
  The loop from \<open>again\<close> on: the rest of the line and whether something was replaced. After a
  replacement it goes on behind it; a second dollar sign that ends no keyword may start one.
\<close>

function expand_from ::
  "(string \<Rightarrow> string option) \<Rightarrow> keyword \<Rightarrow> diffinfo \<Rightarrow> string \<Rightarrow> (string \<times> bool) option" where
  "expand_from fmtdate k di rest =
     (case split_first (CHR ''$'') rest of
        None \<Rightarrow> Some (rest, False)
      | Some (pre, s) \<Rightarrow>
          (case split_first (CHR ''$'') s of
             None \<Rightarrow> Some (rest, False)
           | Some (body, after) \<Rightarrow>
               (case find_tag k body of
                  None \<Rightarrow>
                    map_option (\<lambda>(r, b). (pre @ ''$'' @ body @ r, b)) (expand_from fmtdate k di (CHR ''$'' # after))
                | Some (key, t) \<Rightarrow>
                    (case tag_text fmtdate di t key of
                       None \<Rightarrow> None
                     | Some new \<Rightarrow>
                         map_option (\<lambda>(r, _). (pre @ new @ r, True)) (expand_from fmtdate k di after)))))"
  by pat_completeness auto
termination
  by (relation "measure (\<lambda>(fmtdate, k, di, rest). length rest)") (auto simp: cstr)

declare expand_from.simps [simp del]

text \<open>\<open>keyword_expand\<close>: \<open>Some None\<close> is the return value 0.\<close>

definition keyword_expand ::
  "(string \<Rightarrow> string option) \<Rightarrow> keyword \<Rightarrow> diffinfo \<Rightarrow> string \<Rightarrow> string option option" where
  "keyword_expand fmtdate k di line =
     (if di_expand di = EXPAND_OLD \<or> di_expand di = EXPAND_BINARY then Some None
      else (case expand_from fmtdate k di line of
              None \<Rightarrow> None
            | Some (l, changed) \<Rightarrow> Some (if changed then Some l else None)))"

text \<open>The line that is written.\<close>

definition expanded :: "(string \<Rightarrow> string option) \<Rightarrow> keyword \<Rightarrow> diffinfo \<Rightarrow> string \<Rightarrow> string option" where
  "expanded fmtdate k di line =
     map_option (\<lambda>r. case r of None \<Rightarrow> line | Some l \<Rightarrow> l) (keyword_expand fmtdate k di line)"

section \<open>Expanding again\<close>

text \<open>The values of a delta contain no dollar sign.\<close>

definition plain_values :: "(string \<Rightarrow> string option) \<Rightarrow> diffinfo \<Rightarrow> bool" where
  "plain_values fmtdate di \<longleftrightarrow> (\<forall>t v. tag_expand fmtdate t di = Some (Some v) \<longrightarrow> CHR ''$'' \<notin> set v)"

definition keeps_key :: "int \<Rightarrow> bool" where
  "keeps_key m \<longleftrightarrow> m \<in> {EXPAND_DEFAULT, EXPAND_KEYVALUE, EXPAND_KEYVALUELOCKER, EXPAND_KEY}"

lemma find_tag_key:
  "find_tag k body = Some (key, t) \<Longrightarrow> CHR '':'' \<notin> set key \<and> key = takeWhile (\<lambda>c. c \<noteq> CHR '':'') body"
  by (auto simp: find_tag_def Let_def split: if_splits dest: set_takeWhileD)

text \<open>The replacement of a keyword is the keyword again, with another body.\<close>

lemma tag_text_body:
  assumes "plain_values fmtdate di" "keeps_key (di_expand di)" "find_tag k body = Some (key, t)"
    and "CHR ''$'' \<notin> set body" "tag_text fmtdate di t key = Some new"
  shows "\<exists>body'. new = CHR ''$'' # body' @ ''$'' \<and> CHR ''$'' \<notin> set body' \<and> find_tag k body' = Some (key, t)"
proof -
  have key: "CHR '':'' \<notin> set key" "key = takeWhile (\<lambda>c. c \<noteq> CHR '':'') body" using find_tag_key [OF assms(3)] by auto
  then have kd: "CHR ''$'' \<notin> set key" using assms(4) by (auto dest: set_takeWhileD)
  have ft: "find_tag k b = Some (key, t)" if "takeWhile (\<lambda>c. c \<noteq> CHR '':'') b = key" for b
    using assms(3) key(2) that by (simp add: find_tag_def)
  consider "new = ''$'' @ key @ ''$''" | v where "new = ''$'' @ key @ '': '' @ v @ '' $''" "CHR ''$'' \<notin> set v"
    using assms(1,2,5)
    by (auto simp: tag_text_def keeps_key_def plain_values_def Let_def split: if_splits option.splits)
  then show ?thesis
  proof cases
    case 1
    have "takeWhile (\<lambda>c. c \<noteq> CHR '':'') key = key" using key(1) by (intro takeWhile_all) auto
    with 1 kd ft show ?thesis by (intro exI [of _ key]) simp
  next
    case 2
    have "\<forall>x \<in> set key. x \<noteq> CHR '':''" using key(1) by auto
    then have "takeWhile (\<lambda>c. c \<noteq> CHR '':'') (key @ '': '' @ v @ '' '') = key"
      using takeWhile_append_stop [of key "\<lambda>c. c \<noteq> CHR '':''" "CHR '':''" "'' '' @ v @ '' ''"] by simp
    with 2 kd ft show ?thesis by (intro exI [of _ "key @ '': '' @ v @ '' ''"]) simp
  qed
qed

lemma expand_from_dollar:
  assumes "plain_values fmtdate di" "keeps_key (di_expand di)" "expand_from fmtdate k di (CHR ''$'' # a) = Some (r, b)"
  shows "\<exists>x. r = CHR ''$'' # x"
proof (cases "split_first (CHR ''$'') a")
  case None
  then show ?thesis using assms(3) by (auto simp: expand_from.simps [of fmtdate k di "CHR ''$'' # a"])
next
  case (Some p)
  then obtain body after where p: "split_first (CHR ''$'') a = Some (body, after)" by (cases p) simp
  then have nd: "CHR ''$'' \<notin> set body" by (simp add: cstr)
  show ?thesis
  proof (cases "find_tag k body")
    case None
    then show ?thesis using assms(3) p by (auto simp: expand_from.simps [of fmtdate k di "CHR ''$'' # a"])
  next
    case t: (Some kt)
    then obtain key t where kt: "find_tag k body = Some (key, t)" by (cases kt) simp
    then obtain new where "tag_text fmtdate di t key = Some new" "\<exists>r'. r = new @ r'"
      using assms(3) p by (auto simp: expand_from.simps [of fmtdate k di "CHR ''$'' # a"] split: option.splits)
    with tag_text_body [OF assms(1,2) kt nd] show ?thesis by fastforce
  qed
qed

lemma expand_again:
  assumes "plain_values fmtdate di" "keeps_key (di_expand di)" "expand_from fmtdate k di l = Some (r, b)"
  shows "expand_from fmtdate k di2 r = expand_from fmtdate k di2 l"
  using assms
proof (induction fmtdate k di l arbitrary: r b rule: expand_from.induct)
  case (1 fmtdate k di l)
  note [simp] = expand_from.simps [of fmtdate k _ l]
  show ?case
  proof (cases "split_first (CHR ''$'') l")
    case None
    then show ?thesis using "1.prems"(3) by simp
  next
    case (Some ps)
    then obtain pre s where ps: "split_first (CHR ''$'') l = Some (pre, s)" by (cases ps) simp
    show ?thesis
    proof (cases "split_first (CHR ''$'') s")
      case None
      then show ?thesis using "1.prems"(3) ps by simp
    next
      case (Some ba)
      then obtain body after where ba: "split_first (CHR ''$'') s = Some (body, after)" by (cases ba) simp
      have nd: "CHR ''$'' \<notin> set pre" "CHR ''$'' \<notin> set body" using ps ba by (auto simp: cstr)
      have step: "expand_from fmtdate k di2 (pre @ CHR ''$'' # b' @ CHR ''$'' # x) =
         (case find_tag k b' of
            None \<Rightarrow> map_option (\<lambda>(r, b). (pre @ ''$'' @ b' @ r, b)) (expand_from fmtdate k di2 (CHR ''$'' # x))
          | Some (key, t) \<Rightarrow> (case tag_text fmtdate di2 t key of None \<Rightarrow> None
              | Some new \<Rightarrow> map_option (\<lambda>(r, _). (pre @ new @ r, True)) (expand_from fmtdate k di2 x)))"
        if "CHR ''$'' \<notin> set b'" for b' x
        using nd that by (subst expand_from.simps) simp
      show ?thesis
      proof (cases "find_tag k body")
        case None
        then obtain r' b' where r': "expand_from fmtdate k di (CHR ''$'' # after) = Some (r', b')" "r = pre @ ''$'' @ body @ r'"
          using "1.prems"(3) ps ba by auto
        from expand_from_dollar [OF "1.prems"(1,2) r'(1)] obtain x where x: "r' = CHR ''$'' # x" by blast
        have "expand_from fmtdate k di2 r' = expand_from fmtdate k di2 (CHR ''$'' # after)"
          using "1.IH"(1) [OF ps refl ba refl None "1.prems"(1,2) r'(1)] .
        then show ?thesis using None ps ba step [OF nd(2), of x] r'(2) x by simp
      next
        case (Some kt)
        then obtain key t where kt: "find_tag k body = Some (key, t)" by (cases kt) simp
        then obtain new r' b' where new: "tag_text fmtdate di t key = Some new"
          "expand_from fmtdate k di after = Some (r', b')" "r = pre @ new @ r'"
          using "1.prems"(3) ps ba by (auto split: option.splits)
        obtain body' where b': "new = CHR ''$'' # body' @ ''$''" "CHR ''$'' \<notin> set body'" "find_tag k body' = Some (key, t)"
          using tag_text_body [OF "1.prems"(1,2) kt nd(2) new(1)] by blast
        have "expand_from fmtdate k di2 r' = expand_from fmtdate k di2 after"
          using "1.IH"(2) [OF ps refl ba refl kt refl new(1) "1.prems"(1,2) new(2)] .
        then show ?thesis using kt ps ba step [OF b'(2), of r'] b' new(3)
          by (cases "tag_text fmtdate di2 t key") simp_all
      qed
    qed
  qed
qed

lemma expand_from_same: "expand_from fmtdate k di l = Some (r, False) \<Longrightarrow> r = l"
proof (induction fmtdate k di l arbitrary: r rule: expand_from.induct)
  case (1 fmtdate k di l)
  note "1.prems" [unfolded expand_from.simps [of fmtdate k di l]]
  then show ?case using "1.IH"(1) by (fastforce simp: cstr split: option.splits)
qed

lemma expanded_text:
  "expanded fmtdate k di l =
     (if di_expand di = EXPAND_OLD \<or> di_expand di = EXPAND_BINARY then Some l
      else map_option fst (expand_from fmtdate k di l))"
  using expand_from_same [of fmtdate k di l] by (auto simp: expanded_def keyword_expand_def split: option.splits)

text \<open>
  Claim C15. Keyword expansion may be repeated: a line that was expanded for one delta, in a mode
  that keeps the keyword (\<open>-kkv\<close>, \<open>-kkvl\<close>, \<open>-kk\<close> or the default), expands for any other delta in
  any mode that expands keywords at all (not \<open>-ko\<close> or \<open>-kb\<close>, which leave every line alone) exactly as the
  unexpanded line would; so the text of a checked-out file can stand in for the text in the RCS
  file when a delta is applied to it. The values of the first delta have no dollar sign.
\<close>

theorem expansion_repeatable:
  assumes "\<forall>t v. tag_expand fmtdate t di1 = Some (Some v) \<longrightarrow> CHR ''$'' \<notin> set v"
    and "di_expand di1 \<in> {EXPAND_DEFAULT, EXPAND_KEYVALUE, EXPAND_KEYVALUELOCKER, EXPAND_KEY}"
    and "di_expand di2 \<notin> {EXPAND_OLD, EXPAND_BINARY}"
    and "expanded fmtdate k di1 line = Some line1"
  shows "expanded fmtdate k di2 line1 = expanded fmtdate k di2 line"
proof -
  obtain b where "expand_from fmtdate k di1 line = Some (line1, b)"
    using assms(2,4) by (auto simp: expanded_text)
  with expand_again [of fmtdate di1 k line line1 b di2] assms(1-3) show ?thesis
    by (auto simp: expanded_text plain_values_def keeps_key_def)
qed

definition demo_di :: "string \<Rightarrow> int \<Rightarrow> diffinfo" where
  "demo_di rn mode = \<lparr>di_rcsfile = ''src/a.c,v'', di_cvsroot = ''/cvs'', di_revnum = rn, di_revdate = ''d'',
     di_author = ''mux'', di_tag = None, di_state = ''Exp'', di_expand = mode\<rparr>"

theorem expansion_repeatable_witness:
  "let k = keyword_new; l = ''x $Revision$ $$Id: old$ 5$'' in
   expanded (\<lambda>d. Some d) k (demo_di ''1.1'' EXPAND_DEFAULT) l = Some ''x $Revision: 1.1 $ $$Id: a.c,v 1.1 d mux Exp $ 5$'' \<and>
   expanded (\<lambda>d. Some d) k (demo_di ''1.2'' EXPAND_VALUE) ''x $Revision: 1.1 $ $$Id: a.c,v 1.1 d mux Exp $ 5$'' =
   expanded (\<lambda>d. Some d) k (demo_di ''1.2'' EXPAND_VALUE) l"
proof -
  have e: "expanded (\<lambda>d. Some d) keyword_new (demo_di ''1.1'' EXPAND_DEFAULT) ''x $Revision$ $$Id: old$ 5$'' =
      Some ''x $Revision: 1.1 $ $$Id: a.c,v 1.1 d mux Exp $ 5$''"
    unfolding keyword_new_eq by code_simp
  have "CHR ''$'' \<notin> set v" if "tag_expand (\<lambda>d. Some d) t (demo_di ''1.1'' EXPAND_DEFAULT) = Some (Some v)" for t v
    using that by (cases "tkey t") (auto simp: tag_expand_def demo_di_def split_last_def)
  then show ?thesis unfolding Let_def
    using e expansion_repeatable [of "\<lambda>d. Some d" "demo_di ''1.1'' EXPAND_DEFAULT" "demo_di ''1.2'' EXPAND_VALUE"
        keyword_new "''x $Revision$ $$Id: old$ 5$''"]
    by (simp add: demo_di_def)
qed

end
