(* ===== verification/Diff.thy ===== *)
theory Diff
  imports Proto Keyword
begin

text \<open>
  Applying the diffs of the server, \<open>diff.c\<close>. The streams \<open>rd\<close> and \<open>orig\<close> are the lists of their
  lines, with the newline, as \<open>stream_getln\<close> returns them with a length (Stream.stream_getln_lines);
  with a NULL length the caller sees \<^const>\<open>c_line\<close> of the line. The output is the text written to
  \<open>dest\<close>. \<open>w\<close> is \<open>keyword_expand\<close> as \<open>diff_write\<close> uses it, on the keywords and the delta at hand.
\<close>

section \<open>Editing commands\<close>

datatype ec_cmd = EC_ADD | EC_DEL

record editcmd =
  ec_cmd :: ec_cmd
  ec_where :: int
  ec_count :: int
  lasta :: int
  lastd :: int
  editline :: int

definition editcmd_zero :: editcmd where
  "editcmd_zero = \<lparr>ec_cmd = EC_ADD, ec_where = 0, ec_count = 0, lasta = 0, lastd = 0, editline = 0\<rparr>"

text \<open>The two numbers of a command; a line number is at least 0 and a count at least 1.\<close>

definition edit_numbers :: "string \<Rightarrow> (int \<times> int) option" where
  "edit_numbers s =
     (case strtol 10 s of
        (wh, err, end) \<Rightarrow>
          if err \<or> wh < 0 \<or> end = [] \<or> hd end \<noteq> CHR '' '' then None
          else (case strtol 10 (tl end) of
              (n, err, end2) \<Rightarrow> if err \<or> n \<le> 0 \<or> end2 \<noteq> [] then None else Some (wh, n)))"

definition diff_geteditcmd :: "editcmd \<Rightarrow> string \<Rightarrow> editcmd option" where
  "diff_geteditcmd ec line =
     (let cmd = (if line = [] then None
                 else if hd line = CHR ''a'' then Some EC_ADD
                 else if hd line = CHR ''d'' then Some EC_DEL else None)
      in (case cmd of
            None \<Rightarrow> None
          | Some c \<Rightarrow>
              (case edit_numbers (tl line) of
                 None \<Rightarrow> None
               | Some (wh, n) \<Rightarrow>
                   let ec1 = ec\<lparr>ec_cmd := c, ec_where := wh, ec_count := n\<rparr> in
                   if c = EC_ADD then (if wh < lasta ec then None else Some (ec1\<lparr>lasta := wh + 1\<rparr>))
                   else if wh < lasta ec \<or> wh < lastd ec then None
                   else Some (ec1\<lparr>lasta := wh, lastd := wh + n\<rparr>))))"

section \<open>Applying a diff\<close>

text \<open>\<open>D_fail\<close> is the return value -1, \<open>D_exit\<close> the exit on a bad date.\<close>

datatype derr = D_fail | D_exit

text \<open>
  The loop of \<open>diff_copyln\<close>: whether the line \<open>to\<close> was reached, the line number, the lines left and
  the text written; \<open>None\<close> is the exit. \<open>diff_apply\<close> gives up when the file is too short.
\<close>

fun copy_lines :: "(string \<Rightarrow> string option) \<Rightarrow> int \<Rightarrow> int \<Rightarrow> string list \<Rightarrow> (bool \<times> int \<times> string list \<times> string) option" where
  "copy_lines w ed to [] = Some (\<not> ed < to, ed, [], [])"
| "copy_lines w ed to (l # ls) =
     (if ed < to then
        (case w l of
           None \<Rightarrow> None
         | Some t \<Rightarrow> map_option (\<lambda>(ok, ed1, ls1, out). (ok, ed1, ls1, t @ out)) (copy_lines w (ed + 1) to ls))
      else Some (True, ed, l # ls, []))"

definition diff_copyln :: "(string \<Rightarrow> string option) \<Rightarrow> int \<Rightarrow> int \<Rightarrow> string list \<Rightarrow> derr + int \<times> string list \<times> string" where
  "diff_copyln w ed to ls =
     (case copy_lines w ed to ls of
        None \<Rightarrow> Inl D_exit
      | Some (ok, ed1, ls1, out) \<Rightarrow> if ok then Inr (ed1, ls1, out) else Inl D_fail)"

text \<open>The lines of an add command: a leading dot is removed in checkout mode.\<close>

definition unstuff :: "bool \<Rightarrow> string \<Rightarrow> string" where
  "unstuff comode l = (if comode \<and> l \<noteq> [] \<and> hd l = CHR ''.'' then tl l else l)"

fun diff_addlines :: "(string \<Rightarrow> string option) \<Rightarrow> bool \<Rightarrow> nat \<Rightarrow> string list \<Rightarrow> derr + string list \<times> string" where
  "diff_addlines w comode 0 rd = Inr (rd, [])"
| "diff_addlines w comode (Suc n) [] = Inl D_fail"
| "diff_addlines w comode (Suc n) (l # rd) =
     (case w (unstuff comode l) of
        None \<Rightarrow> Inl D_exit
      | Some t \<Rightarrow>
          (case diff_addlines w comode n rd of
             Inl e \<Rightarrow> Inl e
           | Inr (rd1, out) \<Rightarrow> Inr (rd1, t @ out)))"

lemma diff_addlines_shorter: "diff_addlines w comode n rd = Inr (rd1, out) \<Longrightarrow> length rd1 \<le> length rd"
  by (induction w comode n rd arbitrary: out rule: diff_addlines.induct) (fastforce split: option.splits sum.splits)+

text \<open>
  The loop over the commands: the last line read (NULL at the end of the input), whether an
  empty line was seen, the lines of the original that are left and the text written.
\<close>

function diff_loop ::
  "(string \<Rightarrow> string option) \<Rightarrow> bool \<Rightarrow> editcmd \<Rightarrow> bool \<Rightarrow> string list \<Rightarrow> string list \<Rightarrow>
   derr + line \<times> bool \<times> string list \<times> string" where
  "diff_loop w comode ec seen rd orig =
     (case rd of
        [] \<Rightarrow> Inr (None, seen, orig, [])
      | raw # rd1 \<Rightarrow>
          let line = c_line raw in
          if line = ''.'' \<or> line = ''.+'' then Inr (Some line, seen, orig, [])
          else if line = [] then (if seen then Inl D_fail else diff_loop w comode ec True rd1 orig)
          else (case diff_geteditcmd ec line of
              None \<Rightarrow> Inl D_fail
            | Some ec1 \<Rightarrow>
                if ec_cmd ec1 = EC_ADD then
                  (case diff_copyln w (editline ec1) (ec_where ec1) orig of
                     Inl e \<Rightarrow> Inl e
                   | Inr (ed, orig1, out1) \<Rightarrow>
                       (case diff_addlines w comode (nat (ec_count ec1)) rd1 of
                          Inl e \<Rightarrow> Inl e
                        | Inr (rd2, out2) \<Rightarrow>
                            (case diff_loop w comode (ec1\<lparr>editline := ed\<rparr>) seen rd2 orig1 of
                               Inl e \<Rightarrow> Inl e
                             | Inr (l, em, orig2, out3) \<Rightarrow> Inr (l, em, orig2, out1 @ out2 @ out3))))
                else
                  (case diff_copyln w (editline ec1) (ec_where ec1 - 1) orig of
                     Inl e \<Rightarrow> Inl e
                   | Inr (ed, orig1, out1) \<Rightarrow>
                       if length orig1 < nat (ec_count ec1) then Inl D_fail
                       else (case diff_loop w comode (ec1\<lparr>editline := ed + ec_count ec1\<rparr>) seen rd1
                               (drop (nat (ec_count ec1)) orig1) of
                               Inl e \<Rightarrow> Inl e
                             | Inr (l, em, orig2, out3) \<Rightarrow> Inr (l, em, orig2, out1 @ out3)))))"
  by pat_completeness auto
termination
  by (relation "measure (\<lambda>(w, comode, ec, seen, rd, orig). length rd)") (auto dest: diff_addlines_shorter)

declare diff_loop.simps [simp del]

text \<open>\<open>stream_truncate_rel\<close> by -1 on a flushed file: it fails when there is nothing to cut.\<close>

definition diff_apply :: "(string \<Rightarrow> string option) \<Rightarrow> bool \<Rightarrow> string list \<Rightarrow> string list \<Rightarrow> derr + string" where
  "diff_apply w comode rd orig =
     (case diff_loop w comode editcmd_zero False rd orig of
        Inl e \<Rightarrow> Inl e
      | Inr (line, seen, orig1, out) \<Rightarrow>
          if comode \<and> line = None then Inl D_fail
          else (case diff_copyln w 0 (int (length orig1)) orig1 of
              Inl e \<Rightarrow> Inl e
            | Inr (_, _, out2) \<Rightarrow>
                if comode \<and> line = Some ''.+'' \<and> \<not> seen then
                  (if out @ out2 = [] then Inl D_fail else Inr (butlast (out @ out2)))
                else Inr (out @ out2)))"

section \<open>What a script means\<close>

text \<open>
  An edit script on the lines of a file, in the terms of RCS: line numbers always refer to the
  original. \<open>Add p ls\<close> puts lines behind line \<open>p\<close>, \<open>Del p c\<close> removes \<open>c\<close> lines from line \<open>p\<close> on.
  \<open>patch\<close> is the declarative meaning, line by line and independent of the order of the commands.
\<close>

datatype edit = Add nat "string list" | Del nat nat

definition deleted :: "edit list \<Rightarrow> nat \<Rightarrow> bool" where
  "deleted es p \<longleftrightarrow> (\<exists>e \<in> set es. case e of Del q c \<Rightarrow> q \<le> p \<and> p < q + c | _ \<Rightarrow> False)"

definition added :: "edit list \<Rightarrow> nat \<Rightarrow> string list" where
  "added es p = concat (map (\<lambda>e. case e of Add q ls \<Rightarrow> if q = p then ls else [] | _ \<Rightarrow> []) es)"

definition line_after :: "edit list \<Rightarrow> string list \<Rightarrow> nat \<Rightarrow> string list" where
  "line_after es orig p = (if 1 \<le> p \<and> \<not> deleted es p then [orig ! (p - 1)] else []) @ added es p"

definition patch :: "edit list \<Rightarrow> string list \<Rightarrow> string list" where
  "patch es orig = concat (map (line_after es orig) [0..<length orig + 1])"

text \<open>The scripts of the server: in order, within the file, each command with something to do.\<close>

fun script_ok :: "nat \<Rightarrow> nat \<Rightarrow> nat \<Rightarrow> edit list \<Rightarrow> bool" where
  "script_ok la ld n [] \<longleftrightarrow> True"
| "script_ok la ld n (Add p ls # es) \<longleftrightarrow>
     la \<le> p \<and> p \<le> n \<and> ls \<noteq> [] \<and> int (length ls) \<le> LONG_MAX \<and> script_ok (p + 1) ld n es"
| "script_ok la ld n (Del p c # es) \<longleftrightarrow>
     la \<le> p \<and> ld \<le> p \<and> 1 \<le> p \<and> 1 \<le> c \<and> p + c \<le> n + 1 \<and> script_ok p (p + c) n es"

lemma script_ok_added: "script_ok la ld n es \<Longrightarrow> q < la \<Longrightarrow> added es q = []"
proof (induction es arbitrary: la ld)
  case (Cons e es)
  then show ?case by (cases e) (fastforce simp: added_def)+
qed (simp add: added_def)

lemma script_ok_deleted: "script_ok la ld n es \<Longrightarrow> q < la \<or> q < ld \<Longrightarrow> \<not> deleted es q"
proof (induction es arbitrary: la ld)
  case (Cons e es)
  show ?case
  proof (cases e)
    case (Add p ls)
    have "q < p + 1 \<or> q < ld" using Cons.prems Add by auto
    then show ?thesis using Cons.IH [of "p + 1" ld] Cons.prems Add by (auto simp: deleted_def)
  next
    case (Del p c)
    have "q < p" using Cons.prems Del by auto
    then show ?thesis using Cons.IH [of p "p + c"] Cons.prems Del by (auto simp: deleted_def)
  qed
qed (simp add: deleted_def)

text \<open>What is still to be written when \<open>ed\<close> lines are done and adds before \<open>la\<close> are over.\<close>

definition patch_from :: "nat \<Rightarrow> nat \<Rightarrow> edit list \<Rightarrow> string list \<Rightarrow> string list" where
  "patch_from la ed es orig =
     concat (map (added es) [la..<ed + 1]) @ concat (map (line_after es orig) [ed + 1..<length orig + 1])"

lemma patch_start: "patch es orig = patch_from 0 0 es orig"
  by (simp add: patch_def patch_from_def line_after_def upt_conv_Cons del: upt_Suc)

text \<open>Lines that no command touches.\<close>

lemma untouched:
  assumes "\<And>q. ed < q \<Longrightarrow> q \<le> k \<Longrightarrow> f q = [orig ! (q - 1)]" "k \<le> length orig"
  shows "concat (map f [ed + 1..<k + 1]) = take (k - ed) (drop ed orig)"
proof -
  have "map f [ed + 1..<k + 1] = map (\<lambda>q. [orig ! (q - 1)]) [ed + 1..<k + 1]"
    using assms(1) by (intro map_cong) auto
  also have "concat \<dots> = map (\<lambda>q. orig ! (q - 1)) [ed + 1..<k + 1]" by (induction "[ed + 1..<k + 1]") auto
  also have "\<dots> = take (k - ed) (drop ed orig)"
    using assms(2) by (intro nth_equalityI) (auto simp del: upt_Suc)
  finally show ?thesis .
qed

lemma upt_split: "i \<le> j \<Longrightarrow> j \<le> k \<Longrightarrow> [i..<k] = [i..<j] @ [j..<k :: nat]"
  using upt_add_eq_append [of i j "k - j"] by simp

lemma patch_from_Nil:
  assumes "ed \<le> length orig"
  shows "patch_from la ed [] orig = drop ed orig"
proof -
  have "concat (map (added []) [la..<ed + 1]) = []" by (simp add: added_def del: upt_Suc)
  moreover have "concat (map (line_after [] orig) [ed + 1..<length orig + 1]) = take (length orig - ed) (drop ed orig)"
    by (rule untouched) (auto simp: line_after_def deleted_def added_def)
  ultimately show ?thesis by (simp add: patch_from_def del: upt_Suc)
qed

lemma concat_map_Nil: "\<forall>x \<in> set xs. f x = [] \<Longrightarrow> concat (map f xs) = []"
  by (induction xs) auto

lemma concat_map_cong: "\<forall>x \<in> set xs. f x = g x \<Longrightarrow> concat (map f xs) = concat (map g xs)"
  by (induction xs) auto

lemma patch_from_Add:
  assumes ok: "script_ok (p + 1) ld (length orig) es" and la: "la \<le> p" "p \<le> length orig" and ed: "ed \<le> length orig"
  shows "patch_from la ed (Add p ls # es) orig =
    take (p - ed) (drop ed orig) @ ls @ patch_from (p + 1) (max ed p) es orig"
proof -
  let ?es = "Add p ls # es"
  have a: "added ?es q = (if q = p then ls else []) @ added es q" for q by (simp add: added_def)
  have d: "deleted ?es q = deleted es q" for q by (simp add: deleted_def)
  have z: "added es q = []" "\<not> deleted es q" if "q \<le> p" for q
    using script_ok_added [OF ok] script_ok_deleted [OF ok] that by auto
  have tail: "concat (map (line_after ?es orig) [k..<m]) = concat (map (line_after es orig) [k..<m])" if "p < k" for k m
    using that by (intro concat_map_cong) (auto simp: line_after_def a d)
  have pre: "concat (map (added ?es) [la..<m]) = []" if "m \<le> p" for m
    using that z by (intro concat_map_Nil) (auto simp: a)
  show ?thesis
  proof (cases "ed < p")
    case True
    have s: "[ed + 1..<length orig + 1] = ([ed + 1..<p] @ [p]) @ [p + 1..<length orig + 1]"
      using True la upt_split [of "ed + 1" "p + 1" "length orig + 1"] by simp
    have u: "concat (map (line_after ?es orig) [ed + 1..<p - 1 + 1]) = take (p - 1 - ed) (drop ed orig)"
      using la by (intro untouched) (auto simp: line_after_def a d z)
    have "take (p - ed) (drop ed orig) = take (p - 1 - ed) (drop ed orig) @ [orig ! (p - 1)]"
      using True la take_Suc_conv_app_nth [of "p - 1 - ed" "drop ed orig"] by (simp add: Suc_diff_Suc)
    then show ?thesis
      using True u z [of p] pre [of "ed + 1"] tail [of "p + 1"] unfolding patch_from_def s
      by (simp add: line_after_def a d del: upt_Suc)
  next
    case False
    have s: "[la..<ed + 1] = ([la..<p] @ [p]) @ [p + 1..<ed + 1]"
      using False la upt_split [of la "p + 1" "ed + 1"] by simp
    have "concat (map (added ?es) [p + 1..<ed + 1]) = concat (map (added es) [p + 1..<ed + 1])"
      by (intro concat_map_cong) (auto simp: a)
    then show ?thesis
      using False z [of p] pre [of p] tail [of "ed + 1"] unfolding patch_from_def s
      by (simp add: a max_def del: upt_Suc)
  qed
qed

lemma patch_from_Del:
  assumes ok: "script_ok p (p + c) (length orig) es" and p: "ed < p" "p + c \<le> length orig + 1"
  shows "patch_from la ed (Del p c # es) orig = take (p - 1 - ed) (drop ed orig) @ patch_from p (p - 1 + c) es orig"
proof -
  let ?es = "Del p c # es"
  have a: "added ?es q = added es q" for q by (simp add: added_def)
  have d: "deleted ?es q \<longleftrightarrow> p \<le> q \<and> q < p + c \<or> deleted es q" for q by (simp add: deleted_def)
  have z: "added es q = []" "\<not> deleted es q" if "q < p" for q
    using script_ok_added [OF ok] script_ok_deleted [OF ok] that by auto
  have pre: "concat (map (added ?es) [la..<ed + 1]) = []"
    using p z by (intro concat_map_Nil) (auto simp: a)
  have u: "concat (map (line_after ?es orig) [ed + 1..<p - 1 + 1]) = take (p - 1 - ed) (drop ed orig)"
    using p by (intro untouched) (auto simp: line_after_def a d z)
  have m: "concat (map (line_after ?es orig) [p..<p + c]) = concat (map (added es) [p..<p + c])"
    by (intro concat_map_cong) (auto simp: line_after_def a d)
  have t: "concat (map (line_after ?es orig) [p + c..<length orig + 1]) =
      concat (map (line_after es orig) [p + c..<length orig + 1])"
    by (intro concat_map_cong) (auto simp: line_after_def a d)
  have s: "[ed + 1..<length orig + 1] = [ed + 1..<p - 1 + 1] @ [p..<p + c] @ [p + c..<length orig + 1]"
    using p upt_split [of "ed + 1" p "length orig + 1"] upt_split [of p "p + c" "length orig + 1"] by simp
  have e: "p - 1 + c + 1 = p + c" using p by simp
  show ?thesis unfolding patch_from_def s e using pre u m t by (simp del: upt_Suc)
qed

section \<open>Applying the text of a script\<close>

definition stuff :: "bool \<Rightarrow> string \<Rightarrow> string" where
  "stuff comode l = (if comode \<and> l \<noteq> [] \<and> hd l = CHR ''.'' then CHR ''.'' # l else l)"

fun edit_lines :: "bool \<Rightarrow> edit \<Rightarrow> string list" where
  "edit_lines comode (Add p ls) =
     (CHR ''a'' # num_str 10 p @ CHR '' '' # num_str 10 (length ls) @ [CHR 0x0A]) # map (stuff comode) ls"
| "edit_lines comode (Del p c) = [CHR ''d'' # num_str 10 p @ CHR '' '' # num_str 10 c @ [CHR 0x0A]]"

lemma unstuff_stuff [simp]: "unstuff comode (stuff comode l) = l"
  by (simp add: stuff_def unstuff_def)

lemma edit_numbers_text:
  assumes "int p \<le> LONG_MAX" "int c \<le> LONG_MAX" "0 < c"
  shows "edit_numbers (num_str 10 p @ CHR '' '' # num_str 10 c) = Some (int p, int c)"
proof -
  have "\<not> starts_digit 10 (CHR '' '' # s)" for s by (simp add: starts_digit_def digit_val_def)
  then have "strtol 10 (num_str 10 p @ CHR '' '' # num_str 10 c) = (int p, False, CHR '' '' # num_str 10 c)"
    unfolding strtol_def using assms(1) by (intro strtol_gen_num_str) (auto simp: int_limits)
  then show ?thesis using assms(2,3) strtol_num_str [of 10 c] by (simp add: edit_numbers_def)
qed

lemma c_line_command:
  "c_line (x # num_str 10 p @ CHR '' '' # num_str 10 c @ [CHR 0x0A]) = x # num_str 10 p @ CHR '' '' # num_str 10 c"
  if "x \<noteq> CHR 0x0A" "x \<noteq> CHR 0x00"
proof -
  let ?l = "x # num_str 10 p @ CHR '' '' # num_str 10 c"
  have "\<forall>c \<in> set ?l. c \<noteq> CHR 0x00 \<and> c \<noteq> CHR 0x0A"
    using that digits_clean [of 10] by (auto simp: needs_escape_def)
  from takeWhile_append_stop [of ?l "\<lambda>c. c \<noteq> CHR 0x00 \<and> c \<noteq> CHR 0x0A" "CHR 0x0A" "[]", OF this]
  show ?thesis by (simp add: c_line_def)
qed

lemma copy_lines_text:
  "copy_lines (\<lambda>l. Some (e l)) ed to ls =
     Some (to - ed \<le> int (length ls), min (max ed to) (ed + int (length ls)), drop (nat (to - ed)) ls,
       concat (map e (take (nat (to - ed)) ls)))"
proof (induction ls arbitrary: ed)
  case (Cons l ls)
  show ?case
  proof (cases "ed < to")
    case True
    then have "nat (to - ed) = Suc (nat (to - (ed + 1)))" by simp
    then show ?thesis using True Cons [of "ed + 1"] by (auto simp: min_def max_def)
  qed simp
qed auto

lemma copyln_text:
  "diff_copyln (\<lambda>l. Some (e l)) ed to ls =
     (if to - ed \<le> int (length ls)
      then Inr (max ed to, drop (nat (to - ed)) ls, concat (map e (take (nat (to - ed)) ls))) else Inl D_fail)"
  by (simp add: diff_copyln_def copy_lines_text min_def max_def)

lemma addlines_text:
  "diff_addlines (\<lambda>l. Some (e l)) comode (length ls) (map (stuff comode) ls @ rest) = Inr (rest, concat (map e ls))"
  by (induction ls) simp_all

lemma script_pos: "script_ok la ld n es \<Longrightarrow> 0 < n \<or> (\<forall>e \<in> set es. case e of Del p c \<Rightarrow> False | _ \<Rightarrow> True)"
  by (induction la ld n es rule: script_ok.induct) auto

text \<open>The loop on the text of a script, in step with the declarative meaning.\<close>

lemma loop_text:
  assumes "script_ok la ld (length orig) es" "ed \<le> length orig" "ed < la \<or> ed < ld \<or> ed = 0"
    and "lasta ec = int la" "lastd ec = int ld" "editline ec = int ed" "int (length orig) < LONG_MAX"
    and "\<And>ec rest. diff_loop (\<lambda>l. Some (e l)) comode ec False tail rest = Inr (final, False, rest, [])"
  shows "\<exists>k out. diff_loop (\<lambda>l. Some (e l)) comode ec False (concat (map (edit_lines comode) es) @ tail) (drop ed orig) =
      Inr (final, False, drop k orig, concat (map e out)) \<and> out @ drop k orig = patch_from la ed es orig"
  using assms(1-7)
proof (induction es arbitrary: la ld ed ec)
  case Nil
  have "diff_loop (\<lambda>l. Some (e l)) comode ec False tail (drop ed orig) =
      Inr (final, False, drop ed orig, concat (map e []))"
    using assms(8) by simp
  moreover have "[] @ drop ed orig = patch_from la ed [] orig" using patch_from_Nil Nil.prems(2) by simp
  ultimately show ?case by (intro exI [of _ ed] exI [of _ "[]"]) simp
next
  case (Cons c es)
  let ?W = "\<lambda>l. Some (e l)" and ?more = "concat (map (edit_lines comode) es) @ tail"
  note L = Cons.prems(7)
  show ?case
  proof (cases c)
    case (Add p ls)
    then have ok: "la \<le> p" "p \<le> length orig" "ls \<noteq> []" "int (length ls) \<le> LONG_MAX" "script_ok (p + 1) ld (length orig) es"
      using Cons.prems(1) by auto
    let ?cmd = "CHR ''a'' # num_str 10 p @ CHR '' '' # num_str 10 (length ls)"
    let ?ec = "ec\<lparr>ec_cmd := EC_ADD, ec_where := int p, ec_count := int (length ls), lasta := int p + 1\<rparr>"
    let ?ec2 = "?ec\<lparr>editline := int (max ed p)\<rparr>"
    have num: "edit_numbers (num_str 10 p @ CHR '' '' # num_str 10 (length ls)) = Some (int p, int (length ls))"
      using ok L by (intro edit_numbers_text) auto
    have cmd: "diff_geteditcmd ec ?cmd = Some ?ec"
      using num ok(1) Cons.prems(4) by (simp add: diff_geteditcmd_def Let_def)
    have inv: "max ed p < p + 1 \<or> max ed p < ld \<or> max ed p = 0"
      using Cons.prems(3) ok(1) by (auto simp: max_def)
    obtain k out where IH: "diff_loop ?W comode ?ec2 False ?more (drop (max ed p) orig) =
        Inr (final, False, drop k orig, concat (map e out))" "out @ drop k orig = patch_from (p + 1) (max ed p) es orig"
      using Cons.IH [of "p + 1" ld "max ed p" ?ec2, OF ok(5) _ inv _ _ _ L] Cons.prems(2,5) ok(2) by auto
    have cp: "diff_copyln ?W (int ed) (int p) (drop ed orig) =
        Inr (int (max ed p), drop (max ed p) orig, concat (map e (take (p - ed) (drop ed orig))))"
      using ok(2) Cons.prems(2) by (auto simp: copyln_text nat_diff_distrib' max_def of_nat_diff)
    have "diff_loop ?W comode ec False (concat (map (edit_lines comode) (c # es)) @ tail) (drop ed orig) =
        Inr (final, False, drop k orig, concat (map e (take (p - ed) (drop ed orig) @ ls @ out)))"
      using cmd cp IH(1) Cons.prems(6) addlines_text [of e comode ls ?more]
      by (subst diff_loop.simps) (simp add: Add c_line_command Let_def)
    moreover have "(take (p - ed) (drop ed orig) @ ls @ out) @ drop k orig = patch_from la ed (c # es) orig"
      using patch_from_Add [OF ok(5,1,2) Cons.prems(2)] IH(2) Add by simp
    ultimately show ?thesis by blast
  next
    case (Del p n)
    then have ok: "la \<le> p" "ld \<le> p" "1 \<le> p" "1 \<le> n" "p + n \<le> length orig + 1" "script_ok p (p + n) (length orig) es"
      using Cons.prems(1) by auto
    have ed: "ed < p" using Cons.prems(3) ok by auto
    let ?cmd = "CHR ''d'' # num_str 10 p @ CHR '' '' # num_str 10 n"
    let ?ec = "ec\<lparr>ec_cmd := EC_DEL, ec_where := int p, ec_count := int n, lasta := int p, lastd := int p + int n\<rparr>"
    let ?ec2 = "?ec\<lparr>editline := int (p - 1) + int n\<rparr>"
    have num: "edit_numbers (num_str 10 p @ CHR '' '' # num_str 10 n) = Some (int p, int n)"
      using ok L by (intro edit_numbers_text) auto
    have cmd: "diff_geteditcmd ec ?cmd = Some ?ec"
      using num ok(1,2) Cons.prems(4,5) by (simp add: diff_geteditcmd_def Let_def)
    have le: "p - 1 + n \<le> length orig" and le2: "\<not> length orig - (p - 1) < n" using ok(3-5) by linarith+
    obtain k out where IH: "diff_loop ?W comode ?ec2 False ?more (drop (p - 1 + n) orig) =
        Inr (final, False, drop k orig, concat (map e out))" "out @ drop k orig = patch_from p (p - 1 + n) es orig"
      using Cons.IH [of p "p + n" "p - 1 + n" ?ec2, OF ok(6) le _ _ _ _ L] ok(3) by auto
    have m: "max (int ed) (int p - 1) = int (p - 1)" "nat (int p - 1 - int ed) = p - 1 - ed"
      using ed by (auto simp: of_nat_diff)
    have cp: "diff_copyln ?W (int ed) (int p - 1) (drop ed orig) =
        Inr (int (p - 1), drop (p - 1) orig, concat (map e (take (p - 1 - ed) (drop ed orig))))"
      using ed ok(5,4) unfolding copyln_text m by (simp add: of_nat_diff)
    have "diff_loop ?W comode ec False (concat (map (edit_lines comode) (c # es)) @ tail) (drop ed orig) =
        Inr (final, False, drop k orig, concat (map e (take (p - 1 - ed) (drop ed orig) @ out)))"
      using cmd cp IH(1) Cons.prems(6) le2
      by (subst diff_loop.simps) (simp add: Del c_line_command Let_def add.commute)
    moreover have "(take (p - 1 - ed) (drop ed orig) @ out) @ drop k orig = patch_from la ed (c # es) orig"
      using patch_from_Del [OF ok(6) ed ok(5)] IH(2) Del by simp
    ultimately show ?thesis by blast
  qed
qed

lemma loop_end:
  "c_line t = tl1 \<Longrightarrow> tl1 = ''.'' \<or> tl1 = ''.+'' \<Longrightarrow> diff_loop w comode ec seen (t # junk) rest = Inr (Some tl1, seen, rest, [])"
  by (subst diff_loop.simps) (auto simp: Let_def)

text \<open>
  Claim C2. Applying a diff is correct: on the text of a script in order, with the lines of its add
  commands protected by a dot in checkout mode and ended by \<open>.\<close>, \<open>diff_apply\<close> writes exactly
  the lines of the patched file, each expanded, where the patch is defined line by line on
  the original; ended by \<open>.+\<close> the last byte is left out. Keyword expansion does not fail.
\<close>

theorem diff_apply_patches:
  assumes "script_ok 0 0 (length orig) es" and "int (length orig) < LONG_MAX"
    and "\<forall>l. expanded fmtdate k di l = Some (ex l)"
  shows "diff_apply (expanded fmtdate k di) comode (concat (map (edit_lines comode) es) @ [CHR ''.'', CHR 0x0A] # junk) orig =
      Inr (concat (map ex (patch es orig))) \<and>
    (concat (map ex (patch es orig)) \<noteq> [] \<longrightarrow>
     diff_apply (expanded fmtdate k di) True (concat (map (edit_lines True) es) @ [CHR ''.'', CHR ''+'', CHR 0x0A] # junk) orig =
      Inr (butlast (concat (map ex (patch es orig)))))"
proof -
  have w: "expanded fmtdate k di = (\<lambda>l. Some (ex l))" using assms(3) by auto
  have c: "c_line [CHR ''.'', CHR 0x0A] = ''.''" "c_line [CHR ''.'', CHR ''+'', CHR 0x0A] = ''.+''" by (simp_all add: c_line_def)
  have rest: "diff_copyln (\<lambda>l. Some (ex l)) 0 (int (length ls)) ls = Inr (int (length ls), [], concat (map ex ls))" for ls
    by (simp add: copyln_text)
  have z: "lasta editcmd_zero = int 0" "lastd editcmd_zero = int 0" "editline editcmd_zero = int 0"
    by (simp_all add: editcmd_zero_def)
  have *: "\<exists>k out. diff_loop (\<lambda>l. Some (ex l)) cm editcmd_zero False (concat (map (edit_lines cm) es) @ t # junk) orig =
      Inr (Some tl1, False, drop k orig, concat (map ex out)) \<and> out @ drop k orig = patch es orig"
    if "c_line t = tl1" "tl1 = ''.'' \<or> tl1 = ''.+''" for cm t tl1
    using loop_text [OF assms(1) _ _ z assms(2) loop_end [OF that], of ex cm junk] by (simp add: patch_start)
  from * [OF c(1), of comode] obtain k1 out1 where 1: "diff_loop (\<lambda>l. Some (ex l)) comode editcmd_zero False
      (concat (map (edit_lines comode) es) @ [CHR ''.'', CHR 0x0A] # junk) orig = Inr (Some ''.'', False, drop k1 orig, concat (map ex out1))"
    "out1 @ drop k1 orig = patch es orig" by blast
  from * [OF c(2), of True] obtain k2 out2 where 2: "diff_loop (\<lambda>l. Some (ex l)) True editcmd_zero False
      (concat (map (edit_lines True) es) @ [CHR ''.'', CHR ''+'', CHR 0x0A] # junk) orig = Inr (Some ''.+'', False, drop k2 orig, concat (map ex out2))"
    "out2 @ drop k2 orig = patch es orig" by blast
  show ?thesis
  proof
    show "diff_apply (expanded fmtdate k di) comode (concat (map (edit_lines comode) es) @ [CHR ''.'', CHR 0x0A] # junk) orig =
        Inr (concat (map ex (patch es orig)))"
      using 1(1) rest unfolding w 1(2) [symmetric] by (simp add: diff_apply_def)
    show "concat (map ex (patch es orig)) \<noteq> [] \<longrightarrow>
        diff_apply (expanded fmtdate k di) True (concat (map (edit_lines True) es) @ [CHR ''.'', CHR ''+'', CHR 0x0A] # junk) orig =
        Inr (butlast (concat (map ex (patch es orig))))"
      using 2(1) rest unfolding w 2(2) [symmetric] by (auto simp: diff_apply_def)
  qed
qed

theorem diff_apply_patches_witness:
  "let orig = [''one'', ''two'', ''three'']; es = [Add 0 [''zero''], Del 2 1, Add 2 [''.2'']];
       nop = (demo_di ''1.1'' EXPAND_OLD)
   in diff_apply (expanded (\<lambda>d. Some d) keyword_new nop) True (concat (map (edit_lines True) es) @ [CHR ''.'', CHR 0x0A] # []) orig =
      Inr ''zeroone.2three''"
proof -
  let ?orig = "[''one'', ''two'', ''three'']" and ?es = "[Add 0 [''zero''], Del 2 1, Add 2 [''.2'']]"
  have "\<forall>l. expanded (\<lambda>d. Some d) keyword_new (demo_di ''1.1'' EXPAND_OLD) l = Some (id l)"
    by (simp add: expanded_text demo_di_def)
  moreover have "concat (map id (patch ?es ?orig)) = ''zeroone.2three''"
    by (simp add: patch_def line_after_def added_def deleted_def upt_conv_Cons)
  ultimately show ?thesis
    using diff_apply_patches [of ?orig ?es "\<lambda>d. Some d" keyword_new "demo_di ''1.1'' EXPAND_OLD" id True "[]"]
    by (simp add: Let_def LONG_MAX_def)
qed

end
