(* ===== verification/Reverse.thy ===== *)
theory Reverse
  imports Diff
begin

text \<open>
  Reversing a diff, \<open>diff_reverse\<close> of \<open>diff.c\<close>: from the diff of two revisions and the older one it
  writes the diff that leads back. The streams are lists of lines as in Diff. The additions of
  \<open>long\<close> line numbers are those of the integers (the C program is undefined where they would
  overflow); \<open>offset\<close> is a 32 bit \<open>int\<close> and wraps.
\<close>

section \<open>The sorted list of commands\<close>

record revcmd = editcmd +
  ec_key :: int
  ec_havetext :: bool
  ec_offset :: int

definition MAXKEY :: int where "MAXKEY = LONG_MAX"

definition to_int :: "int \<Rightarrow> int" where
  "to_int i = sint (word_of_int i :: 32 word)"

lemma to_int_id: "- (2 ^ 31) \<le> i \<Longrightarrow> i < 2 ^ 31 \<Longrightarrow> to_int i = i"
  unfolding to_int_def by transfer (simp add: signed_take_bit_int_eq_self)

fun diff_insert_edit :: "revcmd list \<Rightarrow> revcmd \<Rightarrow> revcmd list" where
  "diff_insert_edit [] ec = [ec]"
| "diff_insert_edit (cur # l) ec = (if ec_key ec < ec_key cur then ec # cur # l else cur # diff_insert_edit l ec)"

definition insert_opt :: "revcmd list \<Rightarrow> revcmd option \<Rightarrow> revcmd list" where
  "insert_opt l ec = (case ec of None \<Rightarrow> l | Some e \<Rightarrow> diff_insert_edit l e)"

text \<open>The list, the delete command that is waiting for its add, and the offset.\<close>

record revst =
  rlist :: "revcmd list"
  rdel :: "revcmd option"
  roffset :: int

definition reverse_add :: "editcmd \<Rightarrow> revst \<Rightarrow> revst" where
  "reverse_add ec st =
     (let k = ec_where ec + ec_count ec - roffset st;
          add = editcmd.extend ec \<lparr>ec_key = k, ec_havetext = True, ec_offset = roffset st\<rparr>
      in (case rdel st of
            None \<Rightarrow> st\<lparr>rlist := diff_insert_edit (rlist st) add\<rparr>
          | Some d \<Rightarrow>
              if ec_key d = k - ec_count ec
              then st\<lparr>rlist := diff_insert_edit (rlist st) (d\<lparr>ec_key := k, ec_havetext := True, ec_count := ec_count ec\<rparr>),
                      rdel := None\<rparr>
              else st\<lparr>rlist := diff_insert_edit (diff_insert_edit (rlist st) d) add, rdel := None\<rparr>)
         \<lparr>roffset := to_int (roffset st - ec_count ec)\<rparr>)"

definition reverse_del :: "editcmd \<Rightarrow> revst \<Rightarrow> revst" where
  "reverse_del ec st =
     \<lparr>rlist = insert_opt (rlist st) (rdel st),
      rdel = Some (editcmd.extend (ec\<lparr>ec_count := 0\<rparr>)
        \<lparr>ec_key = ec_where ec - 1 - roffset st, ec_havetext = False, ec_offset = roffset st\<rparr>),
      roffset = to_int (roffset st + ec_count ec)\<rparr>"

text \<open>
  The loop over the diff. It ends at the first line that is no command; a diff that ends within
  the lines of an add command is an error (\<open>None\<close>).
\<close>

function reverse_loop :: "editcmd \<Rightarrow> revst \<Rightarrow> string list \<Rightarrow> revst option" where
  "reverse_loop ec st rd =
     (case rd of
        [] \<Rightarrow> Some st
      | raw # rd1 \<Rightarrow>
          (case diff_geteditcmd ec (c_line raw) of
             None \<Rightarrow> Some st
           | Some ec1 \<Rightarrow>
               if ec_cmd ec1 = EC_ADD
               then if length rd1 < nat (ec_count ec1) then None
                    else reverse_loop ec1 (reverse_add ec1 st) (drop (nat (ec_count ec1)) rd1)
               else reverse_loop ec1 (reverse_del ec1 st) rd1))"
  by pat_completeness auto
termination
  by (relation "measure (\<lambda>(ec, st, rd). length rd)") auto

declare reverse_loop.simps [simp del]

section \<open>Writing the reversed diff\<close>

text \<open>\<open>diff_ignoreln\<close>, whose result is not looked at: the line number reached and the lines left.\<close>

fun diff_ignoreln :: "int \<Rightarrow> int \<Rightarrow> string list \<Rightarrow> int \<times> string list" where
  "diff_ignoreln ed to [] = (ed, [])"
| "diff_ignoreln ed to (l # ls) = (if ed < to then diff_ignoreln (ed + 1) to ls else (ed, l # ls))"

definition edit_text :: "char \<Rightarrow> int \<Rightarrow> int \<Rightarrow> string" where
  "edit_text c a b = c # int_str a @ CHR '' '' # int_str b @ [CHR 0x0A]"

fun diff_write_reverse :: "(string \<Rightarrow> string option) \<Rightarrow> int \<Rightarrow> revcmd list \<Rightarrow> string list \<Rightarrow> string option" where
  "diff_write_reverse w ed (ec # nxt # l) orig =
     (let num_deleted = (if ec_havetext ec then ec_count ec else 0);
          num_added = num_deleted + ec_offset nxt - ec_offset ec;
          del = (if 0 < num_deleted then edit_text CHR ''d'' (ec_key ec - num_deleted + 1) num_deleted else [])
      in if 0 < num_added
         then let startline = ec_key ec - num_deleted + 1 + ec_offset ec;
                  endline = startline + num_added - 1;
                  (ed1, orig1) = diff_ignoreln ed (startline - 1) orig
              in (case copy_lines w ed1 endline orig1 of
                    None \<Rightarrow> None
                  | Some (ok, ed2, orig2, out) \<Rightarrow>
                      map_option (\<lambda>t. del @ edit_text CHR ''a'' (ec_key ec) num_added @ out @ t)
                        (diff_write_reverse w ed2 (nxt # l) orig2))
         else map_option (\<lambda>t. del @ t) (diff_write_reverse w ed (nxt # l) orig))"
| "diff_write_reverse w ed l orig = Some []"

definition diff_reverse :: "(string \<Rightarrow> string option) \<Rightarrow> string list \<Rightarrow> string list \<Rightarrow> derr + string" where
  "diff_reverse w rd orig =
     (case reverse_loop editcmd_zero \<lparr>rlist = [], rdel = None, roffset = 0\<rparr> rd of
        None \<Rightarrow> Inl D_fail
      | Some st \<Rightarrow>
          (let last = editcmd.extend editcmd_zero \<lparr>ec_key = MAXKEY, ec_havetext = False, ec_offset = roffset st\<rparr>;
               l = diff_insert_edit (insert_opt (rlist st) (rdel st)) last
           in (case diff_write_reverse w 0 l orig of None \<Rightarrow> Inl D_exit | Some t \<Rightarrow> Inr t)))"

section \<open>Diffs as hunks\<close>

text \<open>
  A diff between two files is a sequence of hunks \<open>(p, c, ls)\<close>: the \<open>c\<close> lines behind line \<open>p\<close> are
  replaced by \<open>ls\<close>, with an unchanged line between two hunks. \<open>q\<close> and \<open>r\<close> are the positions
  reached in the old and in the new file.
\<close>

type_synonym hunk = "nat \<times> nat \<times> string list"

fun hunks_ok :: "nat \<Rightarrow> nat \<Rightarrow> hunk list \<Rightarrow> bool" where
  "hunks_ok lo n [] \<longleftrightarrow> True"
| "hunks_ok lo n ((p, c, ls) # hs) \<longleftrightarrow>
     lo \<le> p \<and> p + c \<le> n \<and> (0 < c \<or> ls \<noteq> []) \<and> int (length ls) \<le> LONG_MAX \<and> hunks_ok (p + c + 1) n hs"

fun hunk_edits :: "hunk \<Rightarrow> edit list" where
  "hunk_edits (p, c, ls) = (if 0 < c then [Del (p + 1) c] else []) @ (if ls \<noteq> [] then [Add (p + c) ls] else [])"

definition hunks_edits :: "hunk list \<Rightarrow> edit list" where
  "hunks_edits hs = concat (map hunk_edits hs)"

fun hunks_patch :: "nat \<Rightarrow> hunk list \<Rightarrow> string list \<Rightarrow> string list" where
  "hunks_patch q [] orig = drop q orig"
| "hunks_patch q ((p, c, ls) # hs) orig = take (p - q) (drop q orig) @ ls @ hunks_patch (p + c) hs orig"

fun hunks_reverse :: "nat \<Rightarrow> nat \<Rightarrow> string list \<Rightarrow> hunk list \<Rightarrow> hunk list" where
  "hunks_reverse q r orig [] = []"
| "hunks_reverse q r orig ((p, c, ls) # hs) =
     (r + (p - q), length ls, take c (drop p orig)) # hunks_reverse (p + c) (r + (p - q) + length ls) orig hs"

lemma hunks_edits_simps [simp]:
  "hunks_edits [] = []" "hunks_edits (h # hs) = hunk_edits h @ hunks_edits hs"
  by (simp_all add: hunks_edits_def)

lemma hunks_script_ok: "hunks_ok lo n hs \<Longrightarrow> la \<le> lo \<Longrightarrow> ld \<le> lo \<Longrightarrow> script_ok la ld n (hunks_edits hs)"
proof (induction hs arbitrary: lo la ld)
  case (Cons h hs)
  obtain p c ls where h: "h = (p, c, ls)" by (cases h)
  show ?case using Cons.prems Cons.IH [of "p + c + 1"] by (auto simp: h)
qed simp

lemma hunks_patch_from:
  "hunks_ok lo (length orig) hs \<Longrightarrow> q \<le> lo \<Longrightarrow> q \<le> length orig \<Longrightarrow> la \<le> lo \<Longrightarrow>
   patch_from la q (hunks_edits hs) orig = hunks_patch q hs orig"
proof (induction hs arbitrary: lo la q)
  case Nil
  then show ?case by (simp add: patch_from_Nil)
next
  case (Cons h hs)
  obtain p c ls where h: "h = (p, c, ls)" by (cases h)
  have ok: "hunks_ok (p + c + 1) (length orig) hs" "p + c \<le> length orig" "lo \<le> p" "0 < c \<or> ls \<noteq> []"
      "int (length ls) \<le> LONG_MAX"
    using Cons.prems by (auto simp: h)
  have IH: "patch_from la (p + c) (hunks_edits hs) orig = hunks_patch (p + c) hs orig" if "la \<le> p + c + 1" for la
    using Cons.IH [of "p + c + 1", OF ok(1)] ok(2) that by simp
  have add: "patch_from la (p + c) (Add (p + c) ls # hunks_edits hs) orig = ls @ hunks_patch (p + c) hs orig" if "la \<le> p + c" for la
    using patch_from_Add [of "p + c" 0 orig "hunks_edits hs" la "p + c" ls] hunks_script_ok [OF ok(1)] ok(2) IH [of "p + c + 1"] that
    by simp
  show ?case
  proof (cases "0 < c")
    case True
    let ?rest = "(if ls \<noteq> [] then [Add (p + c) ls] else []) @ hunks_edits hs"
    have s: "script_ok (p + 1) (p + 1 + c) (length orig) ?rest"
      using hunks_script_ok [OF ok(1)] ok(2,5) True by auto
    have "patch_from la q (Del (p + 1) c # ?rest) orig =
        take (p - q) (drop q orig) @ patch_from (p + 1) (p + c) ?rest orig"
      using patch_from_Del [OF s, of q la] Cons.prems(2) ok by simp
    then show ?thesis using True IH [of "p + 1"] add [of "p + 1"] by (simp add: h)
  next
    case False
    then have c: "c = 0" and l: "ls \<noteq> []" using ok(4) by auto
    have "patch_from la q (Add p ls # hunks_edits hs) orig =
        take (p - q) (drop q orig) @ ls @ patch_from (p + 1) (max q p) (hunks_edits hs) orig"
      using patch_from_Add [of p 0 orig "hunks_edits hs" la q ls] hunks_script_ok [OF ok(1)] ok Cons.prems c by simp
    moreover have "max q p = p + c" using c Cons.prems(2) ok(3) by simp
    ultimately show ?thesis using c l IH [of "p + 1"] by (simp add: h)
  qed
qed

corollary hunks_patch: "hunks_ok 0 (length orig) hs \<Longrightarrow> patch (hunks_edits hs) orig = hunks_patch 0 hs orig"
  using hunks_patch_from [of 0 orig hs 0 0] by (simp add: patch_start)


section \<open>The list built from the text of hunks\<close>

text \<open>What \<open>diff_write_reverse\<close> uses of a command: its key, its offset and the lines to delete.\<close>

definition view :: "revcmd \<Rightarrow> int \<times> int \<times> int" where
  "view e = (ec_key e, ec_offset e, if ec_havetext e then ec_count e else 0)"

fun hunk_entries :: "nat \<Rightarrow> nat \<Rightarrow> hunk list \<Rightarrow> (int \<times> int \<times> int) list" where
  "hunk_entries q r [] = []"
| "hunk_entries q r ((p, c, ls) # hs) =
     (int (r + (p - q) + length ls), int q - int r, int (length ls)) # hunk_entries (p + c) (r + (p - q) + length ls) hs"

definition all_cmds :: "revst \<Rightarrow> revcmd list" where
  "all_cmds st = rlist st @ (case rdel st of None \<Rightarrow> [] | Some d \<Rightarrow> [d])"

lemma all_cmds_simps [simp]:
  "all_cmds \<lparr>rlist = l, rdel = None, roffset = i\<rparr> = l" "all_cmds \<lparr>rlist = l, rdel = Some d, roffset = i\<rparr> = l @ [d]"
  by (simp_all add: all_cmds_def)

lemma insert_last: "\<forall>e \<in> set l. ec_key e \<le> ec_key x \<Longrightarrow> diff_insert_edit l x = l @ [x]"
  by (induction l) auto

lemma insert_pending: "sorted (map ec_key (all_cmds st)) \<Longrightarrow> insert_opt (rlist st) (rdel st) = all_cmds st"
  by (auto simp: insert_opt_def all_cmds_def insert_last sorted_append split: option.splits)

lemma reverse_add_new:
  assumes "sorted (map ec_key (all_cmds st))"
    and "\<And>e. e \<in> set (all_cmds st) \<Longrightarrow> ec_key e \<le> ec_where ec + ec_count ec - roffset st"
    and "\<And>d. rdel st = Some d \<Longrightarrow> ec_key d \<noteq> ec_where ec - roffset st"
  shows "reverse_add ec st = \<lparr>rlist = all_cmds st @ [editcmd.extend ec
      \<lparr>ec_key = ec_where ec + ec_count ec - roffset st, ec_havetext = True, ec_offset = roffset st\<rparr>],
    rdel = None, roffset = to_int (roffset st - ec_count ec)\<rparr>"
proof -
  let ?add = "editcmd.extend ec \<lparr>ec_key = ec_where ec + ec_count ec - roffset st, ec_havetext = True, ec_offset = roffset st\<rparr>"
  have l: "diff_insert_edit (all_cmds st) ?add = all_cmds st @ [?add]"
    using assms(2) by (intro insert_last) (simp add: editcmd.defs)
  show ?thesis
  proof (cases "rdel st")
    case None
    then show ?thesis using l by (cases st) (simp add: reverse_add_def all_cmds_def Let_def)
  next
    case (Some d)
    have "diff_insert_edit (rlist st) d = all_cmds st" using insert_pending [OF assms(1)] Some by (simp add: insert_opt_def)
    then show ?thesis using Some assms(3) [OF Some] l by (cases st) (simp add: reverse_add_def Let_def)
  qed
qed

lemma reverse_add_merge:
  assumes "rdel st = Some d" "ec_key d = ec_where ec - roffset st" "\<forall>e \<in> set (rlist st). ec_key e \<le> ec_key d" "0 \<le> ec_count ec"
  shows "reverse_add ec st = \<lparr>rlist = rlist st @ [d\<lparr>ec_key := ec_where ec + ec_count ec - roffset st, ec_havetext := True, ec_count := ec_count ec\<rparr>],
    rdel = None, roffset = to_int (roffset st - ec_count ec)\<rparr>"
  using assms by (cases st) (fastforce simp: reverse_add_def Let_def intro!: insert_last)

lemma geteditcmd_text:
  assumes "int p \<le> LONG_MAX" "int n \<le> LONG_MAX" "0 < n" "lasta ec \<le> int p"
  shows "diff_geteditcmd ec (CHR ''a'' # num_str 10 p @ CHR '' '' # num_str 10 n) =
      Some (ec\<lparr>ec_cmd := EC_ADD, ec_where := int p, ec_count := int n, lasta := int p + 1\<rparr>)"
    and "lastd ec \<le> int p \<Longrightarrow> diff_geteditcmd ec (CHR ''d'' # num_str 10 p @ CHR '' '' # num_str 10 n) =
      Some (ec\<lparr>ec_cmd := EC_DEL, ec_where := int p, ec_count := int n, lasta := int p, lastd := int p + int n\<rparr>)"
  using assms edit_numbers_text [OF assms(1-3)] by (simp_all add: diff_geteditcmd_def Let_def)

lemma reverse_loop_Add:
  assumes "int p \<le> LONG_MAX" "int (length ls) \<le> LONG_MAX" "ls \<noteq> []" "lasta ec \<le> int p"
  shows "reverse_loop ec st (edit_lines cm (Add p ls) @ rd) =
    (let ec1 = ec\<lparr>ec_cmd := EC_ADD, ec_where := int p, ec_count := int (length ls), lasta := int p + 1\<rparr>
     in reverse_loop ec1 (reverse_add ec1 st) rd)"
  using geteditcmd_text(1) [of p "length ls" ec] assms
  by (subst reverse_loop.simps) (simp add: c_line_command Let_def)

lemma reverse_loop_Del:
  assumes "int p \<le> LONG_MAX" "int c \<le> LONG_MAX" "0 < c" "lasta ec \<le> int p" "lastd ec \<le> int p"
  shows "reverse_loop ec st (edit_lines cm (Del p c) @ rd) =
    (let ec1 = ec\<lparr>ec_cmd := EC_DEL, ec_where := int p, ec_count := int c, lasta := int p, lastd := int p + int c\<rparr>
     in reverse_loop ec1 (reverse_del ec1 st) rd)"
  using geteditcmd_text(2) [of p c ec] assms
  by (subst reverse_loop.simps) (simp add: c_line_command Let_def)

text \<open>The state between two hunks, at line \<open>q\<close> of the old and \<open>r\<close> of the new file.\<close>

definition between :: "editcmd \<Rightarrow> revst \<Rightarrow> nat \<Rightarrow> nat \<Rightarrow> nat \<Rightarrow> bool" where
  "between ec st lo q r \<longleftrightarrow>
     lasta ec \<le> int lo \<and> lastd ec \<le> int lo \<and> roffset st = int q - int r \<and> q \<le> lo \<and> (rdel st \<noteq> None \<longrightarrow> q < lo) \<and>
     sorted (map ec_key (all_cmds st)) \<and> (\<forall>e \<in> set (all_cmds st). ec_key e \<le> int r)"

lemma betweenI:
  assumes "lasta ec \<le> int lo" "lastd ec \<le> int lo" "roffset st = int q - int r" "q < lo"
    and "sorted (map ec_key l)" "\<And>e. e \<in> set l \<Longrightarrow> ec_key e \<le> ec_key x" "ec_key x \<le> int r" "all_cmds st = l @ [x]"
  shows "between ec st lo q r"
  using assms by (fastforce simp: between_def sorted_append)

lemma reverse_loop_hunk:
  assumes b: "between ec st lo q r" and ok: "hunks_ok lo n ((p, c, ls) # hs)"
    and n: "n < 2 ^ 31" "r + (p - q) + length ls < 2 ^ 31"
  defines "r' \<equiv> r + (p - q) + length ls"
  shows "\<exists>ec' st'. reverse_loop ec st (concat (map (edit_lines cm) (hunk_edits (p, c, ls))) @ rd) = reverse_loop ec' st' rd \<and>
    between ec' st' (p + c + 1) (p + c) r' \<and>
    map view (all_cmds st') = map view (all_cmds st) @ [(int r', int q - int r, int (length ls))]"
proof -
  have p: "lo \<le> p" "p + c \<le> n" "0 < c \<or> ls \<noteq> []" "q \<le> lo" "q \<le> p"
    using ok b by (auto simp: between_def)
  have L: "int (p + c + 1) \<le> LONG_MAX" "int (length ls) \<le> LONG_MAX" using n p(2) by (simp_all add: LONG_MAX_def)
  have s: "sorted (map ec_key (all_cmds st))" and k: "\<And>e. e \<in> set (all_cmds st) \<Longrightarrow> ec_key e \<le> int r"
    and off: "roffset st = int q - int r" and la: "lasta ec \<le> int p" "lastd ec \<le> int p"
    using b p(1) by (auto simp: between_def)
  let ?o = "int (p + c) - int r'"
  have o: "int q - int r + int c - int (length ls) = ?o" using p by (simp add: r'_def)
  have range: "to_int (int q - int r + int c) = int q - int r + int c" "to_int ?o = ?o"
    using n p by (auto simp: r'_def intro!: to_int_id)
  have kd: "ec_key e \<le> int p - (int q - int r)" if "e \<in> set (all_cmds st)" for e
    using k [OF that] p by simp
  have kl: "ec_key e \<le> int p + int (length ls) - (int q - int r)" if "e \<in> set (all_cmds st)" for e
    using kd [OF that] by simp
  show ?thesis
  proof (cases "c = 0")
    case True
    then have ls: "ls \<noteq> []" using p(3) by simp
    let ?ec = "ec\<lparr>ec_cmd := EC_ADD, ec_where := int p, ec_count := int (length ls), lasta := int p + 1\<rparr>"
    let ?e = "editcmd.extend ?ec \<lparr>ec_key = int p + int (length ls) - (int q - int r), ec_havetext = True, ec_offset = int q - int r\<rparr>"
    let ?st = "\<lparr>rlist = all_cmds st @ [?e], rdel = None, roffset = ?o\<rparr>"
    have "ec_key d \<noteq> int p - (int q - int r)" if "rdel st = Some d" for d
      using k [of d] b p that by (auto simp: between_def all_cmds_def)
    moreover have "ec_key e \<le> int p + int (length ls) - (int q - int r)" if "e \<in> set (all_cmds st)" for e
      using k [OF that] p by simp
    ultimately have "reverse_add ?ec st = ?st"
      using reverse_add_new [OF s, of ?ec] range(2) True o by (simp add: off)
    then have "reverse_loop ec st (concat (map (edit_lines cm) (hunk_edits (p, c, ls))) @ rd) = reverse_loop ?ec ?st rd"
      using reverse_loop_Add [of p ls ec st cm rd] L la ls True by (simp add: Let_def)
    moreover have "between ?ec ?st (p + c + 1) (p + c) r'"
        using kd kl p s la(2) by (intro betweenI [where l = "all_cmds st" and x = "?e"]) (auto simp: editcmd.defs r'_def)
    moreover have "view ?e = (int r', int q - int r, int (length ls))"
      using p by (simp add: view_def editcmd.defs r'_def)
    ultimately show ?thesis by (intro exI [of _ ?ec] exI [of _ ?st]) simp
  next
    case False
    let ?ec1 = "ec\<lparr>ec_cmd := EC_DEL, ec_where := int (p + 1), ec_count := int c, lasta := int (p + 1), lastd := int (p + 1) + int c\<rparr>"
    let ?d = "editcmd.extend (?ec1\<lparr>ec_count := 0\<rparr>) \<lparr>ec_key = int p - (int q - int r), ec_havetext = False, ec_offset = int q - int r\<rparr>"
    let ?st1 = "\<lparr>rlist = all_cmds st, rdel = Some ?d, roffset = int q - int r + int c\<rparr>"
    let ?more = "concat (map (edit_lines cm) (if ls \<noteq> [] then [Add (p + c) ls] else [])) @ rd"
    have d: "reverse_del ?ec1 st = ?st1" using insert_pending [OF s] range(1) by (simp add: reverse_del_def off)
    have 1: "reverse_loop ec st (concat (map (edit_lines cm) (hunk_edits (p, c, ls))) @ rd) = reverse_loop ?ec1 ?st1 ?more"
      using reverse_loop_Del [of "p + 1" c ec st cm ?more] L la False d by (simp add: Let_def)
    show ?thesis
    proof (cases "ls = []")
      case True
      have "between ?ec1 ?st1 (p + c + 1) (p + c) r'"
        using True kd kl p s la(2) by (intro betweenI [where l = "all_cmds st" and x = "?d"]) (auto simp: editcmd.defs r'_def)
      moreover have "view ?d = (int r', int q - int r, int (length ls))"
        using p True by (simp add: view_def editcmd.defs r'_def)
      ultimately show ?thesis using 1 True by (intro exI [of _ ?ec1] exI [of _ ?st1]) simp
    next
      case ls: False
      let ?ec2 = "?ec1\<lparr>ec_cmd := EC_ADD, ec_where := int (p + c), ec_count := int (length ls), lasta := int (p + c) + 1\<rparr>"
      let ?m = "?d\<lparr>ec_key := int (p + c) + int (length ls) - (int q - int r + int c), ec_havetext := True, ec_count := int (length ls)\<rparr>"
      let ?st2 = "\<lparr>rlist = all_cmds st @ [?m], rdel = None, roffset = ?o\<rparr>"
      have "reverse_add ?ec2 ?st1 = ?st2"
        using reverse_add_merge [of ?st1 ?d ?ec2] kd range(2) o by (simp add: editcmd.defs)
      then have "reverse_loop ?ec1 ?st1 ?more = reverse_loop ?ec2 ?st2 rd"
        using reverse_loop_Add [of "p + c" ls ?ec1 ?st1 cm rd] L la ls False by (simp add: Let_def)
      moreover have "between ?ec2 ?st2 (p + c + 1) (p + c) r'"
        using p s la(2) by (intro betweenI [where l = "all_cmds st" and x = "?m"]) (auto simp: editcmd.defs r'_def dest: kl)
      moreover have "view ?m = (int r', int q - int r, int (length ls))"
        using p by (simp add: view_def editcmd.defs r'_def)
      ultimately show ?thesis using 1 by (intro exI [of _ ?ec2] exI [of _ ?st2]) simp
    qed
  qed
qed


fun hunks_end :: "nat \<Rightarrow> nat \<Rightarrow> hunk list \<Rightarrow> nat \<times> nat" where
  "hunks_end q r [] = (q, r)"
| "hunks_end q r ((p, c, ls) # hs) = hunks_end (p + c) (r + (p - q) + length ls) hs"

lemma reverse_loop_hunks:
  assumes "between ec st lo q r" "hunks_ok lo (length orig) hs" "length orig < 2 ^ 31" "q \<le> length orig"
    and "r + length (hunks_patch q hs orig) < 2 ^ 31" "\<And>ec st. reverse_loop ec st tail = Some st"
  shows "\<exists>ec' st' lo'. reverse_loop ec st (concat (map (edit_lines cm) (hunks_edits hs)) @ tail) = Some st' \<and>
    map view (all_cmds st') = map view (all_cmds st) @ hunk_entries q r hs \<and>
    between ec' st' lo' (fst (hunks_end q r hs)) (snd (hunks_end q r hs))"
  using assms(1-5)
proof (induction hs arbitrary: ec st lo q r)
  case Nil
  then show ?case using assms(6) by (intro exI [of _ ec] exI [of _ st] exI [of _ lo]) simp
next
  case (Cons h hs)
  obtain p c ls where h: "h = (p, c, ls)" by (cases h)
  let ?r = "r + (p - q) + length ls" and ?rest = "concat (map (edit_lines cm) (hunks_edits hs)) @ tail"
  have p: "p + c \<le> length orig" "hunks_ok (p + c + 1) (length orig) hs" and q: "q \<le> p"
    using Cons.prems(1,2) by (auto simp: h between_def)
  have r: "?r + length (hunks_patch (p + c) hs orig) < 2 ^ 31"
    using Cons.prems(5) p q by (simp add: h)
  then have "?r < 2 ^ 31" by simp
  from reverse_loop_hunk [OF Cons.prems(1) Cons.prems(2) [unfolded h] Cons.prems(3) this, of cm ?rest]
  obtain ec1 st1 where 1: "reverse_loop ec st (concat (map (edit_lines cm) (hunk_edits (p, c, ls))) @ ?rest) = reverse_loop ec1 st1 ?rest"
    "between ec1 st1 (p + c + 1) (p + c) ?r"
    "map view (all_cmds st1) = map view (all_cmds st) @ [(int ?r, int q - int r, int (length ls))]" by blast
  from Cons.IH [OF 1(2) p(2) Cons.prems(3) p(1) r] 1(1,3) show ?case by (simp add: h)
qed

section \<open>The text written for the list\<close>

lemma ignoreln_text:
  "to - ed \<le> int (length ls) \<Longrightarrow> diff_ignoreln ed to ls = (max ed to, drop (nat (to - ed)) ls)"
proof (induction ls arbitrary: ed)
  case (Cons l ls)
  then show ?case
  proof (cases "ed < to")
    case True
    then have "nat (to - ed) = Suc (nat (to - (ed + 1)))" by simp
    then show ?thesis using True Cons by (simp add: max_def)
  qed simp
qed simp

lemma edit_text_lines:
  "edit_text CHR ''d'' (int a) (int b) = concat (edit_lines False (Del a b))"
  "edit_text CHR ''a'' (int a) (int (length ls)) @ concat ls = concat (edit_lines False (Add a ls))"
  by (simp_all add: edit_text_def int_str_def stuff_def [abs_def])

lemma hunk_entries_hd:
  "\<exists>k z l. hunk_entries q r hs @ [(m, int (fst (hunks_end q r hs)) - int (snd (hunks_end q r hs)), 0)] = (k, int q - int r, z) # l"
proof (cases hs)
  case (Cons h hs')
  then show ?thesis by (cases h) simp
qed simp

lemma write_delete:
  assumes "view e = (k, off, d)" "d + ec_offset nxt - off = 0"
  shows "diff_write_reverse w ed (e # nxt # l) orig =
    map_option (\<lambda>t. (if 0 < d then edit_text CHR ''d'' (k - d + 1) d else []) @ t) (diff_write_reverse w ed (nxt # l) orig)"
proof -
  have "(@) ([] :: string) = (\<lambda>t. t)" by auto
  then show ?thesis using assms by (auto simp: view_def Let_def)
qed

lemma write_replace:
  assumes "view e = (k, off, d)" "d + ec_offset nxt - off = n" "0 < n"
    and "diff_ignoreln ed (k - d + off) orig = (ed1, orig1)"
    and "copy_lines w ed1 (k - d + off + n) orig1 = Some (ok, ed2, orig2, out)"
  shows "diff_write_reverse w ed (e # nxt # l) orig =
    map_option (\<lambda>t. (if 0 < d then edit_text CHR ''d'' (k - d + 1) d else []) @ edit_text CHR ''a'' k n @ out @ t)
      (diff_write_reverse w ed2 (nxt # l) orig2)"
proof -
  have "k - d + 1 + off - 1 = k - d + off" "k - d + 1 + off + n - 1 = k - d + off + n" by simp_all
  then show ?thesis using assms by (auto simp: view_def Let_def algebra_simps)
qed

lemma write_reverse_hunks:
  assumes "map view es = hunk_entries q r hs @ [(m, int (fst (hunks_end q r hs)) - int (snd (hunks_end q r hs)), 0)]"
    and "hunks_ok lo (length orig) hs" "ed \<le> q" "q \<le> lo"
  shows "diff_write_reverse (\<lambda>l. Some l) (int ed) es (drop ed orig) =
    Some (concat (concat (map (edit_lines False) (hunks_edits (hunks_reverse q r orig hs)))))"
  using assms
proof (induction hs arbitrary: es q r ed lo)
  case Nil
  then obtain e where "es = [e]" by auto
  then show ?case by simp
next
  case (Cons h hs)
  obtain p c ls where h: "h = (p, c, ls)" by (cases h)
  let ?r = "r + (p - q) + length ls"
  let ?out = "concat (concat (map (edit_lines False) (hunks_edits (hunks_reverse (p + c) ?r orig hs))))"
  have ok: "q \<le> p" "p + c \<le> length orig" "hunks_ok (p + c + 1) (length orig) hs" using Cons.prems by (auto simp: h)
  obtain e es' where es: "es = e # es'"
    and e: "view e = (int ?r, int q - int r, int (length ls))"
    and es': "map view es' = hunk_entries (p + c) ?r hs @
      [(m, int (fst (hunks_end (p + c) ?r hs)) - int (snd (hunks_end (p + c) ?r hs)), 0)]"
    using Cons.prems(1) by (auto simp: h)
  obtain nxt l where nxt: "es' = nxt # l" "ec_offset nxt = int (p + c) - int ?r"
    using hunk_entries_hd [of "p + c" ?r hs m] es' by (cases es') (auto simp: view_def)
  have IH: "diff_write_reverse (\<lambda>l. Some l) (int ed') (nxt # l) (drop ed' orig) = Some ?out" if "ed' \<le> p + c" for ed'
    using Cons.IH [OF es' ok(3) that] nxt(1) by simp
  have na: "int (length ls) + ec_offset nxt - (int q - int r) = int c" using ok(1) by (simp add: nxt(2))
  have st: "int ?r - int (length ls) + 1 = int (r + (p - q) + 1)" "int ?r - int (length ls) + (int q - int r) = int p"
    using ok(1) by simp_all
  have del: "(if 0 < int (length ls) then edit_text CHR ''d'' (int (r + (p - q) + 1)) (int (length ls)) else []) =
      concat (concat (map (edit_lines False) (if 0 < length ls then [Del (r + (p - q) + 1) (length ls)] else [])))"
    using edit_text_lines(1) [of "r + (p - q) + 1" "length ls"] by (simp del: of_nat_add)
  show ?case
  proof (cases "c = 0")
    case True
    have "int (length ls) + ec_offset nxt - (int q - int r) = 0" using na True by simp
    from write_delete [OF e this, of "\<lambda>l. Some l" "int ed" l "drop ed orig"]
    show ?thesis using IH [of ed] Cons.prems(3) ok(1) True
      unfolding es nxt(1) h st del by (simp del: edit_lines.simps diff_write_reverse.simps)
  next
    case False
    let ?ls = "take c (drop p orig)"
    have pe: "nat (int p - int ed) = p - ed" by simp
    have ig: "diff_ignoreln (int ed) (int ?r - int (length ls) + (int q - int r)) (drop ed orig) = (int p, drop p orig)"
      using ignoreln_text [of "int p" "int ed" "drop ed orig"] Cons.prems(3) ok pe unfolding st
      by (simp add: max_def)
    have cp: "copy_lines (\<lambda>l. Some l) (int p) (int ?r - int (length ls) + (int q - int r) + int c) (drop p orig) =
        Some (True, int (p + c), drop (p + c) orig, concat ?ls)"
      using ok(2) copy_lines_text [of id "int p" "int p + int c" "drop p orig"] unfolding st by (simp add: add.commute min_def)
    have l: "length ?ls = c" "?ls \<noteq> []" using ok(2) False by auto
    have add: "edit_text CHR ''a'' (int ?r) (int c) @ concat ?ls @ t = concat (edit_lines False (Add ?r ?ls)) @ t" for t
      using edit_text_lines(2) [of ?r ?ls] unfolding l(1) by (metis append.assoc)
    have "0 < int c" using False by simp
    from write_replace [OF e na this ig cp, of l]
    have "diff_write_reverse (\<lambda>l. Some l) (int ed) es (drop ed orig) =
        Some (concat (concat (map (edit_lines False) (if 0 < length ls then [Del (r + (p - q) + 1) (length ls)] else []))) @
          concat (edit_lines False (Add ?r ?ls)) @ ?out)"
      unfolding es nxt(1) st del add IH [OF order_refl] by simp
    then show ?thesis using l(2) by (simp add: h del: edit_lines.simps)
  qed
qed


section \<open>The reversed hunks undo the hunks\<close>

lemma hunks_reverse_patch:
  "hunks_ok lo (length orig) hs \<Longrightarrow> q \<le> lo \<Longrightarrow> q \<le> length orig \<Longrightarrow> length pre = r \<Longrightarrow>
   hunks_patch r (hunks_reverse q r orig hs) (pre @ hunks_patch q hs orig) = drop q orig"
proof (induction hs arbitrary: lo q r pre)
  case (Cons h hs)
  obtain p c ls where h: "h = (p, c, ls)" by (cases h)
  have ok: "q \<le> p" "p + c \<le> length orig" "hunks_ok (p + c + 1) (length orig) hs" using Cons.prems by (auto simp: h)
  let ?pre = "pre @ take (p - q) (drop q orig) @ ls"
  have len: "length ?pre = r + (p - q) + length ls" using ok Cons.prems(4) by simp
  have IH: "hunks_patch (r + (p - q) + length ls) (hunks_reverse (p + c) (r + (p - q) + length ls) orig hs)
      (?pre @ hunks_patch (p + c) hs orig) = drop (p + c) orig"
    using Cons.IH [OF ok(3) _ ok(2) len] by simp
  have "take (p - q) (drop q orig) @ take c (drop p orig) @ drop (p + c) orig = drop q orig"
    using ok(1) by (metis add.commute append_take_drop_id drop_drop le_add_diff_inverse2)
  then show ?case using IH ok Cons.prems(4) by (simp add: h)
qed simp

lemma hunks_reverse_ok:
  "hunks_ok lo (length orig) hs \<Longrightarrow> q \<le> lo \<Longrightarrow> q \<le> length orig \<Longrightarrow> length orig < 2 ^ 31 \<Longrightarrow>
   hunks_ok (r + (lo - q)) (r + length (hunks_patch q hs orig)) (hunks_reverse q r orig hs)"
proof (induction hs arbitrary: lo q r)
  case (Cons h hs)
  obtain p c ls where h: "h = (p, c, ls)" by (cases h)
  have ok: "lo \<le> p" "q \<le> p" "p + c \<le> length orig" "0 < c \<or> ls \<noteq> []" "hunks_ok (p + c + 1) (length orig) hs"
    using Cons.prems by (auto simp: h)
  have "hunks_ok (r + (p - q) + length ls + 1) (r + (p - q) + length ls + length (hunks_patch (p + c) hs orig))
      (hunks_reverse (p + c) (r + (p - q) + length ls) orig hs)"
    using Cons.IH [OF ok(5) _ ok(3) Cons.prems(4), of "r + (p - q) + length ls"] by simp
  then show ?case using ok Cons.prems(2,4) by (auto simp: h add.assoc LONG_MAX_def)
qed simp

lemma hunks_end_le:
  "hunks_ok lo (length orig) hs \<Longrightarrow> q \<le> lo \<Longrightarrow> snd (hunks_end q r hs) \<le> r + length (hunks_patch q hs orig)"
proof (induction hs arbitrary: q r lo)
  case (Cons h hs)
  obtain p c ls where h: "h = (p, c, ls)" by (cases h)
  have ok: "q \<le> p" "p + c \<le> length orig" "hunks_ok (p + c + 1) (length orig) hs" using Cons.prems by (auto simp: h)
  have "length (take (p - q) (drop q orig)) = p - q" using ok by simp
  then show ?case using Cons.IH [OF ok(3), of "p + c" "r + (p - q) + length ls"] by (simp add: h del: length_take)
qed simp

definition proper_line :: "string \<Rightarrow> bool" where
  "proper_line l \<longleftrightarrow> (\<exists>b. l = b @ [CHR 0x0A] \<and> CHR 0x0A \<notin> set b)"

lemma lines_of_concat: "\<forall>l \<in> set ls. proper_line l \<Longrightarrow> lines_of (concat ls) = ls"
proof (induction ls)
  case Nil
  then show ?case by (simp add: lines_of.simps)
next
  case (Cons l ls)
  then obtain b where b: "l = b @ [CHR 0x0A]" "CHR 0x0A \<notin> set b" by (auto simp: proper_line_def)
  then have "find_nl b = None" by (simp add: find_nl_None)
  then have "find_nl l = Some (length b)" using b by (simp add: find_nl_append)
  from first_line_append [OF this, of "concat ls"] have "first_line (l @ concat ls) = l" using b by simp
  then show ?case using Cons b(1) by (subst lines_of.simps) simp
qed

lemma proper_edit_lines:
  "\<forall>l \<in> set (case e of Add p ls \<Rightarrow> ls | _ \<Rightarrow> []). proper_line l \<Longrightarrow> \<forall>l \<in> set (edit_lines False e). proper_line l"
proof (cases e)
  case (Add p ls)
  have "CHR 0x0A \<notin> set (CHR ''a'' # num_str 10 p @ CHR '' '' # num_str 10 (length ls))"
    using digits_clean [of 10] by (auto simp: needs_escape_def)
  then have "proper_line ((CHR ''a'' # num_str 10 p @ CHR '' '' # num_str 10 (length ls)) @ [CHR 0x0A])"
    unfolding proper_line_def by blast
  moreover assume "\<forall>l \<in> set (case e of Add p ls \<Rightarrow> ls | _ \<Rightarrow> []). proper_line l"
  ultimately show ?thesis by (auto simp: Add stuff_def)
next
  case (Del p c)
  have "CHR 0x0A \<notin> set (CHR ''d'' # num_str 10 p @ CHR '' '' # num_str 10 c)"
    using digits_clean [of 10] by (auto simp: needs_escape_def)
  then have "proper_line ((CHR ''d'' # num_str 10 p @ CHR '' '' # num_str 10 c) @ [CHR 0x0A])"
    unfolding proper_line_def by blast
  then show ?thesis by (simp add: Del)
qed

lemma proper_hunks_reverse:
  assumes "\<forall>l \<in> set orig. proper_line l"
  shows "\<forall>l \<in> set (concat (map (edit_lines False) (hunks_edits (hunks_reverse q r orig hs)))). proper_line l"
proof (induction hs arbitrary: q r)
  case (Cons h hs)
  obtain p c ls where h: "h = (p, c, ls)" by (cases h)
  let ?ls = "take c (drop p orig)"
  have ls: "\<forall>l \<in> set ?ls. proper_line l" using assms by (meson in_set_dropD in_set_takeD)
  have add: "\<forall>l \<in> set (edit_lines False (Add m ?ls)). proper_line l" for m
    by (rule proper_edit_lines) (use ls in \<open>simp only: edit.case\<close>)
  have del: "\<forall>l \<in> set (edit_lines False (Del m k)). proper_line l" for m k
    by (rule proper_edit_lines) simp
  have "\<forall>l \<in> set (concat (map (edit_lines False) (hunk_edits (m, k, ?ls)))). proper_line l" for m k
    using add [of "m + k"] del [of "m + 1" k] by (auto simp del: edit_lines.simps)
  note head = this [of "r + (p - q)" "length ls"]
  from head Cons.IH [of "p + c" "r + (p - q) + length ls"] show ?case
    by (simp only: h hunks_reverse.simps hunks_edits_simps map_append concat_append set_append ball_Un)
qed simp

lemma reverse_loop_end:
  "tail = [] \<or> tail = [CHR ''.'', CHR 0x0A] # junk \<Longrightarrow> reverse_loop ec st tail = Some st"
  by (subst reverse_loop.simps) (auto simp: c_line_def diff_geteditcmd_def)

lemma diff_apply_script:
  assumes "script_ok 0 0 (length orig) es" "int (length orig) < LONG_MAX" "di_expand di = EXPAND_OLD"
  shows "diff_apply (expanded fmtdate k di) False (concat (map (edit_lines False) es)) orig = Inr (concat (patch es orig))"
proof -
  have w: "expanded fmtdate k di = (\<lambda>l. Some l)" using assms(3) by (auto simp: expanded_text)
  have z: "lasta editcmd_zero = int 0" "lastd editcmd_zero = int 0" "editline editcmd_zero = int 0"
    by (simp_all add: editcmd_zero_def)
  have final: "diff_loop (\<lambda>l. Some (id l)) False ec False [] rest = Inr (None, False, rest, [])" for ec rest
    by (subst diff_loop.simps) simp
  from loop_text [OF assms(1) _ _ z assms(2) final]
  obtain j out where 1: "diff_loop (\<lambda>l. Some l) False editcmd_zero False (concat (map (edit_lines False) es)) orig =
      Inr (None, False, drop j orig, concat out)" and out: "out @ drop j orig = patch es orig"
    unfolding patch_start [symmetric] by auto
  have "concat (patch es orig) = concat out @ concat (drop j orig)" unfolding out [symmetric] by simp
  then show ?thesis
    using copyln_text [of id 0 "int (length (drop j orig))" "drop j orig"] unfolding w
    by (simp add: diff_apply_def 1 id_def)
qed

lemma diff_reverse_restores:
  assumes "hunks_ok 0 (length orig) hs" and "length orig < 2 ^ 31" and "length (patch (hunks_edits hs) orig) < 2 ^ 31"
    and "\<forall>l \<in> set orig. proper_line l" and "di_expand di = EXPAND_OLD"
    and "tail = [] \<or> tail = [CHR ''.'', CHR 0x0A] # junk"
  shows "\<exists>t. diff_reverse (expanded fmtdate k di) (concat (map (edit_lines comode) (hunks_edits hs)) @ tail) orig = Inr t \<and>
    diff_apply (expanded fmtdate k di) False (lines_of t) (patch (hunks_edits hs) orig) = Inr (concat orig)"
proof -
  let ?st0 = "\<lparr>rlist = [], rdel = None, roffset = 0\<rparr>" and ?rev = "hunks_reverse 0 0 orig hs"
  let ?new = "patch (hunks_edits hs) orig" and ?qr = "hunks_end 0 0 hs"
  let ?t = "concat (concat (map (edit_lines False) (hunks_edits ?rev)))"
  have w: "expanded fmtdate k di = (\<lambda>l. Some l)" using assms(5) by (auto simp: expanded_text)
  have new: "?new = hunks_patch 0 hs orig" by (rule hunks_patch [OF assms(1)])
  have "between editcmd_zero ?st0 0 0 0" by (simp add: between_def editcmd_zero_def)
  from reverse_loop_hunks [OF this assms(1,2) _ _ reverse_loop_end [OF assms(6)], of comode] assms(3)
  obtain ec st lo where st: "reverse_loop editcmd_zero ?st0 (concat (map (edit_lines comode) (hunks_edits hs)) @ tail) = Some st"
    "map view (all_cmds st) = hunk_entries 0 0 hs" and b: "between ec st lo (fst ?qr) (snd ?qr)"
    unfolding new by (auto simp: all_cmds_def)
  let ?last = "editcmd.extend editcmd_zero \<lparr>ec_key = MAXKEY, ec_havetext = False, ec_offset = roffset st\<rparr>"
  have "int (snd ?qr) \<le> MAXKEY" using hunks_end_le [OF assms(1), of 0 0] assms(3) unfolding new by (simp add: MAXKEY_def LONG_MAX_def)
  then have "diff_insert_edit (all_cmds st) ?last = all_cmds st @ [?last]"
    using b by (intro insert_last) (force simp: between_def editcmd.defs)
  moreover have "insert_opt (rlist st) (rdel st) = all_cmds st" using b by (intro insert_pending) (simp add: between_def)
  moreover have "map view (all_cmds st @ [?last]) = hunk_entries 0 0 hs @ [(MAXKEY, int (fst ?qr) - int (snd ?qr), 0)]"
    using st(2) b by (simp add: view_def between_def editcmd.defs)
  from write_reverse_hunks [OF this assms(1), of 0]
  have "diff_write_reverse (\<lambda>l. Some l) 0 (all_cmds st @ [?last]) orig = Some ?t" by simp
  ultimately have 1: "diff_reverse (expanded fmtdate k di) (concat (map (edit_lines comode) (hunks_edits hs)) @ tail) orig = Inr ?t"
    unfolding w by (simp add: diff_reverse_def st(1) Let_def)
  have ok: "hunks_ok 0 (length ?new) ?rev" using hunks_reverse_ok [OF assms(1) _ _ assms(2), of 0 0] unfolding new by simp
  have orig: "patch (hunks_edits ?rev) ?new = orig"
    using hunks_reverse_patch [OF assms(1), of 0 "[]" 0] unfolding hunks_patch [OF ok] by (simp add: new)
  have lines: "lines_of ?t = concat (map (edit_lines False) (hunks_edits ?rev)) @ []"
    using lines_of_concat [OF proper_hunks_reverse [OF assms(4)]] by simp
  have L: "int (length ?new) < LONG_MAX" using assms(3) by (simp add: LONG_MAX_def)
  have "diff_apply (expanded fmtdate k di) False (lines_of ?t) ?new = Inr (concat orig)"
    using diff_apply_script [OF hunks_script_ok [OF ok order_refl order_refl] L assms(5)] unfolding orig lines by simp
  with 1 show ?thesis by blast
qed

text \<open>
  Claim C3. Reversing a diff undoes it: for the text of any diff made of hunks that are separated by
  an unchanged line, \<open>diff_reverse\<close> with the older file succeeds, and \<open>diff_apply\<close>, given the diff it
  wrote and the newer file, restores the older file byte by byte. The files have fewer than 2^31
  lines, which end in newlines, and keywords are not expanded, as \<open>rcsfile.c\<close> calls it.
\<close>

theorem diff_reverse_undoes:
  assumes "hunks_ok 0 (length orig) hs" and "length orig < 2 ^ 31" and "length (patch (hunks_edits hs) orig) < 2 ^ 31"
    and "\<forall>l \<in> set orig. proper_line l" and "di_expand di = EXPAND_OLD"
    and "tail = [] \<or> tail = [CHR ''.'', CHR 0x0A] # junk"
  shows "\<exists>t. diff_reverse (expanded fmtdate k di) (concat (map (edit_lines comode) (hunks_edits hs)) @ tail) orig = Inr t \<and>
    diff_apply (expanded fmtdate k di) False (lines_of t) (patch (hunks_edits hs) orig) = Inr (concat orig)"
  by (rule diff_reverse_restores [OF assms])

theorem diff_reverse_undoes_witness:
  "let nl = (\<lambda>s. s @ [CHR 0x0A]); orig = map nl [''one'', ''two'', ''three'']; hs = [(0, 1, map nl [''1'', ''1b'']), (2, 1, [])];
       w = expanded (\<lambda>d. Some d) keyword_new (demo_di ''1.1'' EXPAND_OLD)
   in patch (hunks_edits hs) orig = map nl [''1'', ''1b'', ''two''] \<and>
     (\<exists>t. diff_reverse w (concat (map (edit_lines False) (hunks_edits hs))) orig = Inr t \<and>
       diff_apply w False (lines_of t) (map nl [''1'', ''1b'', ''two'']) = Inr (concat orig))"
proof -
  let ?nl = "\<lambda>s. s @ [CHR 0x0A]"
  let ?orig = "map ?nl [''one'', ''two'', ''three'']" and ?hs = "[(0, 1, map ?nl [''1'', ''1b'']), (2, 1, [])]"
  have p: "patch (hunks_edits ?hs) ?orig = map ?nl [''1'', ''1b'', ''two'']"
    by (simp add: patch_def line_after_def added_def deleted_def upt_conv_Cons)
  have "\<forall>l \<in> set ?orig. proper_line l" by (fastforce simp: proper_line_def)
  from diff_reverse_undoes [OF _ _ _ this, of ?hs "demo_di ''1.1'' EXPAND_OLD" "[]" "[]" "\<lambda>d. Some d" keyword_new False] p
  show ?thesis by (simp add: Let_def demo_di_def LONG_MAX_def del: edit_lines.simps hunk_edits.simps hunks_edits_simps)
qed

end
