(* ===== verification/Rcsfile.thy ===== *)
theory Rcsfile
  imports Reverse
begin

text \<open>
  RCS files in memory, \<open>rcsfile.c\<close>. A delta is a record in the heap \<open>rf_heap\<close>, a pointer to one is
  its address, and \<^term>\<open>None\<close> is freed memory; the lists of the C program are lists of addresses.
  The logs and texts are the bytes in the buffers, in which at signs are doubled. The results are
  sums: \<open>R_error\<close> is the error return and \<open>R_crash\<close> the use of a NULL, uninitialised or freed pointer.
\<close>

section \<open>Deltas\<close>

datatype rerr = R_error | R_crash | R_loop

record branch =
  br_revnum :: string
  br_deltas :: "nat list"

record delta =
  d_revnum :: string
  d_revdate :: "string option"
  d_author :: "string option"
  d_state :: "string option"
  d_log :: string
  d_text :: string
  d_placeholder :: bool
  d_diffbase :: "nat option"
  d_branches :: "branch list"

record rcsfile =
  rf_name :: string
  rf_head :: "string option"
  rf_branch :: "string option"
  rf_cvsroot :: string
  rf_colltag :: string
  rf_access :: "string list"
  rf_tags :: "(string \<times> string) list"
  rf_strict :: bool
  rf_comment :: "string option"
  rf_desc :: "string option"
  rf_expand :: int
  rf_ro :: bool
  rf_trunk :: "nat list"
  rf_table :: "nat list"
  rf_heap :: "nat \<Rightarrow> delta option"
  rf_next :: nat

definition rcsfile_init :: "string \<Rightarrow> string \<Rightarrow> string \<Rightarrow> bool \<Rightarrow> rcsfile" where
  "rcsfile_init name cvsroot colltag ro =
     \<lparr>rf_name = name, rf_head = None, rf_branch = None, rf_cvsroot = cvsroot, rf_colltag = colltag,
      rf_access = [], rf_tags = [], rf_strict = False, rf_comment = None, rf_desc = None,
      rf_expand = EXPAND_DEFAULT, rf_ro = ro, rf_trunk = [], rf_table = [], rf_heap = (\<lambda>i. None), rf_next = 0\<rparr>"

definition get_delta :: "rcsfile \<Rightarrow> nat \<Rightarrow> rerr + delta" where
  "get_delta rf i = from_option R_crash (rf_heap rf i)"

definition set_delta :: "rcsfile \<Rightarrow> nat \<Rightarrow> delta \<Rightarrow> rcsfile" where
  "set_delta rf i d = rf\<lparr>rf_heap := (rf_heap rf)(i \<mapsto> d)\<rparr>"

definition has_rev :: "rcsfile \<Rightarrow> string \<Rightarrow> nat \<Rightarrow> bool" where
  "has_rev rf revnum i \<longleftrightarrow> (\<exists>d \<in> set_option (rf_heap rf i). d_revnum d = revnum)"

text \<open>The table holds live deltas only (\<open>rcs_ok\<close> below), so the search does not meet a freed one.\<close>

definition rcsfile_getdelta :: "rcsfile \<Rightarrow> string \<Rightarrow> nat option" where
  "rcsfile_getdelta rf revnum = find (has_rev rf revnum) (rf_table rf)"

definition rcsfile_createdelta :: "rcsfile \<Rightarrow> string \<Rightarrow> bool \<Rightarrow> rcsfile \<times> nat" where
  "rcsfile_createdelta rf revnum placeholder =
     (let i = rf_next rf;
          d = \<lparr>d_revnum = revnum, d_revdate = None, d_author = None, d_state = None, d_log = [], d_text = [],
               d_placeholder = placeholder, d_diffbase = None, d_branches = []\<rparr>
      in ((set_delta rf i d)\<lparr>rf_next := i + 1\<rparr>, i))"

section \<open>The lists of deltas\<close>

definition rev_of :: "rcsfile \<Rightarrow> nat \<Rightarrow> string" where
  "rev_of rf i = (case rf_heap rf i of None \<Rightarrow> [] | Some d \<Rightarrow> d_revnum d)"

definition rcsfile_insertsorteddelta :: "rcsfile \<Rightarrow> nat \<Rightarrow> rcsfile" where
  "rcsfile_insertsorteddelta rf i =
     rf\<lparr>rf_table := insert_where (\<lambda>j. rcsnum_cmp (rev_of rf i) (rev_of rf j) \<le> 0) i (rf_table rf)\<rparr>"

definition rcsfile_insertdelta :: "rcsfile \<Rightarrow> nat list \<Rightarrow> nat \<Rightarrow> bool \<Rightarrow> nat list" where
  "rcsfile_insertdelta rf l i trunk =
     insert_where (\<lambda>j. let c = rcsnum_cmp (rev_of rf i) (rev_of rf j) in if trunk then 0 \<le> c else c < 0) i l"

definition rcsdelta_insertbranch :: "branch list \<Rightarrow> branch \<Rightarrow> branch list" where
  "rcsdelta_insertbranch bs b = insert_where (\<lambda>c. 0 < rcsnum_cmp (br_revnum b) (br_revnum c)) b bs"

text \<open>A pointer to a list of deltas: the trunk or the branch with a number at a branch point.\<close>

datatype bref = Trunk | Branch nat string

definition branch_list :: "rcsfile \<Rightarrow> bref \<Rightarrow> nat list" where
  "branch_list rf b =
     (case b of
        Trunk \<Rightarrow> rf_trunk rf
      | Branch bp num \<Rightarrow>
          (case rf_heap rf bp of None \<Rightarrow> []
           | Some d \<Rightarrow> (case find (\<lambda>c. br_revnum c = num) (d_branches d) of None \<Rightarrow> [] | Some c \<Rightarrow> br_deltas c)))"

definition set_branch_list :: "rcsfile \<Rightarrow> bref \<Rightarrow> nat list \<Rightarrow> rcsfile" where
  "set_branch_list rf b l =
     (case b of
        Trunk \<Rightarrow> rf\<lparr>rf_trunk := l\<rparr>
      | Branch bp num \<Rightarrow>
          (case rf_heap rf bp of None \<Rightarrow> rf
           | Some d \<Rightarrow> set_delta rf bp
               (d\<lparr>d_branches := map (\<lambda>c. if br_revnum c = num then c\<lparr>br_deltas := l\<rparr> else c) (d_branches d)\<rparr>)))"

text \<open>\<open>rcsfile_getbranch\<close> uses the branch point without a check for NULL.\<close>

definition rcsfile_getbranch :: "rcsfile \<Rightarrow> string \<Rightarrow> rerr + bref option" where
  "rcsfile_getbranch rf revnum =
     bindE (from_option R_crash (rcsrev_prefix revnum)) (\<lambda>branchrev.
     bindE (from_option R_crash (rcsrev_prefix branchrev)) (\<lambda>bprev.
     bindE (from_option R_crash (rcsfile_getdelta rf bprev)) (\<lambda>bp.
     bindE (get_delta rf bp) (\<lambda>d.
       Inr (map_option (\<lambda>c. Branch bp (br_revnum c))
         (find (\<lambda>c. rcsnum_cmp (br_revnum c) branchrev = 0) (d_branches d)))))))"

text \<open>The list a delta goes to; a new branch is made at its branch point, \<open>None\<close> when there is none.\<close>

definition find_branch :: "rcsfile \<Rightarrow> string \<Rightarrow> rerr + (rcsfile \<times> bref) option" where
  "find_branch rf revnum =
     bindE (from_option R_crash (rcsrev_istrunk revnum)) (\<lambda>trunk.
     bindE (if trunk then Inr (Some Trunk) else rcsfile_getbranch rf revnum) (\<lambda>b.
       case b of
         Some b \<Rightarrow> Inr (Some (rf, b))
       | None \<Rightarrow>
           bindE (from_option R_crash (rcsrev_prefix revnum)) (\<lambda>brev.
           bindE (from_option R_crash (rcsrev_prefix brev)) (\<lambda>bprev.
             case rcsfile_getdelta rf bprev of
               None \<Rightarrow> Inr None
             | Some bp \<Rightarrow>
                 bindE (get_delta rf bp) (\<lambda>d.
                   Inr (Some (set_delta rf bp
                       (d\<lparr>d_branches := rcsdelta_insertbranch (d_branches d) \<lparr>br_revnum = brev, br_deltas = []\<rparr>\<rparr>),
                     Branch bp brev)))))))"

definition insert_at :: "rcsfile \<Rightarrow> bref \<Rightarrow> nat \<Rightarrow> bool \<Rightarrow> rcsfile" where
  "insert_at rf b i trunk = set_branch_list rf b (rcsfile_insertdelta rf (branch_list rf b) i trunk)"

section \<open>Editing\<close>

text \<open>The new delta's address, \<open>None\<close> when the delta exists or has no branch point.\<close>

definition rcsfile_addelta ::
  "rcsfile \<Rightarrow> string \<Rightarrow> string \<Rightarrow> string \<Rightarrow> string \<Rightarrow> rerr + rcsfile \<times> nat option" where
  "rcsfile_addelta rf revnum revdate author diffbase =
     (if rcsfile_getdelta rf revnum \<noteq> None then Inr (rf, None)
      else let (rf1, i) = rcsfile_createdelta rf revnum False in
      bindE (get_delta rf1 i) (\<lambda>d.
      let rf2 = set_delta rf1 i (d\<lparr>d_revdate := Some revdate, d_author := Some author,
                  d_diffbase := rcsfile_getdelta rf diffbase\<rparr>)
      in bindE (find_branch rf2 revnum) (\<lambda>r.
           case r of
             None \<Rightarrow> Inr (rf2, None)
           | Some (rf3, b) \<Rightarrow> Inr (rcsfile_insertsorteddelta (insert_at rf3 b i (b = Trunk)) i, Some i))))"

text \<open>The existing placeholder or a new delta for an imported revision, with the values set.\<close>

definition import_values ::
  "rcsfile \<Rightarrow> string \<Rightarrow> string \<Rightarrow> string \<Rightarrow> string option \<Rightarrow> nat option \<Rightarrow> rerr + rcsfile \<times> nat" where
  "import_values rf revnum revdate author dstate old =
     (let (rf1, i) = (case old of None \<Rightarrow> rcsfile_createdelta rf revnum False | Some i \<Rightarrow> (rf, i))
      in bindE (get_delta rf1 i) (\<lambda>d.
        Inr (set_delta rf1 i (d\<lparr>d_revdate := Some revdate, d_author := Some author,
               d_state := (if dstate = None then d_state d else dstate)\<rparr>), i)))"

text \<open>The placeholder for the next revision, whose diffbase is the imported one.\<close>

definition import_next :: "rcsfile \<Rightarrow> nat \<Rightarrow> string option \<Rightarrow> rerr + rcsfile \<times> nat option" where
  "import_next rf i nxt =
     (case nxt of
        None \<Rightarrow> Inr (rf, None)
      | Some n \<Rightarrow>
          (let (rf1, j) = rcsfile_createdelta rf n True in
           bindE (get_delta rf1 j) (\<lambda>d. Inr (set_delta rf1 j (d\<lparr>d_diffbase := Some i\<rparr>), Some j))))"

definition table_opt :: "rcsfile \<Rightarrow> nat option \<Rightarrow> rcsfile" where
  "table_opt rf j = (case j of None \<Rightarrow> rf | Some k \<Rightarrow> rcsfile_insertsorteddelta rf k)"

text \<open>On import the first delta of a branch gets its branch point as diffbase; the assertion holds.\<close>

definition branch_diffbase :: "rcsfile \<Rightarrow> bref \<Rightarrow> nat \<Rightarrow> rerr + rcsfile" where
  "branch_diffbase rf b i =
     (if branch_list rf b = [] \<or> hd (branch_list rf b) \<noteq> i then Inr rf
      else bindE (get_delta rf i) (\<lambda>d.
        bindE (from_option R_crash (rcsrev_prefix (d_revnum d))) (\<lambda>brev.
        bindE (from_option R_crash (rcsrev_prefix brev)) (\<lambda>bprev.
        bindE (from_option R_crash (rcsfile_getdelta rf bprev)) (\<lambda>bp.
          Inr (set_delta rf i (d\<lparr>d_diffbase := Some bp\<rparr>)))))))"

definition rcsfile_importdelta ::
  "rcsfile \<Rightarrow> string \<Rightarrow> string \<Rightarrow> string \<Rightarrow> string option \<Rightarrow> string option \<Rightarrow> rerr + rcsfile" where
  "rcsfile_importdelta rf revnum revdate author dstate nxt =
     (let old = rcsfile_getdelta rf revnum;
          isold = (\<lambda>i. \<exists>d \<in> set_option (rf_heap rf i). d_placeholder d)
      in if old \<noteq> None \<and> \<not> isold (the old) then Inr rf
         else bindE (import_values rf revnum revdate author dstate old) (\<lambda>(rf1, i).
           bindE (import_next rf1 i nxt) (\<lambda>(rf2, j).
             let real = (\<lambda>rf. bindE (get_delta rf i) (\<lambda>d. Inr (set_delta rf i (d\<lparr>d_placeholder := False\<rparr>))))
             in if rf_ro rf2
                then bindE (if old = None then Inr (rcsfile_insertsorteddelta rf2 i) else real rf2)
                       (\<lambda>rf3. Inr (table_opt rf3 j))
                else bindE (find_branch rf2 revnum) (\<lambda>r.
                  case r of
                    None \<Rightarrow> Inr rf2
                  | Some (rf3, b) \<Rightarrow>
                      bindE (if old = None
                             then bindE (let rf4 = insert_at rf3 b i (b = Trunk)
                                         in if b = Trunk then Inr rf4 else branch_diffbase rf4 b i)
                                    (\<lambda>rf5. Inr (rcsfile_insertsorteddelta rf5 i))
                             else bindE (real rf3) (\<lambda>rf4. Inr (insert_at rf4 b i (b = Trunk))))
                        (\<lambda>rf6. Inr (table_opt rf6 j))))))"

text \<open>
  \<open>rcsfile_deleterev\<close>: the delta must exist and be linked into a list (unless the file is read
  only); it is freed. Pointers to it that are left over dangle.
\<close>

definition unlink_delta :: "rcsfile \<Rightarrow> nat \<Rightarrow> rerr + rcsfile" where
  "unlink_delta rf i =
     (let linked = (\<lambda>d. \<exists>b \<in> set (d_branches d). i \<in> set (br_deltas b));
          drop = (\<lambda>d. d\<lparr>d_branches := map (\<lambda>b. b\<lparr>br_deltas := remove1 i (br_deltas b)\<rparr>) (d_branches d)\<rparr>)
      in if i \<in> set (rf_trunk rf) \<or> list_ex (\<lambda>j. \<exists>d \<in> set_option (rf_heap rf j). linked d) (rf_table rf)
         then Inr (rf\<lparr>rf_trunk := remove1 i (rf_trunk rf), rf_heap := (\<lambda>j. map_option drop (rf_heap rf j))\<rparr>)
         else Inl R_crash)"

definition rcsfile_deleterev :: "rcsfile \<Rightarrow> string \<Rightarrow> rerr + rcsfile" where
  "rcsfile_deleterev rf revname =
     bindE (from_option R_crash (rcsfile_getdelta rf revname)) (\<lambda>i.
     bindE (if rf_ro rf then Inr rf else unlink_delta rf i) (\<lambda>rf1.
       Inr (rf1\<lparr>rf_table := remove1 i (rf_table rf1), rf_heap := (rf_heap rf1)(i := None)\<rparr>)))"

section \<open>Tags and values\<close>

definition rcsfile_addaccess :: "rcsfile \<Rightarrow> string \<Rightarrow> rcsfile" where
  "rcsfile_addaccess rf who = rf\<lparr>rf_access := rf_access rf @ [who]\<rparr>"

definition rcsfile_addtag :: "rcsfile \<Rightarrow> string \<Rightarrow> string \<Rightarrow> rcsfile" where
  "rcsfile_addtag rf tag revnum = rf\<lparr>rf_tags := (tag, revnum) # rf_tags rf\<rparr>"

definition rcsfile_importtag :: "rcsfile \<Rightarrow> string \<Rightarrow> string \<Rightarrow> rcsfile" where
  "rcsfile_importtag rf tag revnum = rf\<lparr>rf_tags := rf_tags rf @ [(tag, revnum)]\<rparr>"

definition rcsfile_deletetag :: "rcsfile \<Rightarrow> string \<Rightarrow> string \<Rightarrow> rcsfile" where
  "rcsfile_deletetag rf tag revnum = rf\<lparr>rf_tags := remove1 (tag, revnum) (rf_tags rf)\<rparr>"

datatype rcsfile_field = RCSFILE_HEAD | RCSFILE_BRANCH | RCSFILE_COMMENT | RCSFILE_DESC

text \<open>The value is the \<open>len\<close> bytes stored with a comment or a description.\<close>

definition rcsfile_setval :: "rcsfile \<Rightarrow> rcsfile_field \<Rightarrow> string \<Rightarrow> rcsfile" where
  "rcsfile_setval rf field val =
     (case field of
        RCSFILE_HEAD \<Rightarrow> rf\<lparr>rf_head := Some val\<rparr>
      | RCSFILE_BRANCH \<Rightarrow> rf\<lparr>rf_branch := Some val\<rparr>
      | RCSFILE_COMMENT \<Rightarrow> rf\<lparr>rf_comment := Some val\<rparr>
      | RCSFILE_DESC \<Rightarrow> rf\<lparr>rf_desc := Some val\<rparr>)"

definition rcsfile_setexpand :: "rcsfile \<Rightarrow> int \<Rightarrow> rcsfile" where
  "rcsfile_setexpand rf expand = rf\<lparr>rf_expand := expand\<rparr>"

definition rcsfile_setstrict :: "rcsfile \<Rightarrow> rcsfile" where
  "rcsfile_setstrict rf = rf\<lparr>rf_strict := True\<rparr>"

section \<open>Logs and texts\<close>

text \<open>
  Writing to the buffer of a delta appends; \<open>rcsdelta_appendlog\<close> and \<open>rcsdelta_appendtext\<close> double the
  at signs. \<open>rcsdelta_setstate\<close> frees its argument instead of the old state and then copies it.
\<close>

definition rcsdelta_writestring :: "string \<Rightarrow> string" where
  "rcsdelta_writestring s = concat (map (\<lambda>c. if c = CHR ''@'' then ''@@'' else [c]) s)"

definition rcsdelta_addlog :: "delta \<Rightarrow> string \<Rightarrow> delta" where
  "rcsdelta_addlog d s = d\<lparr>d_log := d_log d @ s\<rparr>"

definition rcsdelta_addtext :: "delta \<Rightarrow> string \<Rightarrow> delta" where
  "rcsdelta_addtext d s = d\<lparr>d_text := d_text d @ s\<rparr>"

definition rcsdelta_appendlog :: "delta \<Rightarrow> string \<Rightarrow> delta" where
  "rcsdelta_appendlog d s = d\<lparr>d_log := d_log d @ rcsdelta_writestring s\<rparr>"

definition rcsdelta_appendtext :: "delta \<Rightarrow> string \<Rightarrow> delta" where
  "rcsdelta_appendtext d s = d\<lparr>d_text := d_text d @ rcsdelta_writestring s\<rparr>"

definition rcsdelta_setstate :: "delta \<Rightarrow> string option \<Rightarrow> rerr + delta" where
  "rcsdelta_setstate d dstate =
     (case dstate of
        None \<Rightarrow> Inr (d\<lparr>d_state := None\<rparr>)
      | Some s \<Rightarrow> if d_state d \<noteq> None then Inl R_crash else Inr (d\<lparr>d_state := Some s\<rparr>))"

text \<open>
  Truncating moves the end of the buffer by a negative offset; before the start of the buffer the
  \<open>size_t\<close> wraps around and the next write is far outside.
\<close>

definition truncate_buf :: "string \<Rightarrow> int \<Rightarrow> rerr + string" where
  "truncate_buf s offset =
     (if 0 \<le> int (length s) + offset \<and> offset \<le> 0 then Inr (take (nat (int (length s) + offset)) s) else Inl R_crash)"

definition rcsdelta_truncatelog :: "delta \<Rightarrow> int \<Rightarrow> rerr + delta" where
  "rcsdelta_truncatelog d offset = bindE (truncate_buf (d_log d) offset) (\<lambda>s. Inr (d\<lparr>d_log := s\<rparr>))"

definition rcsdelta_truncatetext :: "delta \<Rightarrow> int \<Rightarrow> rerr + delta" where
  "rcsdelta_truncatetext d offset = bindE (truncate_buf (d_text d) offset) (\<lambda>s. Inr (d\<lparr>d_text := s\<rparr>))"

end
