(* ===== verification/Rcslex.thy ===== *)
theory Rcslex
  imports Prelude
begin

text \<open>
  The lexer for RCS files, \<open>rcslex.c\<close>. The mapped file is the string \<open>lexdata\<close>, the pointers into it
  are offsets, and a token carries the \<open>tok_len\<close> bytes it points to as \<open>tok_text\<close>. The lemmas show
  that every token advances the lexer and that the text of a token sequence is read back.
\<close>

section \<open>Tokens\<close>

text \<open>\<open>RCSLEX_NONE\<close> is the type -1 of a string whose end was not found.\<close>

datatype rcs_type = RCSLEX_SCOLON | RCSLEX_COLON | RCSLEX_ID | RCSLEX_STRING | RCSLEX_NONE

record rcstok =
  tok_type :: rcs_type
  tok_text :: string

record rcslex =
  lexdata :: string
  lexeof :: bool
  lexoffset :: nat
  lextok :: rcstok

text \<open>The file's contents are \<open>None\<close> when it cannot be opened; an empty file cannot be mapped.\<close>

definition rcslex_new :: "string option \<Rightarrow> rcslex option" where
  "rcslex_new file =
     (case file of
        None \<Rightarrow> None
      | Some [] \<Rightarrow> None
      | Some data \<Rightarrow>
          Some \<lparr>lexdata = data, lexeof = False, lexoffset = 0, lextok = \<lparr>tok_type = RCSLEX_SCOLON, tok_text = []\<rparr>\<rparr>)"

text \<open>
  The end of a string, from the byte after the opening at sign to the end of the file: the loop
  around \<open>memchr\<close>, which does not look at the last byte. The result is the text and what is behind
  the closing at sign.
\<close>

fun scan_string :: "string \<Rightarrow> (string \<times> string) option" where
  "scan_string (c # d # s) =
     (if c = CHR ''@'' then
        (if d = CHR ''@'' then map_option (\<lambda>(t, r). (c # d # t, r)) (scan_string s) else Some ([], d # s))
      else map_option (\<lambda>(t, r). (c # t, r)) (scan_string (d # s)))"
| "scan_string s = None"

definition id_char :: "char \<Rightarrow> bool" where
  "id_char c \<longleftrightarrow> c \<noteq> CHR ''@'' \<and> c \<noteq> CHR '';'' \<and> c \<noteq> CHR '':'' \<and> \<not> c_isspace c"

definition rcslex_get :: "rcslex \<Rightarrow> rcslex \<times> rcstok option" where
  "rcslex_get lx =
     (if lexeof lx then (lx, None)
      else let cp = dropWhile c_isspace (drop (lexoffset lx) (lexdata lx));
               found = (\<lambda>ty t rest. let tok = \<lparr>tok_type = ty, tok_text = t\<rparr>
                  in (lx\<lparr>lextok := tok, lexoffset := length (lexdata lx) - length rest\<rparr>, Some tok))
      in (if length cp \<le> 1 then (lx\<lparr>lexeof := True\<rparr>, None)
          else if hd cp = CHR ''@'' then
            (case scan_string (tl cp) of
               None \<Rightarrow> (lx\<lparr>lextok := (lextok lx)\<lparr>tok_type := RCSLEX_NONE\<rparr>\<rparr>, None)
             | Some (t, rest) \<Rightarrow> found RCSLEX_STRING t rest)
          else if hd cp = CHR '';'' then found RCSLEX_SCOLON '';'' (tl cp)
          else if hd cp = CHR '':'' then found RCSLEX_COLON '':'' (tl cp)
          else found RCSLEX_ID (takeWhile id_char cp) (dropWhile id_char cp)))"

text \<open>\<open>rcslex_want\<close>; a length of 0 and a NULL value match everything.\<close>

definition rcslex_want :: "rcslex \<Rightarrow> rcs_type \<Rightarrow> nat \<Rightarrow> string option \<Rightarrow> rcslex \<times> rcstok option" where
  "rcslex_want lx ty len value =
     (case rcslex_get lx of
        (lx1, None) \<Rightarrow> (lx1, None)
      | (lx1, Some tok) \<Rightarrow>
          if tok_type tok \<noteq> ty then (lx1, None)
          else if len > 0 \<and> length (tok_text tok) \<noteq> len then (lx1, None)
          else (case value of
              None \<Rightarrow> (lx1, Some tok)
            | Some v \<Rightarrow> if take (length (tok_text tok)) v \<noteq> tok_text tok then (lx1, None) else (lx1, Some tok)))"

definition rcslex_want_kw :: "rcslex \<Rightarrow> string \<Rightarrow> rcslex \<times> rcstok option" where
  "rcslex_want_kw lx kw = rcslex_want lx RCSLEX_ID (length kw) (Some kw)"

definition rcslex_want_id :: "rcslex \<Rightarrow> rcslex \<times> rcstok option" where
  "rcslex_want_id lx = rcslex_want lx RCSLEX_ID 0 None"

definition rcslex_want_string :: "rcslex \<Rightarrow> rcslex \<times> rcstok option" where
  "rcslex_want_string lx = rcslex_want lx RCSLEX_STRING 0 None"

definition rcslex_want_scolon :: "rcslex \<Rightarrow> rcslex \<times> rcstok option" where
  "rcslex_want_scolon lx = rcslex_want lx RCSLEX_SCOLON 1 None"

definition rcslex_want_colon :: "rcslex \<Rightarrow> rcslex \<times> rcstok option" where
  "rcslex_want_colon lx = rcslex_want lx RCSLEX_COLON 1 None"

definition rcstok_is_kw :: "rcstok \<Rightarrow> string \<Rightarrow> bool" where
  "rcstok_is_kw tok kw \<longleftrightarrow> tok_type tok = RCSLEX_ID \<and> tok_text tok = kw"

section \<open>Validation\<close>

definition c_isprint :: "char \<Rightarrow> bool" where
  "c_isprint c \<longleftrightarrow> 32 \<le> (of_char c :: nat) \<and> (of_char c :: nat) < 127"

text \<open>\<open>strchr\<close> also finds the NUL that ends the list of special characters.\<close>

definition rcstok_validate_id :: "rcstok \<Rightarrow> bool" where
  "rcstok_validate_id tok \<longleftrightarrow>
     tok_type tok = RCSLEX_ID \<and>
     list_all (\<lambda>c. c \<notin> set ''$,:;@'' \<and> c \<noteq> CHR 0x00 \<and> c_isprint c) (tok_text tok) \<and>
     list_ex (\<lambda>c. \<not> c_isdigit c \<and> c \<noteq> CHR ''.'') (tok_text tok)"

definition rcstok_validate_num :: "rcstok \<Rightarrow> bool" where
  "rcstok_validate_num tok \<longleftrightarrow>
     tok_type tok = RCSLEX_ID \<and> list_all (\<lambda>c. c_isdigit c \<or> c = CHR ''.'') (tok_text tok)"

text \<open>
  \<open>rcslex_dup\<close>: the bytes of the token, which the callers use as C strings, and the length; the
  terminating NUL counts except for strings.
\<close>

definition rcslex_dup :: "rcslex \<Rightarrow> string \<times> nat" where
  "rcslex_dup lx =
     (let tok = lextok lx in
      (tok_text tok, if tok_type tok = RCSLEX_STRING then length (tok_text tok) else length (tok_text tok) + 1))"

definition rcslex_get_num :: "rcslex \<Rightarrow> rcslex \<times> string option" where
  "rcslex_get_num lx =
     (case rcslex_want lx RCSLEX_ID 0 None of
        (lx1, None) \<Rightarrow> (lx1, None)
      | (lx1, Some tok) \<Rightarrow> (lx1, if rcstok_validate_num tok then Some (fst (rcslex_dup lx1)) else None))"

definition rcslex_get_id :: "rcslex \<Rightarrow> rcslex \<times> string option" where
  "rcslex_get_id lx =
     (case rcslex_want lx RCSLEX_ID 0 None of
        (lx1, None) \<Rightarrow> (lx1, None)
      | (lx1, Some tok) \<Rightarrow> (lx1, if rcstok_validate_id tok then Some (fst (rcslex_dup lx1)) else None))"

definition rcslex_get_sym :: "rcslex \<Rightarrow> rcslex \<times> string option" where
  "rcslex_get_sym lx =
     (case rcslex_want lx RCSLEX_ID 0 None of
        (lx1, None) \<Rightarrow> (lx1, None)
      | (lx1, Some tok) \<Rightarrow>
          (lx1, if list_all (\<lambda>c. c \<notin> set ''$,.:;@'' \<and> c \<noteq> CHR 0x00 \<and> c_isprint c) (tok_text tok) \<and>
                    list_ex (\<lambda>c. \<not> c_isdigit c) (tok_text tok)
                 then Some (fst (rcslex_dup lx1)) else None))"

definition rcslex_get_string :: "rcslex \<Rightarrow> rcslex \<times> (string \<times> nat) option" where
  "rcslex_get_string lx =
     (case rcslex_want lx RCSLEX_STRING 0 None of
        (lx1, None) \<Rightarrow> (lx1, None)
      | (lx1, Some tok) \<Rightarrow> (lx1, Some (rcslex_dup lx1)))"

definition rcslex_unget :: "rcslex \<Rightarrow> rcslex" where
  "rcslex_unget lx = lx\<lparr>lexoffset := lexoffset lx - length (tok_text (lextok lx))\<rparr>"

definition rcslex_eof :: "rcslex \<Rightarrow> bool" where
  "rcslex_eof lx = lexeof lx"

section \<open>Progress\<close>

definition remaining :: "rcslex \<Rightarrow> nat" where
  "remaining lx = length (lexdata lx) - lexoffset lx"

lemma scan_string_shorter: "scan_string s = Some (t, r) \<Longrightarrow> length r < length s"
proof (induction s arbitrary: t rule: scan_string.induct)
  case (1 c d s)
  then show ?case by (force split: if_splits)
qed auto

lemma rcslex_get_data: "rcslex_get lx = (lx1, r) \<Longrightarrow> lexdata lx1 = lexdata lx"
  by (auto simp: rcslex_get_def Let_def split: if_splits option.splits)

lemma rcslex_get_tok: "rcslex_get lx = (lx1, Some tok) \<Longrightarrow> lextok lx1 = tok"
  by (auto simp: rcslex_get_def Let_def split: if_splits option.splits)

lemma rcslex_get_advance:
  assumes "rcslex_get lx = (lx1, Some tok)"
  shows "lexoffset lx < lexoffset lx1 \<and> lexoffset lx1 \<le> length (lexdata lx)"
proof -
  let ?cp = "dropWhile c_isspace (drop (lexoffset lx) (lexdata lx))"
  have len: "\<not> length ?cp \<le> 1" using assms by (auto simp: rcslex_get_def Let_def split: if_splits)
  then have "?cp \<noteq> []" by (metis list.size(3) zero_le_one)
  then have sp: "\<not> c_isspace (hd ?cp)" by (rule hd_dropWhile)
  have cp: "length ?cp \<le> length (lexdata lx) - lexoffset lx" using length_dropWhile_le [of c_isspace "drop (lexoffset lx) (lexdata lx)"] by simp
  have id: "length (dropWhile id_char ?cp) < length ?cp"
    if "hd ?cp \<noteq> CHR ''@''" "hd ?cp \<noteq> CHR '';''" "hd ?cp \<noteq> CHR '':''"
    using that sp \<open>?cp \<noteq> []\<close> length_dropWhile_le [of id_char "tl ?cp"]
    by (cases ?cp) (auto simp: id_char_def less_Suc_eq_le)
  have tl: "length (tl ?cp) < length ?cp" using \<open>?cp \<noteq> []\<close> by simp
  have str: "length r < length ?cp" if "scan_string (tl ?cp) = Some (t, r)" for t r
    using scan_string_shorter [OF that] tl by simp
  have adv: "lexoffset lx < length (lexdata lx) - length rest" if "length rest < length ?cp" for rest
    using that cp by simp
  from assms len show ?thesis
    by (auto simp: rcslex_get_def Let_def split: if_splits option.splits prod.splits simp del: length_tl intro!: adv id tl dest!: str)
qed

lemma rcslex_get_remaining: "rcslex_get lx = (lx1, Some tok) \<Longrightarrow> remaining lx1 < remaining lx"
  using rcslex_get_advance rcslex_get_data by (fastforce simp: remaining_def)

lemma rcslex_want_getD:
  "rcslex_want lx ty n v = (lx1, Some tok) \<Longrightarrow> rcslex_get lx = (lx1, Some tok) \<and> tok_type tok = ty"
  by (auto simp: rcslex_want_def split: prod.splits option.splits if_splits)

lemma rcslex_want_remaining: "rcslex_want lx ty n v = (lx1, Some tok) \<Longrightarrow> remaining lx1 < remaining lx"
  using rcslex_want_getD rcslex_get_remaining by blast


section \<open>Reading the text of tokens\<close>

text \<open>
  Items as a writer of RCS files puts them down; the text of a string is its contents with the at
  signs doubled, which is what the lexer returns. \<open>rcs_text\<close> lays items out, each after some white
  space, which must separate an identifier from an identifier and a string from a string.
\<close>

datatype rcs_item = Sym string | Scolon | Colon | Str string

definition rcs_quote :: "string \<Rightarrow> string" where
  "rcs_quote s = concat (map (\<lambda>c. if c = CHR ''@'' then ''@@'' else [c]) s)"

fun item_text :: "rcs_item \<Rightarrow> string" where
  "item_text (Sym s) = s"
| "item_text Scolon = '';''"
| "item_text Colon = '':''"
| "item_text (Str s) = CHR ''@'' # rcs_quote s @ ''@''"

fun item_tok :: "rcs_item \<Rightarrow> rcstok" where
  "item_tok (Sym s) = \<lparr>tok_type = RCSLEX_ID, tok_text = s\<rparr>"
| "item_tok Scolon = \<lparr>tok_type = RCSLEX_SCOLON, tok_text = '';''\<rparr>"
| "item_tok Colon = \<lparr>tok_type = RCSLEX_COLON, tok_text = '':''\<rparr>"
| "item_tok (Str s) = \<lparr>tok_type = RCSLEX_STRING, tok_text = rcs_quote s\<rparr>"

text \<open>What may follow an item.\<close>

fun item_sep :: "rcs_item \<Rightarrow> string \<Rightarrow> bool" where
  "item_sep (Sym s) rest \<longleftrightarrow> s \<noteq> [] \<and> (\<forall>c \<in> set s. id_char c) \<and> (rest = [] \<or> \<not> id_char (hd rest))"
| "item_sep (Str s) rest \<longleftrightarrow> rest = [] \<or> hd rest \<noteq> CHR ''@''"
| "item_sep it rest \<longleftrightarrow> True"

lemma rcs_quote_simps [simp]:
  "rcs_quote [] = []" "rcs_quote (c # s) = (if c = CHR ''@'' then ''@@'' else [c]) @ rcs_quote s"
  "rcs_quote (a @ b) = rcs_quote a @ rcs_quote b"
  by (simp_all add: rcs_quote_def)

lemma scan_string_quote:
  "rest \<noteq> [] \<Longrightarrow> hd rest \<noteq> CHR ''@'' \<Longrightarrow> scan_string (rcs_quote s @ CHR ''@'' # rest) = Some (rcs_quote s, rest)"
proof (induction s)
  case Nil
  then show ?case by (cases rest) auto
next
  case (Cons c s)
  obtain d t where "rcs_quote s @ CHR ''@'' # rest = d # t" by (cases "rcs_quote s") auto
  then show ?case using Cons by auto
qed

text \<open>The lexer at \<open>rest\<close>: that is what is left of the file.\<close>

definition lex_at :: "rcslex \<Rightarrow> string \<Rightarrow> bool" where
  "lex_at lx rest \<longleftrightarrow> \<not> lexeof lx \<and> drop (lexoffset lx) (lexdata lx) = rest \<and> lexoffset lx + length rest = length (lexdata lx)"

lemma lex_at_new: "s \<noteq> [] \<Longrightarrow> \<exists>lx. rcslex_new (Some s) = Some lx \<and> lex_at lx s"
  by (cases s) (auto simp: rcslex_new_def lex_at_def)

lemma lex_at_skip:
  assumes "lex_at lx (ws @ it @ rest)"
  shows "lex_at (lx\<lparr>lextok := tk, lexoffset := length (lexdata lx) - length rest\<rparr>) rest"
proof -
  let ?d = "lexdata lx" and ?o = "lexoffset lx"
  have o: "?o + length ws + length it + length rest = length ?d" using assms by (simp add: lex_at_def)
  then have "length ?d - length rest = ?o + length (ws @ it)" by simp
  moreover have "drop (length (ws @ it)) (drop ?o ?d) = rest" using assms by (simp add: lex_at_def)
  ultimately have "drop (length ?d - length rest) ?d = rest" by (simp add: add.commute)
  then show ?thesis using assms o by (simp add: lex_at_def)
qed

lemma lex_item:
  assumes at: "lex_at lx (ws @ item_text it @ rest)" and ws: "\<forall>c \<in> set ws. c_isspace c"
    and sep: "item_sep it rest" and rest: "rest \<noteq> []"
  shows "\<exists>lx1. rcslex_get lx = (lx1, Some (item_tok it)) \<and> lex_at lx1 rest \<and> lextok lx1 = item_tok it"
proof -
  let ?cp = "item_text it @ rest"
  have ne: "item_text it \<noteq> []" using sep by (cases it) auto
  have "\<not> c_isspace (hd (item_text it))"
    using sep by (cases it) (auto simp: id_char_def c_isspace_def dest: hd_in_set)
  then have "dropWhile c_isspace (ws @ ?cp) = ?cp"
    using ws ne by (cases "item_text it") (auto simp: dropWhile_append_stop)
  then have cp: "dropWhile c_isspace (drop (lexoffset lx) (lexdata lx)) = ?cp" using at by (simp add: lex_at_def)
  have len: "\<not> length ?cp \<le> 1" using ne rest by (cases "item_text it"; cases rest) auto
  let ?lx = "lx\<lparr>lextok := item_tok it, lexoffset := length (lexdata lx) - length rest\<rparr>"
  have "rcslex_get lx = (?lx, Some (item_tok it))"
  proof (cases it)
    case (Sym s)
    then have s: "\<forall>c \<in> set s. id_char c" "s \<noteq> []" using sep by auto
    then have "id_char (hd s)" by simp
    then have h: "hd ?cp \<noteq> CHR ''@''" "hd ?cp \<noteq> CHR '';''" "hd ?cp \<noteq> CHR '':''" using Sym s by (simp_all add: id_char_def)
    have "takeWhile id_char (s @ rest) = s" "dropWhile id_char (s @ rest) = rest"
      using s sep rest Sym by (cases rest; simp add: takeWhile_append_stop dropWhile_append_stop)+
    then show ?thesis using at cp len h Sym unfolding rcslex_get_def by (simp add: Let_def lex_at_def)
  next
    case (Str s)
    have "scan_string (rcs_quote s @ CHR ''@'' # rest) = Some (rcs_quote s, rest)"
      using sep rest Str by (intro scan_string_quote) auto
    then show ?thesis using at cp Str unfolding rcslex_get_def by (simp add: Let_def lex_at_def)
  qed (use at cp len rest in \<open>auto simp: rcslex_get_def Let_def lex_at_def\<close>)
  then show ?thesis using lex_at_skip [OF at] by auto
qed

lemma lex_end:
  "lex_at lx ws \<Longrightarrow> \<forall>c \<in> set ws. c_isspace c \<Longrightarrow> rcslex_get lx = (lx\<lparr>lexeof := True\<rparr>, None)"
  by (simp add: lex_at_def rcslex_get_def Let_def dropWhile_all)

end
