(* ===== verification/Rcsparse.thy ===== *)
theory Rcsparse
  imports Rcsfile Rcslex
begin

text \<open>
  The parser of RCS files, \<open>rcsparse.c\<close>, which drives the lexer and builds an RCS file with the
  operations of Rcsfile. Every loop reads a token per turn, so it ends with the file.
\<close>

section \<open>Tokens wanted\<close>

text \<open>A token or value that must be there: a NULL is the error return.\<close>

fun want :: "rcslex \<times> 'a option \<Rightarrow> rerr + 'a \<times> rcslex" where
  "want (lx, None) = Inl R_error"
| "want (lx, Some x) = Inr (x, lx)"

definition want_kw :: "rcslex \<Rightarrow> string \<Rightarrow> rerr + rcslex" where
  "want_kw lx kw = bindE (want (rcslex_want_kw lx kw)) (\<lambda>(t, lx1). Inr lx1)"

definition want_scolon :: "rcslex \<Rightarrow> rerr + rcslex" where
  "want_scolon lx = bindE (want (rcslex_want_scolon lx)) (\<lambda>(t, lx1). Inr lx1)"

definition is_scolon :: "rcstok option \<Rightarrow> bool" where
  "is_scolon tok \<longleftrightarrow> (\<exists>t \<in> set_option tok. tok_type t = RCSLEX_SCOLON)"

text \<open>The rest of a newphrase, up to its semicolon.\<close>

function skip_phrase :: "rcslex \<Rightarrow> rerr + rcslex" where
  "skip_phrase lx =
     (case rcslex_get lx of
        (lx1, Some tok) \<Rightarrow>
          if tok_type tok \<in> {RCSLEX_ID, RCSLEX_STRING, RCSLEX_COLON} then skip_phrase lx1
          else if tok_type tok = RCSLEX_SCOLON then Inr lx1 else Inl R_error
      | (lx1, None) \<Rightarrow> Inl R_error)"
  by auto
termination
  by (relation "measure remaining") (auto dest: rcslex_get_remaining [OF sym])

declare skip_phrase.simps [simp del]

section \<open>The admin part\<close>

function parse_access :: "rcsfile \<Rightarrow> rcslex \<Rightarrow> rerr + rcsfile \<times> rcslex" where
  "parse_access rf lx =
     (case rcslex_get lx of
        (lx1, Some tok) \<Rightarrow>
          if tok_type tok = RCSLEX_ID then parse_access (rcsfile_addaccess rf (fst (rcslex_dup lx1))) lx1
          else if tok_type tok = RCSLEX_SCOLON then Inr (rf, lx1) else Inl R_error
      | (lx1, None) \<Rightarrow> Inl R_error)"
  by auto
termination
  by (relation "measure (\<lambda>(rf, lx). remaining lx)") (auto dest: rcslex_get_remaining [OF sym])

lemma want_Inr: "want r = Inr (x, lx) \<longleftrightarrow> r = (lx, Some x)"
  by (cases r; cases "snd r") auto

lemma rcslex_get_num_remaining: "rcslex_get_num lx = (lx1, Some n) \<Longrightarrow> remaining lx1 < remaining lx"
  using rcslex_want_remaining by (fastforce simp: rcslex_get_num_def split: prod.splits option.splits if_splits)

lemma rcslex_get_id_remaining: "rcslex_get_id lx = (lx1, Some n) \<Longrightarrow> remaining lx1 < remaining lx"
  using rcslex_want_remaining by (fastforce simp: rcslex_get_id_def split: prod.splits option.splits if_splits)

lemma rcslex_get_string_remaining: "rcslex_get_string lx = (lx1, Some n) \<Longrightarrow> remaining lx1 < remaining lx"
  using rcslex_want_remaining by (fastforce simp: rcslex_get_string_def split: prod.splits option.splits)

lemma want_scolon_remaining: "want_scolon lx = Inr lx1 \<Longrightarrow> remaining lx1 < remaining lx"
  using rcslex_want_remaining by (auto simp: want_scolon_def rcslex_want_scolon_def bindE_Inr want_Inr)

lemma want_kw_remaining: "want_kw lx kw = Inr lx1 \<Longrightarrow> remaining lx1 < remaining lx"
  using rcslex_want_remaining by (auto simp: want_kw_def rcslex_want_kw_def bindE_Inr want_Inr)

lemmas lex_progress = rcslex_get_remaining rcslex_want_remaining rcslex_get_num_remaining rcslex_get_id_remaining rcslex_get_string_remaining
  want_scolon_remaining want_kw_remaining

function parse_symbols :: "rcsfile \<Rightarrow> rcslex \<Rightarrow> rerr + rcsfile \<times> rcslex" where
  "parse_symbols rf lx =
     (case rcslex_get lx of
        (lx1, Some tok) \<Rightarrow>
          if tok_type tok = RCSLEX_ID then
            bindE (want (rcslex_want_colon lx1)) (\<lambda>(c, lx2).
            bindE (want (rcslex_get_num lx2)) (\<lambda>(num, lx3).
              parse_symbols (rcsfile_importtag rf (fst (rcslex_dup lx1)) num) lx3))
          else if tok_type tok = RCSLEX_SCOLON then Inr (rf, lx1) else Inl R_error
      | (lx1, None) \<Rightarrow> Inl R_error)"
  by auto
termination
  by (relation "measure (\<lambda>(rf, lx). remaining lx)")
    (auto simp: want_Inr rcslex_want_colon_def dest!: sym [where t = "rcslex_get _"] lex_progress)

function parse_locks :: "rcslex \<Rightarrow> rerr + rcslex" where
  "parse_locks lx =
     (case rcslex_get lx of
        (lx1, Some tok) \<Rightarrow>
          if tok_type tok = RCSLEX_ID then
            bindE (want (rcslex_want_colon lx1)) (\<lambda>(c, lx2).
            bindE (want (rcslex_want_id lx2)) (\<lambda>(i, lx3). parse_locks lx3))
          else if tok_type tok = RCSLEX_SCOLON then Inr lx1 else Inl R_error
      | (lx1, None) \<Rightarrow> Inl R_error)"
  by auto
termination
  by (relation "measure remaining")
    (auto simp: want_Inr rcslex_want_colon_def rcslex_want_id_def dest!: sym [where t = "rcslex_get _"] lex_progress)

text \<open>The optional phrases behind the locks; the first token that starts none is put back.\<close>

definition parse_comment :: "rcsfile \<Rightarrow> rcslex \<Rightarrow> rerr + rcsfile \<times> rcslex" where
  "parse_comment rf lx =
     bindE (want (rcslex_get_string lx)) (\<lambda>((str, len), lx1).
     bindE (want_scolon lx1) (\<lambda>lx2. Inr (rcsfile_setval rf RCSFILE_COMMENT str, lx2)))"

text \<open>The mode is read as a C string.\<close>

definition parse_expand :: "rcsfile \<Rightarrow> rcslex \<Rightarrow> rerr + rcsfile \<times> rcslex" where
  "parse_expand rf lx =
     bindE (want (rcslex_get_string lx)) (\<lambda>((str, len), lx1).
       let expand = keyword_decode_expand (takeWhile (\<lambda>c. c \<noteq> CHR 0x00) str)
       in if expand = -1 then Inl R_error
          else bindE (want_scolon lx1) (\<lambda>lx2. Inr (rcsfile_setexpand rf expand, lx2)))"

lemma skip_phrase_remaining: "skip_phrase lx = Inr lx1 \<Longrightarrow> remaining lx1 < remaining lx"
proof (induction lx rule: skip_phrase.induct)
  case (1 lx)
  obtain lx2 tok where get: "rcslex_get lx = (lx2, Some tok)"
    using "1.prems" by (cases "rcslex_get lx"; cases "snd (rcslex_get lx)") (auto simp: skip_phrase.simps [of lx])
  then show ?case
    using "1.IH" [OF get [symmetric]] "1.prems" rcslex_get_remaining [OF get]
    by (subst (asm) (2) skip_phrase.simps) (auto split: if_splits)
qed

lemma parse_comment_remaining: "parse_comment rf lx = Inr (rf1, lx1) \<Longrightarrow> remaining lx1 < remaining lx"
  by (auto simp: parse_comment_def bindE_Inr want_Inr dest!: lex_progress)

lemma parse_expand_remaining: "parse_expand rf lx = Inr (rf1, lx1) \<Longrightarrow> remaining lx1 < remaining lx"
  by (auto simp: parse_expand_def bindE_Inr want_Inr Let_def split: if_splits dest!: lex_progress)

function parse_options :: "rcsfile \<Rightarrow> rcslex \<Rightarrow> rerr + rcsfile \<times> rcslex" where
  "parse_options rf lx =
     (case rcslex_get lx of
        (lx1, Some tok) \<Rightarrow>
          if tok_type tok \<noteq> RCSLEX_ID then Inr (rf, lx1)
          else if rcstok_is_kw tok ''strict'' then
            bindE (want_scolon lx1) (\<lambda>lx2. parse_options (rcsfile_setstrict rf) lx2)
          else if rcstok_is_kw tok ''comment'' then bindE (parse_comment rf lx1) (\<lambda>(rf1, lx2). parse_options rf1 lx2)
          else if rcstok_is_kw tok ''expand'' then bindE (parse_expand rf lx1) (\<lambda>(rf1, lx2). parse_options rf1 lx2)
          else if rcstok_validate_id tok then bindE (skip_phrase lx1) (\<lambda>lx2. parse_options rf lx2)
          else Inr (rf, rcslex_unget lx1)
      | (lx1, None) \<Rightarrow> Inr (rf, lx1))"
  by auto
termination
  by (relation "measure (\<lambda>(rf, lx). remaining lx)")
    (auto dest!: sym [where t = "rcslex_get _"] lex_progress skip_phrase_remaining parse_comment_remaining parse_expand_remaining)

text \<open>\<open>rcstok_is_kw\<close> uses the token behind the branch phrase without a check for NULL.\<close>

definition parse_branch :: "rcsfile \<Rightarrow> rcslex \<Rightarrow> rerr + (rcsfile \<times> rcstok) \<times> rcslex" where
  "parse_branch rf lx =
     bindE (want (rcslex_want_id lx)) (\<lambda>(tok, lx1).
       if rcstok_is_kw tok ''branch'' then
         bindE (want (rcslex_get_num lx1)) (\<lambda>(num, lx2).
         bindE (want_scolon lx2) (\<lambda>lx3.
           case rcslex_get lx3 of
             (lx4, None) \<Rightarrow> Inl R_crash
           | (lx4, Some tok1) \<Rightarrow> Inr ((rcsfile_setval rf RCSFILE_BRANCH num, tok1), lx4)))
       else Inr ((rf, tok), lx1))"

definition parse_admin :: "rcsfile \<Rightarrow> rcslex \<Rightarrow> rerr + rcsfile \<times> rcslex" where
  "parse_admin rf lx =
     bindE (want_kw lx ''head'') (\<lambda>lx.
     bindE (want (rcslex_get_num lx)) (\<lambda>(num, lx).
     bindE (want_scolon lx) (\<lambda>lx.
     bindE (parse_branch (rcsfile_setval rf RCSFILE_HEAD num) lx) (\<lambda>((rf, tok), lx).
     if \<not> rcstok_is_kw tok ''access'' then Inl R_error
     else bindE (parse_access rf lx) (\<lambda>(rf, lx).
     bindE (want_kw lx ''symbols'') (\<lambda>lx.
     bindE (parse_symbols rf lx) (\<lambda>(rf, lx).
     bindE (want_kw lx ''locks'') (\<lambda>lx.
     bindE (parse_locks lx) (\<lambda>lx. parse_options rf lx)))))))))"

section \<open>The deltas\<close>

text \<open>An optional value before a semicolon: \<open>state {id};\<close> and \<open>next {num};\<close>.\<close>

definition parse_optional :: "(rcstok \<Rightarrow> bool) \<Rightarrow> rcslex \<Rightarrow> rerr + string option \<times> rcslex" where
  "parse_optional valid lx =
     bindE (want (rcslex_get lx)) (\<lambda>(tok, lx1).
       let (v, tok2, lx2) =
         (if tok_type tok = RCSLEX_ID \<and> valid tok
          then (let (lx2, t) = rcslex_get lx1 in (Some (fst (rcslex_dup lx1)), t, lx2))
          else (None, Some tok, lx1))
       in if is_scolon tok2 then Inr (v, lx2) else Inl R_error)"

function parse_branches :: "rcslex \<Rightarrow> rerr + rcslex" where
  "parse_branches lx =
     (case rcslex_get lx of
        (lx1, Some tok) \<Rightarrow>
          if tok_type tok = RCSLEX_ID \<and> rcstok_validate_num tok then parse_branches lx1
          else if tok_type tok = RCSLEX_SCOLON then Inr lx1 else Inl R_error
      | (lx1, None) \<Rightarrow> Inl R_error)"
  by auto
termination
  by (relation "measure remaining") (auto dest: rcslex_get_remaining [OF sym])

text \<open>The phrases before the keyword \<open>kw\<close> and the token that ends them, if any.\<close>

function parse_phrases :: "string \<Rightarrow> rcslex \<Rightarrow> rerr + rcstok \<times> rcslex" where
  "parse_phrases kw lx =
     (case rcslex_get lx of
        (lx1, Some tok) \<Rightarrow>
          if \<not> rcstok_is_kw tok kw \<and> rcstok_validate_id tok
          then bindE (skip_phrase lx1) (\<lambda>lx2. parse_phrases kw lx2) else Inr (tok, lx1)
      | (lx1, None) \<Rightarrow> Inl R_error)"
  by auto
termination
  by (relation "measure (\<lambda>(kw, lx). remaining lx)") (auto dest!: sym [where t = "rcslex_get _"] lex_progress skip_phrase_remaining)

declare parse_access.simps [simp del] parse_symbols.simps [simp del] parse_locks.simps [simp del]
  parse_options.simps [simp del] parse_branches.simps [simp del] parse_phrases.simps [simp del]

text \<open>A delta behind its number: date, author, state and next, and the token behind it.\<close>

definition parse_delta :: "rcslex \<Rightarrow> rerr + (string \<times> string \<times> string option \<times> string option \<times> rcstok) \<times> rcslex" where
  "parse_delta lx =
     bindE (want_kw lx ''date'') (\<lambda>lx.
     bindE (want (rcslex_get_num lx)) (\<lambda>(revdate, lx).
     bindE (want_scolon lx) (\<lambda>lx.
     bindE (want_kw lx ''author'') (\<lambda>lx.
     bindE (want (rcslex_get_id lx)) (\<lambda>(author, lx).
     bindE (want_scolon lx) (\<lambda>lx.
     bindE (want_kw lx ''state'') (\<lambda>lx.
     bindE (parse_optional rcstok_validate_id lx) (\<lambda>(dstate, lx).
     bindE (want_kw lx ''branches'') (\<lambda>lx.
     bindE (parse_branches lx) (\<lambda>lx.
     bindE (want_kw lx ''next'') (\<lambda>lx.
     bindE (parse_optional rcstok_validate_num lx) (\<lambda>(nxt, lx).
     bindE (parse_phrases ''desc'' lx) (\<lambda>(tok, lx). Inr ((revdate, author, dstate, nxt, tok), lx))))))))))))))"


lemma parse_optional_remaining: "parse_optional v lx = Inr (x, lx1) \<Longrightarrow> remaining lx1 < remaining lx"
  by (fastforce simp: parse_optional_def bindE_Inr want_Inr Let_def is_scolon_def split: if_splits prod.splits
      dest!: rcslex_get_remaining)

lemma parse_branches_remaining: "parse_branches lx = Inr lx1 \<Longrightarrow> remaining lx1 < remaining lx"
proof (induction lx rule: parse_branches.induct)
  case (1 lx)
  obtain lx2 tok where get: "rcslex_get lx = (lx2, Some tok)"
    using "1.prems" by (cases "rcslex_get lx"; cases "snd (rcslex_get lx)") (auto simp: parse_branches.simps [of lx])
  then show ?case
    using "1.IH" [OF get [symmetric]] "1.prems" rcslex_get_remaining [OF get]
    by (subst (asm) (2) parse_branches.simps) (auto split: if_splits)
qed

lemma parse_phrases_remaining: "parse_phrases kw lx = Inr (tok, lx1) \<Longrightarrow> remaining lx1 < remaining lx"
proof (induction kw lx rule: parse_phrases.induct)
  case (1 kw lx)
  obtain lx2 tk where get: "rcslex_get lx = (lx2, Some tk)"
    using "1.prems" by (cases "rcslex_get lx"; cases "snd (rcslex_get lx)") (auto simp: parse_phrases.simps [of kw lx])
  show ?case
  proof (cases "\<not> rcstok_is_kw tk kw \<and> rcstok_validate_id tk")
    case True
    then obtain lx3 where "skip_phrase lx2 = Inr lx3" "parse_phrases kw lx3 = Inr (tok, lx1)"
      using "1.prems" get by (auto simp: parse_phrases.simps [of kw lx] bindE_Inr)
    then show ?thesis
      using "1.IH" [OF get [symmetric] refl True, of lx3] rcslex_get_remaining [OF get] skip_phrase_remaining by fastforce
  next
    case False
    then show ?thesis using "1.prems" get rcslex_get_remaining [OF get]
      by (auto simp: parse_phrases.simps [of kw lx] split: if_splits)
  qed
qed

lemma parse_delta_remaining: "parse_delta lx = Inr (x, lx1) \<Longrightarrow> remaining lx1 < remaining lx"
  unfolding parse_delta_def
  by (auto simp: bindE_Inr want_Inr split: prod.splits
      dest!: lex_progress parse_optional_remaining parse_branches_remaining parse_phrases_remaining)


text \<open>The loop over the deltas, from the token read last; a token that is no number is put back.\<close>

function parse_deltas_loop :: "rcsfile \<Rightarrow> rcstok \<Rightarrow> rcslex \<Rightarrow> rerr + rcsfile \<times> rcslex" where
  "parse_deltas_loop rf tok lx =
     (if \<not> rcstok_validate_num tok then Inr (rf, rcslex_unget lx)
      else bindE (parse_delta lx) (\<lambda>(p, lx1).
        case p of (revdate, author, dstate, nxt, tok1) \<Rightarrow>
          bindE (rcsfile_importdelta rf (fst (rcslex_dup lx)) revdate author dstate nxt) (\<lambda>rf1.
            parse_deltas_loop rf1 tok1 lx1)))"
  by auto
termination
  by (relation "measure (\<lambda>(rf, tok, lx). remaining lx)") (auto dest: parse_delta_remaining)

declare parse_deltas_loop.simps [simp del]

definition parse_deltas :: "rcsfile \<Rightarrow> rcslex \<Rightarrow> rerr + rcsfile \<times> rcslex" where
  "parse_deltas rf lx =
     (case rcslex_get lx of
        (lx1, None) \<Rightarrow> Inr (rf, lx1)
      | (lx1, Some tok) \<Rightarrow> parse_deltas_loop rf tok lx1)"

section \<open>The texts of the deltas\<close>

definition parse_deltatext :: "rcsfile \<Rightarrow> nat \<Rightarrow> rcslex \<Rightarrow> rerr + rcsfile \<times> rcslex" where
  "parse_deltatext rf i lx =
     bindE (want_kw lx ''log'') (\<lambda>lx.
     bindE (want (rcslex_want_string lx)) (\<lambda>(tok, lx).
     bindE (get_delta rf i) (\<lambda>d.
     let rf = set_delta rf i (rcsdelta_addlog d (tok_text tok)) in
     bindE (parse_phrases ''text'' lx) (\<lambda>(tok, lx).
     if \<not> rcstok_is_kw tok ''text'' then Inl R_error
     else bindE (want (rcslex_want_string lx)) (\<lambda>(tok, lx).
       bindE (get_delta rf i) (\<lambda>d. Inr (set_delta rf i (rcsdelta_addtext d (tok_text tok)), lx)))))))"

lemma parse_deltatext_remaining: "parse_deltatext rf i lx = Inr (rf1, lx1) \<Longrightarrow> remaining lx1 < remaining lx"
  unfolding parse_deltatext_def rcslex_want_string_def
  by (auto simp: bindE_Inr want_Inr Let_def split: if_splits prod.splits dest!: lex_progress parse_phrases_remaining)

function parse_deltatexts :: "rcsfile \<Rightarrow> rcslex \<Rightarrow> rerr + rcsfile \<times> rcslex" where
  "parse_deltatexts rf lx =
     (case rcslex_get_num lx of
        (lx1, None) \<Rightarrow> if rcslex_eof lx1 then Inr (rf, lx1) else Inl R_error
      | (lx1, Some revnum) \<Rightarrow>
          (case rcsfile_getdelta rf revnum of
             None \<Rightarrow> Inr (rf, lx1)
           | Some i \<Rightarrow> bindE (parse_deltatext rf i lx1) (\<lambda>(rf1, lx2). parse_deltatexts rf1 lx2)))"
  by auto
termination
  by (relation "measure (\<lambda>(rf, lx). remaining lx)")
    (auto dest!: sym [where t = "rcslex_get_num _"] rcslex_get_num_remaining parse_deltatext_remaining)

declare parse_deltatexts.simps [simp del]

section \<open>The file\<close>

definition rcsparse :: "rcsfile \<Rightarrow> string option \<Rightarrow> bool \<Rightarrow> rerr + rcsfile" where
  "rcsparse rf file ro =
     bindE (from_option R_error (rcslex_new file)) (\<lambda>lx.
     bindE (parse_admin rf lx) (\<lambda>(rf, lx).
     bindE (parse_deltas rf lx) (\<lambda>(rf, lx).
     bindE (want_kw lx ''desc'') (\<lambda>lx.
     bindE (want (rcslex_get_string lx)) (\<lambda>((desc, len), lx).
       let rf = rcsfile_setval rf RCSFILE_DESC desc
       in if ro then Inr rf else bindE (parse_deltatexts rf lx) (\<lambda>(rf, lx). Inr rf))))))"

definition rcsfile_frompath :: "string option \<Rightarrow> string \<Rightarrow> string \<Rightarrow> string \<Rightarrow> bool \<Rightarrow> rerr + rcsfile" where
  "rcsfile_frompath file name cvsroot colltag ro = rcsparse (rcsfile_init name cvsroot colltag ro) file ro"

end
