(* ===== verification/Rcswrite.thy ===== *)
theory Rcswrite
  imports Rcsfile
begin

text \<open>
  Writing RCS files, the second half of \<open>rcsfile.c\<close>: the texts of revisions from the chain of
  diffs, the file with its deltas in the order of the tree, and the details sent to the server.
  The text written is the value; writing itself does not fail here. \<open>n\<close> is the fuel of the walks
  over the deltas (\<open>R_loop\<close>). \<open>fmtdate\<close> is the date conversion of keyword expansion.
\<close>

section \<open>The text of a revision\<close>

text \<open>
  The description of a delta for \<open>diff.c\<close>. Keywords are not expanded (\<open>EXPAND_OLD\<close>), so its other
  fields are not used; those that are NULL are empty strings here.
\<close>

definition rcs_di :: "rcsfile \<Rightarrow> delta \<Rightarrow> diffinfo" where
  "rcs_di rf d =
     (let str = (\<lambda>s. case s of None \<Rightarrow> [] | Some t \<Rightarrow> t) in
      \<lparr>di_rcsfile = rf_name rf, di_cvsroot = rf_cvsroot rf, di_revnum = d_revnum d, di_revdate = str (d_revdate d),
       di_author = str (d_author d), di_tag = Some (rf_colltag rf), di_state = str (d_state d), di_expand = EXPAND_OLD\<rparr>)"

fun rcsfile_getdeltatext :: "nat \<Rightarrow> (string \<Rightarrow> string option) \<Rightarrow> rcsfile \<Rightarrow> nat \<Rightarrow> rerr + string" where
  "rcsfile_getdeltatext 0 fmtdate rf i = Inl R_loop"
| "rcsfile_getdeltatext (Suc n) fmtdate rf i =
     bindE (get_delta rf i) (\<lambda>d.
       case d_diffbase d of
         None \<Rightarrow> bindE (from_option R_crash (rf_head rf)) (\<lambda>h. if h = d_revnum d then Inr (d_text d) else Inl R_crash)
       | Some b \<Rightarrow>
           bindE (rcsfile_getdeltatext n fmtdate rf b) (\<lambda>orig.
             case diff_apply (expanded fmtdate keyword_new (rcs_di rf d)) False (lines_of (d_text d)) (lines_of orig) of
               Inl e \<Rightarrow> Inl R_error
             | Inr t \<Rightarrow> Inr t))"

definition rcsfile_puttext :: "nat \<Rightarrow> (string \<Rightarrow> string option) \<Rightarrow> rcsfile \<Rightarrow> nat \<Rightarrow> nat option \<Rightarrow> rerr + string" where
  "rcsfile_puttext n fmtdate rf i diffbase =
     bindE (get_delta rf i) (\<lambda>d.
       if d_diffbase d = diffbase then Inr (d_text d)
       else case diffbase of
           None \<Rightarrow> rcsfile_getdeltatext n fmtdate rf i
         | Some b \<Rightarrow>
             bindE (get_delta rf b) (\<lambda>db.
               if d_diffbase db = Some i then
                 bindE (rcsfile_getdeltatext n fmtdate rf i) (\<lambda>orig.
                   case diff_reverse (expanded fmtdate keyword_new (rcs_di rf d)) (lines_of (d_text db)) (lines_of orig) of
                     Inl e \<Rightarrow> Inl R_error
                   | Inr t \<Rightarrow> Inr t)
               else Inr []))"

section \<open>The tree in the order of the file\<close>

text \<open>The delta behind a delta in the list it is linked into, and the first deltas of its branches.\<close>

fun succ_in :: "nat \<Rightarrow> nat list \<Rightarrow> nat option" where
  "succ_in i (x # y # l) = (if x = i then Some y else succ_in i (y # l))"
| "succ_in i l = None"

definition all_lists :: "rcsfile \<Rightarrow> nat list list" where
  "all_lists rf = rf_trunk rf #
     concat (map (\<lambda>j. case rf_heap rf j of None \<Rightarrow> [] | Some d \<Rightarrow> map br_deltas (d_branches d)) (rf_table rf))"

definition next_delta :: "rcsfile \<Rightarrow> nat \<Rightarrow> nat option" where
  "next_delta rf i = (case find (\<lambda>l. i \<in> set l) (all_lists rf) of None \<Rightarrow> None | Some l \<Rightarrow> succ_in i l)"

definition branch_heads :: "delta \<Rightarrow> nat list" where
  "branch_heads d = concat (map (\<lambda>b. case br_deltas b of [] \<Rightarrow> [] | h # t \<Rightarrow> [h]) (d_branches d))"

definition rev_num :: "rcsfile \<Rightarrow> nat \<Rightarrow> rerr + string" where
  "rev_num rf i = bindE (get_delta rf i) (\<lambda>d. Inr (d_revnum d))"

fun mapE :: "('a \<Rightarrow> 'e + 'b) \<Rightarrow> 'a list \<Rightarrow> 'e + 'b list" where
  "mapE f [] = Inr []"
| "mapE f (x # xs) = bindE (f x) (\<lambda>y. bindE (mapE f xs) (\<lambda>ys. Inr (y # ys)))"

definition TAB :: string where "TAB = [CHR 0x09]"
definition LF :: string where "LF = [CHR 0x0A]"

text \<open>One delta: its text and what is pushed on the stack, the next delta on top of the branches.\<close>

definition delta_text :: "rcsfile \<Rightarrow> nat \<Rightarrow> delta \<Rightarrow> rerr + string" where
  "delta_text rf i d =
     bindE (from_option R_crash (d_revdate d)) (\<lambda>revdate.
     bindE (from_option R_crash (d_author d)) (\<lambda>author.
     bindE (mapE (rev_num rf) (rev (branch_heads d))) (\<lambda>brs.
     bindE (case next_delta rf i of None \<Rightarrow> Inr [] | Some j \<Rightarrow> rev_num rf j) (\<lambda>nxt.
       Inr (d_revnum d @ LF @ ''date'' @ TAB @ revdate @ '';'' @ TAB @ ''author '' @ author @ '';'' @ TAB @ ''state'' @
         (case d_state d of None \<Rightarrow> [] | Some s \<Rightarrow> '' '' @ s) @ '';'' @ LF @ ''branches'' @
         concat (map (\<lambda>r. LF @ TAB @ r) brs) @ '';'' @ LF @ ''next'' @ TAB @ nxt @ '';'' @ LF @ LF)))))"

definition pushed :: "rcsfile \<Rightarrow> nat \<Rightarrow> delta \<Rightarrow> nat list" where
  "pushed rf i d = (case next_delta rf i of None \<Rightarrow> [] | Some j \<Rightarrow> [j]) @ rev (branch_heads d)"

fun write_deltas :: "nat \<Rightarrow> rcsfile \<Rightarrow> nat list \<Rightarrow> rerr + string" where
  "write_deltas n rf [] = Inr []"
| "write_deltas 0 rf (i # st) = Inl R_loop"
| "write_deltas (Suc n) rf (i # st) =
     bindE (get_delta rf i) (\<lambda>d.
       if d_placeholder d then write_deltas n rf st
       else bindE (delta_text rf i d) (\<lambda>t.
            bindE (write_deltas n rf (pushed rf i d @ st)) (\<lambda>t'. Inr (t @ t'))))"

section \<open>The texts in the order of the file\<close>

text \<open>The branches sorted by the date of their first delta; an empty branch ends the loop.\<close>

definition date_le :: "rcsfile \<Rightarrow> nat \<Rightarrow> nat \<Rightarrow> bool" where
  "date_le rf i j =
     (let date = (\<lambda>i. case rf_heap rf i of None \<Rightarrow> [] | Some d \<Rightarrow> (case d_revdate d of None \<Rightarrow> [] | Some t \<Rightarrow> t))
      in rcsnum_cmp (date i) (date j) \<le> 0)"

fun sort_branches :: "rcsfile \<Rightarrow> nat list \<Rightarrow> branch list \<Rightarrow> nat list" where
  "sort_branches rf l [] = l"
| "sort_branches rf l (b # bs) =
     (case br_deltas b of
        [] \<Rightarrow> l
      | i # t \<Rightarrow> sort_branches rf (insert_where (\<lambda>j. date_le rf i j) i l) bs)"

text \<open>What is pushed behind a delta, the last one on top; a next delta off the trunk is sorted in first.\<close>

definition pushed_texts :: "rcsfile \<Rightarrow> nat \<Rightarrow> delta \<Rightarrow> rerr + nat list" where
  "pushed_texts rf i d =
     (case next_delta rf i of
        None \<Rightarrow> Inr (rev (sort_branches rf [] (d_branches d)))
      | Some j \<Rightarrow>
          bindE (rev_num rf j) (\<lambda>r.
          bindE (from_option R_crash (rcsrev_istrunk r)) (\<lambda>trunk.
            Inr (if trunk then rev (sort_branches rf [] (d_branches d)) @ [j]
                 else rev (sort_branches rf [j] (d_branches d))))))"

text \<open>
  The stack holds each delta with the \<open>prev\<close> it was given when it was pushed. A placeholder ends
  the whole walk.
\<close>

fun write_deltatexts :: "nat \<Rightarrow> nat \<Rightarrow> (string \<Rightarrow> string option) \<Rightarrow> rcsfile \<Rightarrow> (nat \<times> nat option) list \<Rightarrow> rerr + string" where
  "write_deltatexts n m fmtdate rf [] = Inr []"
| "write_deltatexts 0 m fmtdate rf (p # st) = Inl R_loop"
| "write_deltatexts (Suc n) m fmtdate rf ((i, prev) # st) =
     bindE (get_delta rf i) (\<lambda>d.
       if d_placeholder d then Inr []
       else bindE (rcsfile_puttext m fmtdate rf i prev) (\<lambda>t.
            bindE (pushed_texts rf i d) (\<lambda>new.
            bindE (write_deltatexts n m fmtdate rf (map (\<lambda>j. (j, Some i)) new @ st)) (\<lambda>t'.
              Inr (LF @ LF @ LF @ d_revnum d @ LF @ ''log'' @ LF @ ''@'' @ d_log d @ ''@'' @ LF @ ''text'' @ LF @ ''@'' @
                t @ ''@'' @ t')))))"

definition rcsfile_write_deltatext :: "nat \<Rightarrow> (string \<Rightarrow> string option) \<Rightarrow> rcsfile \<Rightarrow> rerr + string" where
  "rcsfile_write_deltatext n fmtdate rf =
     (case rf_trunk rf of [] \<Rightarrow> Inl R_crash | i # l \<Rightarrow> write_deltatexts n n fmtdate rf [(i, None)])"

section \<open>The whole file\<close>

definition admin_text :: "rcsfile \<Rightarrow> string \<Rightarrow> rerr + string" where
  "admin_text rf head =
     bindE (if rf_expand rf \<noteq> EXPAND_DEFAULT
            then bindE (from_option R_crash (keyword_encode_expand (rf_expand rf)))
                   (\<lambda>e. Inr (''expand'' @ TAB @ ''@'' @ e @ ''@;'' @ LF)) else Inr []) (\<lambda>expand.
       Inr (''head'' @ TAB @ head @ '';'' @ LF @
         (case rf_branch rf of None \<Rightarrow> [] | Some b \<Rightarrow> ''branch'' @ TAB @ b @ '';'' @ LF) @
         ''access'' @ '';'' @ LF @
         ''symbols'' @ concat (map (\<lambda>(tag, revnum). LF @ TAB @ tag @ '':'' @ revnum) (rf_tags rf)) @
         '';'' @ LF @ ''locks;'' @ (if rf_strict rf then '' strict;'' else []) @ LF @
         (case rf_comment rf of None \<Rightarrow> [] | Some c \<Rightarrow> ''comment'' @ TAB @ ''@'' @ c @ ''@;'' @ LF) @
         expand @ LF @ LF))"

definition rcsfile_write :: "nat \<Rightarrow> (string \<Rightarrow> string option) \<Rightarrow> rcsfile \<Rightarrow> rerr + string" where
  "rcsfile_write n fmtdate rf =
     (case rf_trunk rf of
        [] \<Rightarrow> Inl R_crash
      | i # l \<Rightarrow>
          bindE (rev_num rf i) (\<lambda>head.
          bindE (admin_text rf head) (\<lambda>admin.
          bindE (write_deltas n rf [i]) (\<lambda>deltas.
          bindE (rcsfile_write_deltatext n fmtdate rf) (\<lambda>texts.
            Inr (admin @ deltas @ LF @ ''desc'' @ LF @ ''@'' @
              (case rf_desc rf of None \<Rightarrow> [] | Some d \<Rightarrow> d) @ ''@'' @ texts @ LF))))))"

section \<open>The details for the server\<close>

text \<open>The messages of \<open>rcsfile_send_details\<close>; \<^term>\<open>None\<close> where a NULL or unknown value is printed.\<close>

definition rcsfile_send_details :: "idb \<Rightarrow> rcsfile \<Rightarrow> calls option list" where
  "rcsfile_send_details db rf =
     (let msg = (\<lambda>fmt args. proto_printf db (fmt @ LF) args);
          val = (\<lambda>i. case rf_heap rf i of
                   None \<Rightarrow> [Astr None]
                 | Some d \<Rightarrow> [Astr (Some (d_revnum d)), Astr (d_revdate d)])
      in [msg ''V %s'' [Astr (Some (rf_name rf))],
          (case rf_branch rf of None \<Rightarrow> msg ''b'' [] | Some b \<Rightarrow> msg ''B %s'' [Astr (Some b)]),
          msg ''E %s'' [Astr (keyword_encode_expand (rf_expand rf))],
          msg ''T'' []] @
         map (\<lambda>(tag, revnum). msg ''%s %s'' [Astr (Some tag), Astr (Some revnum)]) (rf_tags rf) @
         [msg ''.'' [], msg ''D'' []] @
         map (\<lambda>i. msg ''%s %s'' (val i)) (rf_table rf) @
         [msg ''.'' [], msg ''.'' []])"


section \<open>A new head\<close>

lemma proper_hunks_edits:
  assumes "\<forall>(p, c, ls) \<in> set hs. \<forall>l \<in> set ls. proper_line l" "l \<in> set (concat (map (edit_lines False) (hunks_edits hs)))"
  shows "proper_line l"
proof -
  obtain h e where he: "h \<in> set hs" "e \<in> set (hunk_edits h)" "l \<in> set (edit_lines False e)"
    using assms(2) by (auto simp: hunks_edits_def)
  obtain p c ls where h: "h = (p, c, ls)" by (cases h)
  have "\<forall>l \<in> set (case e of Add p ls \<Rightarrow> ls | _ \<Rightarrow> []). proper_line l"
    using he(1,2) assms(1) by (fastforce simp: h split: if_splits)
  from proper_edit_lines [OF this] he(3) show ?thesis by blast
qed

lemma proper_hunks_patch:
  "\<forall>l \<in> set orig. proper_line l \<Longrightarrow> \<forall>(p, c, ls) \<in> set hs. \<forall>l \<in> set ls. proper_line l \<Longrightarrow> l \<in> set (hunks_patch q hs orig) \<Longrightarrow> proper_line l"
proof (induction q hs orig rule: hunks_patch.induct)
  case (1 q orig)
  then show ?case by (auto dest: in_set_dropD)
next
  case (2 q p c ls hs orig)
  then show ?case by (auto dest!: in_set_takeD in_set_dropD)
qed

text \<open>
  Claim C4. Adding a revision on top of the trunk keeps the old one: when the new delta holds the
  diff from the old head's text, the head is written with the patched text, and the old head, whose
  whole text was in the file, is written as a diff that gives its text back, byte by byte, when it is
  applied to the new head's text. The diff consists of hunks separated by unchanged lines.
\<close>

theorem new_head_keeps_old_text:
  assumes "get_delta rf i = Inr old" "d_diffbase old = None" "rf_head rf = Some (d_revnum old)" "d_text old = concat orig"
    and "get_delta rf j = Inr new" "d_diffbase new = Some i" "d_text new = concat (concat (map (edit_lines False) (hunks_edits hs)))"
    and "hunks_ok 0 (length orig) hs" "length orig < 2 ^ 31" "length (patch (hunks_edits hs) orig) < 2 ^ 31"
    and "\<forall>l \<in> set orig. proper_line l" "\<forall>(p, c, ls) \<in> set hs. \<forall>l \<in> set ls. proper_line l"
    and "1 < n"
  shows "\<exists>t. let text1 = concat (patch (hunks_edits hs) orig) in
    rcsfile_puttext n fmtdate rf j None = Inr text1 \<and> rcsfile_puttext n fmtdate rf i (Some j) = Inr t \<and>
    diff_apply (expanded fmtdate keyword_new (rcs_di rf old)) False (lines_of t) (lines_of text1) = Inr (d_text old)"
proof -
  let ?es = "hunks_edits hs" and ?w = "\<lambda>d. expanded fmtdate keyword_new (rcs_di rf d)"
  obtain m where n: "n = Suc (Suc m)" using assms(13) by (metis One_nat_def Suc_lessE less_imp_Suc_add)
  have mode: "di_expand (rcs_di rf d) = EXPAND_OLD" for d by (simp add: rcs_di_def Let_def)
  have orig: "lines_of (d_text old) = orig" using lines_of_concat [OF assms(11)] by (simp add: assms(4))
  have script: "lines_of (d_text new) = concat (map (edit_lines False) ?es)"
    using proper_hunks_edits [OF assms(12)] unfolding assms(7) by (intro lines_of_concat) blast
  have patch: "lines_of (concat (patch ?es orig)) = patch ?es orig"
    using proper_hunks_patch [OF assms(11,12)] unfolding hunks_patch [OF assms(8)] by (intro lines_of_concat) blast
  have text_old: "rcsfile_getdeltatext (Suc k) fmtdate rf i = Inr (d_text old)" for k
    by (simp add: assms(1,2,3))
  have "int (length orig) < LONG_MAX" using assms(9) by (simp add: LONG_MAX_def)
  from diff_apply_script [OF hunks_script_ok [OF assms(8) order_refl order_refl] this mode]
  have new: "rcsfile_puttext n fmtdate rf j None = Inr (concat (patch ?es orig))"
    unfolding rcsfile_puttext_def n assms(5)
    by (subst rcsfile_getdeltatext.simps(2)) (simp add: assms(5,6) text_old orig script del: rcsfile_getdeltatext.simps)
  from diff_reverse_restores [OF assms(8-11) mode, of "[]" "[]" fmtdate keyword_new old False]
  obtain t where t: "diff_reverse (?w old) (lines_of (d_text new)) orig = Inr t"
    "diff_apply (?w old) False (lines_of t) (patch ?es orig) = Inr (d_text old)"
    by (auto simp: script assms(4))
  have "rcsfile_puttext n fmtdate rf i (Some j) = Inr t"
    using t(1) by (simp add: rcsfile_puttext_def assms(1,2,5,6) n text_old orig del: rcsfile_getdeltatext.simps)
  with new t(2) show ?thesis by (auto simp: Let_def patch)
qed

theorem new_head_keeps_old_text_witness:
  "let nl = (\<lambda>s. s @ [CHR 0x0A]); hs = [(1, 1, [nl ''2''])];
       d = \<lparr>d_revnum = ''1.1'', d_revdate = None, d_author = None, d_state = None, d_log = [], d_text = nl ''one'' @ nl ''two'',
            d_placeholder = False, d_diffbase = None, d_branches = []\<rparr>;
       rf = (rcsfile_init ''a,v'' ''/cvs'' ''HEAD'' False)\<lparr>rf_head := Some ''1.1'', rf_heap :=
         [0 \<mapsto> d, 1 \<mapsto> d\<lparr>d_revnum := ''1.2'', d_text := nl ''d2 1'' @ nl ''a2 1'' @ nl ''2'', d_diffbase := Some 0\<rparr>]\<rparr>
   in \<exists>t. rcsfile_puttext 2 (\<lambda>d. Some d) rf 1 None = Inr (nl ''one'' @ nl ''2'') \<and>
     rcsfile_puttext 2 (\<lambda>d. Some d) rf 0 (Some 1) = Inr t \<and>
     diff_apply (expanded (\<lambda>d. Some d) keyword_new (rcs_di rf d)) False (lines_of t) (lines_of (nl ''one'' @ nl ''2'')) = Inr (d_text d)"
proof -
  let ?nl = "\<lambda>s. s @ [CHR 0x0A]"
  let ?d = "\<lparr>d_revnum = ''1.1'', d_revdate = None, d_author = None, d_state = None, d_log = [], d_text = ?nl ''one'' @ ?nl ''two'',
            d_placeholder = False, d_diffbase = None, d_branches = []\<rparr>"
  let ?e = "?d\<lparr>d_revnum := ''1.2'', d_text := ?nl ''d2 1'' @ ?nl ''a2 1'' @ ?nl ''2'', d_diffbase := Some 0\<rparr>"
  let ?rf = "(rcsfile_init ''a,v'' ''/cvs'' ''HEAD'' False)\<lparr>rf_head := Some ''1.1'', rf_heap := [0 \<mapsto> ?d, 1 \<mapsto> ?e]\<rparr>"
  let ?orig = "[?nl ''one'', ?nl ''two'']" and ?hs = "[(1, 1, [?nl ''2''])]"
  have p: "patch (hunks_edits ?hs) ?orig = [?nl ''one'', ?nl ''2'']"
    by (simp add: patch_def line_after_def added_def deleted_def upt_conv_Cons)
  have n: "num_str 10 (Suc (Suc 0)) = ''2''" "num_str 10 (Suc 0) = ''1''" by code_simp+
  have t: "d_text ?e = concat (concat (map (edit_lines False) (hunks_edits ?hs)))" using n by (simp add: stuff_def)
  have l: "\<forall>l \<in> set ?orig. proper_line l" "\<forall>(p, c, ls) \<in> set ?hs. \<forall>l \<in> set ls. proper_line l"
    by (fastforce simp: proper_line_def)+
  have g: "get_delta ?rf 0 = Inr ?d" "get_delta ?rf 1 = Inr ?e" by (simp_all add: get_delta_def rcsfile_init_def)
  from new_head_keeps_old_text [OF g(1) _ _ _ g(2) _ t _ _ _ l, of 2 "\<lambda>d. Some d"] p
  show ?thesis by (simp add: Let_def LONG_MAX_def rcsfile_init_def)
qed

end
