(* ===== verification/Rcsread.thy ===== *)
theory Rcsread
  imports Rcsparse Rcswrite
begin

text \<open>
  Parsing what was written: the text that \<open>rcsfile_write\<close> produces is read back by \<open>rcsparse\<close>. A
  parser \<open>reads\<close> a text with a result when it does so wherever the text stands before a separator;
  texts are composed as the parsers are. \<open>Q\<close> says where the lexer is left, given the rest of the text.
\<close>

section \<open>Parsers and the texts they read\<close>

definition stop :: "string \<Rightarrow> bool" where
  "stop s \<longleftrightarrow> s \<noteq> [] \<and> (c_isspace (hd s) \<or> hd s = CHR '';'' \<or> hd s = CHR '':'')"

lemma stop_simps [simp]: "\<not> stop []" "stop (c # s) \<longleftrightarrow> c_isspace c \<or> c = CHR '';'' \<or> c = CHR '':''"
  by (auto simp: stop_def)

lemma stop_append: "stop s \<Longrightarrow> stop (s @ t)"
  by (cases s) auto

lemma stopD: "stop s \<Longrightarrow> s \<noteq> [] \<and> \<not> id_char (hd s) \<and> hd s \<noteq> CHR ''@''"
  by (cases s) (auto simp: id_char_def c_isspace_def)

definition reads_to :: "(rcslex \<Rightarrow> string \<Rightarrow> bool) \<Rightarrow> (rcslex \<Rightarrow> rerr + 'a \<times> rcslex) \<Rightarrow> string \<Rightarrow> 'a \<Rightarrow> bool" where
  "reads_to Q p s x \<longleftrightarrow> (\<forall>lx rest. lex_at lx (s @ rest) \<longrightarrow> stop rest \<longrightarrow> (\<exists>lx1. p lx = Inr (x, lx1) \<and> Q lx1 rest))"

abbreviation reads :: "(rcslex \<Rightarrow> rerr + 'a \<times> rcslex) \<Rightarrow> string \<Rightarrow> 'a \<Rightarrow> bool" where
  "reads \<equiv> reads_to lex_at"

definition passes :: "(rcslex \<Rightarrow> rerr + rcslex) \<Rightarrow> string \<Rightarrow> bool" where
  "passes p s \<longleftrightarrow> (\<forall>lx rest. lex_at lx (s @ rest) \<longrightarrow> stop rest \<longrightarrow> (\<exists>lx1. p lx = Inr lx1 \<and> lex_at lx1 rest))"

lemma reads_toD: "reads_to Q p s x \<Longrightarrow> lex_at lx (s @ rest) \<Longrightarrow> stop rest \<Longrightarrow> \<exists>lx1. p lx = Inr (x, lx1) \<and> Q lx1 rest"
  by (simp add: reads_to_def)

lemma passesD: "passes p s \<Longrightarrow> lex_at lx (s @ rest) \<Longrightarrow> stop rest \<Longrightarrow> \<exists>lx1. p lx = Inr lx1 \<and> lex_at lx1 rest"
  by (simp add: passes_def)

lemma reads_bind:
  assumes "reads p s x" "stop t" "reads_to Q (q x) t y"
  shows "reads_to Q (\<lambda>lx. bindE (p lx) (\<lambda>(x, lx). q x lx)) (s @ t) y"
  unfolding reads_to_def
proof (intro allI impI)
  fix lx rest
  assume "lex_at lx ((s @ t) @ rest)" "stop rest"
  moreover from this obtain lx1 where "p lx = Inr (x, lx1)" "lex_at lx1 (t @ rest)"
    using assms(1,2) stop_append unfolding reads_to_def by (metis append.assoc)
  ultimately show "\<exists>lx1. bindE (p lx) (\<lambda>(x, lx). q x lx) = Inr (y, lx1) \<and> Q lx1 rest"
    using assms(3) unfolding reads_to_def by auto
qed

lemma passes_bind:
  assumes "passes p s" "stop t" "reads_to Q q t y"
  shows "reads_to Q (\<lambda>lx. bindE (p lx) q) (s @ t) y"
  unfolding reads_to_def
proof (intro allI impI)
  fix lx rest
  assume "lex_at lx ((s @ t) @ rest)" "stop rest"
  moreover from this obtain lx1 where "p lx = Inr lx1" "lex_at lx1 (t @ rest)"
    using assms(1,2) stop_append unfolding passes_def by (metis append.assoc)
  ultimately show "\<exists>lx1. bindE (p lx) q = Inr (y, lx1) \<and> Q lx1 rest"
    using assms(3) unfolding reads_to_def by auto
qed

lemma passes_bind_last:
  assumes "passes p s"
  shows "reads (\<lambda>lx. bindE (p lx) (\<lambda>lx. Inr (y, lx))) s y"
  using assms unfolding reads_to_def passes_def by fastforce

lemma reads_return: "reads_to Q p s x \<Longrightarrow> reads_to Q (\<lambda>lx. bindE (p lx) (\<lambda>(x, lx). Inr (f x, lx))) s (f x)"
  unfolding reads_to_def by fastforce

section \<open>Tokens\<close>

definition spaces :: "string \<Rightarrow> bool" where
  "spaces ws \<longleftrightarrow> (\<forall>c \<in> set ws. c_isspace c)"

definition symbol :: "string \<Rightarrow> bool" where
  "symbol s \<longleftrightarrow> s \<noteq> [] \<and> (\<forall>c \<in> set s. id_char c)"

lemma spaces_simps [simp]: "spaces []" "spaces TAB" "spaces LF" "spaces ws \<Longrightarrow> spaces vs \<Longrightarrow> spaces (ws @ vs)" "spaces '' ''"
  by (auto simp: spaces_def TAB_def LF_def c_isspace_def)

definition after_sym :: "string \<Rightarrow> rcslex \<Rightarrow> string \<Rightarrow> bool" where
  "after_sym s lx rest \<longleftrightarrow>
     lex_at lx rest \<and> lextok lx = \<lparr>tok_type = RCSLEX_ID, tok_text = s\<rparr> \<and> lex_at (rcslex_unget lx) (s @ rest)"

lemma get_sym:
  assumes "lex_at lx (ws @ s @ rest)" "spaces ws" "symbol s" "stop rest"
  shows "\<exists>lx1. rcslex_get lx = (lx1, Some \<lparr>tok_type = RCSLEX_ID, tok_text = s\<rparr>) \<and> after_sym s lx1 rest"
proof -
  have at: "lex_at lx (ws @ item_text (Sym s) @ rest)" using assms(1) by simp
  obtain lx1 where 1: "rcslex_get lx = (lx1, Some (item_tok (Sym s)))" "lex_at lx1 rest" "lextok lx1 = item_tok (Sym s)"
    using lex_item [OF at] assms stopD by (auto simp: spaces_def symbol_def)
  have d: "lexdata lx1 = lexdata lx" using rcslex_get_data [OF 1(1)] .
  have "lexoffset lx1 + length rest = length (lexdata lx)" "lexoffset lx + length ws + length s + length rest = length (lexdata lx)"
    using 1(2) assms(1) by (simp_all add: lex_at_def d)
  then have o: "lexoffset lx1 - length s = lexoffset lx + length ws" by linarith
  have "drop (length ws) (drop (lexoffset lx) (lexdata lx)) = s @ rest" using assms(1) by (simp add: lex_at_def)
  then have "lex_at (rcslex_unget lx1) (s @ rest)"
    using 1 assms(1) o by (simp add: lex_at_def rcslex_unget_def d add.commute)
  with 1 show ?thesis by (auto simp: after_sym_def)
qed

lemma get_scolon:
  assumes "lex_at lx (ws @ CHR '';'' # rest)" "spaces ws" "rest \<noteq> []"
  shows "\<exists>lx1. rcslex_get lx = (lx1, Some \<lparr>tok_type = RCSLEX_SCOLON, tok_text = '';''\<rparr>) \<and> lex_at lx1 rest"
  using lex_item [of lx ws Scolon rest] assms by (auto simp: spaces_def)

lemma get_string:
  assumes "lex_at lx (ws @ CHR ''@'' # rcs_quote s @ CHR ''@'' # rest)" "spaces ws" "stop rest"
  shows "\<exists>lx1. rcslex_get lx = (lx1, Some \<lparr>tok_type = RCSLEX_STRING, tok_text = rcs_quote s\<rparr>) \<and> lex_at lx1 rest \<and>
    lextok lx1 = \<lparr>tok_type = RCSLEX_STRING, tok_text = rcs_quote s\<rparr>"
  using lex_item [of lx ws "Str s" rest] assms stopD [OF assms(3)] by (auto simp: spaces_def)

lemma passes_kw: "spaces ws \<Longrightarrow> symbol kw \<Longrightarrow> passes (\<lambda>lx. want_kw lx kw) (ws @ kw)"
  unfolding passes_def
  by (auto dest!: get_sym simp: after_sym_def want_kw_def rcslex_want_kw_def rcslex_want_def)

lemma passes_scolon: "passes want_scolon '';''"
  unfolding passes_def
  by (auto dest!: get_scolon [where ws = "[]", simplified] stopD simp: want_scolon_def rcslex_want_scolon_def rcslex_want_def)

definition rcs_num :: "string \<Rightarrow> bool" where
  "rcs_num s \<longleftrightarrow> s \<noteq> [] \<and> (\<forall>c \<in> set s. c_isdigit c \<or> c = CHR ''.'')"

definition rcs_id :: "string \<Rightarrow> bool" where
  "rcs_id s \<longleftrightarrow> symbol s \<and> rcstok_validate_id \<lparr>tok_type = RCSLEX_ID, tok_text = s\<rparr>"

lemma rcs_num_symbol: "rcs_num s \<Longrightarrow> symbol s"
  by (auto simp: rcs_num_def symbol_def id_char_def c_isdigit_def c_isspace_def)

lemma rcs_num_validate [simp]: "rcs_num s \<Longrightarrow> rcstok_validate_num \<lparr>tok_type = RCSLEX_ID, tok_text = s\<rparr>"
  by (auto simp: rcs_num_def rcstok_validate_num_def list_all_iff)

lemma rcs_num_not_id: "rcs_num s \<Longrightarrow> \<not> rcstok_validate_id \<lparr>tok_type = RCSLEX_ID, tok_text = s\<rparr>"
  by (auto simp: rcs_num_def rcstok_validate_id_def list_ex_iff)

lemma reads_num: "spaces ws \<Longrightarrow> rcs_num s \<Longrightarrow> reads (\<lambda>lx. want (rcslex_get_num lx)) (ws @ s) s"
  unfolding reads_to_def
  by (auto dest!: get_sym [OF _ _ rcs_num_symbol] simp: after_sym_def rcslex_get_num_def rcslex_want_def rcslex_dup_def Let_def)

lemma reads_id: "spaces ws \<Longrightarrow> rcs_id s \<Longrightarrow> reads (\<lambda>lx. want (rcslex_get_id lx)) (ws @ s) s"
  unfolding reads_to_def rcs_id_def
  by (auto dest!: get_sym simp: after_sym_def rcslex_get_id_def rcslex_want_def rcslex_dup_def Let_def)

lemma reads_string:
  "spaces ws \<Longrightarrow> reads (\<lambda>lx. want (rcslex_get_string lx)) (ws @ ''@'' @ rcs_quote s @ ''@'') (rcs_quote s, length (rcs_quote s))"
  unfolding reads_to_def
  by (fastforce dest!: get_string simp: rcslex_get_string_def rcslex_want_def rcslex_dup_def Let_def)

lemma reads_want_string:
  "spaces ws \<Longrightarrow> reads (\<lambda>lx. want (rcslex_want_string lx)) (ws @ ''@'' @ rcs_quote s @ ''@'')
     \<lparr>tok_type = RCSLEX_STRING, tok_text = rcs_quote s\<rparr>"
  unfolding reads_to_def
  by (fastforce dest!: get_string simp: rcslex_want_string_def rcslex_want_def)


lemma bind_kw:
  "spaces ws \<Longrightarrow> symbol kw \<Longrightarrow> stop t \<Longrightarrow> reads_to Q q t y \<Longrightarrow> reads_to Q (\<lambda>lx. bindE (want_kw lx kw) q) (ws @ kw @ t) y"
  using passes_bind [OF passes_kw, of ws kw t Q q y] by simp

lemma bind_scolon: "stop t \<Longrightarrow> reads_to Q q t y \<Longrightarrow> reads_to Q (\<lambda>lx. bindE (want_scolon lx) q) ('';'' @ t) y"
  by (rule passes_bind [OF passes_scolon])

lemma bind_num:
  "spaces ws \<Longrightarrow> rcs_num s \<Longrightarrow> stop t \<Longrightarrow> reads_to Q (q s) t y \<Longrightarrow>
   reads_to Q (\<lambda>lx. bindE (want (rcslex_get_num lx)) (\<lambda>(x, lx). q x lx)) (ws @ s @ t) y"
  using reads_bind [OF reads_num, of ws s t Q q y] by simp

lemma bind_id:
  "spaces ws \<Longrightarrow> rcs_id s \<Longrightarrow> stop t \<Longrightarrow> reads_to Q (q s) t y \<Longrightarrow>
   reads_to Q (\<lambda>lx. bindE (want (rcslex_get_id lx)) (\<lambda>(x, lx). q x lx)) (ws @ s @ t) y"
  using reads_bind [OF reads_id, of ws s t Q q y] by simp

lemma bind_string:
  "spaces ws \<Longrightarrow> stop t \<Longrightarrow> reads_to Q (q (rcs_quote s, length (rcs_quote s))) t y \<Longrightarrow>
   reads_to Q (\<lambda>lx. bindE (want (rcslex_get_string lx)) (\<lambda>(x, lx). q x lx)) (ws @ ''@'' @ rcs_quote s @ ''@'' @ t) y"
  using reads_bind [OF reads_string, of ws t Q q s y] by simp

lemma bind_want_string:
  "spaces ws \<Longrightarrow> stop t \<Longrightarrow> reads_to Q (q \<lparr>tok_type = RCSLEX_STRING, tok_text = rcs_quote s\<rparr>) t y \<Longrightarrow>
   reads_to Q (\<lambda>lx. bindE (want (rcslex_want_string lx)) (\<lambda>(x, lx). q x lx)) (ws @ ''@'' @ rcs_quote s @ ''@'' @ t) y"
  using reads_bind [OF reads_want_string, of ws t Q q s y] by simp

section \<open>Deltas\<close>

lemma reads_sym: "spaces ws \<Longrightarrow> symbol s \<Longrightarrow> reads_to (after_sym s) (\<lambda>lx. want (rcslex_get lx)) (ws @ s) \<lparr>tok_type = RCSLEX_ID, tok_text = s\<rparr>"
  unfolding reads_to_def by (fastforce dest!: get_sym)

lemma reads_optional_Some:
  assumes "spaces ws" "symbol s" "valid \<lparr>tok_type = RCSLEX_ID, tok_text = s\<rparr>"
  shows "reads (parse_optional valid) (ws @ s @ '';'') (Some s)"
  unfolding reads_to_def
proof (intro allI impI)
  fix lx rest
  assume "lex_at lx ((ws @ s @ '';'') @ rest)" "stop rest"
  then obtain lx1 where 1: "rcslex_get lx = (lx1, Some \<lparr>tok_type = RCSLEX_ID, tok_text = s\<rparr>)" "after_sym s lx1 (CHR '';'' # rest)"
    using get_sym [of lx ws s "CHR '';'' # rest"] assms by auto
  then obtain lx2 where "rcslex_get lx1 = (lx2, Some \<lparr>tok_type = RCSLEX_SCOLON, tok_text = '';''\<rparr>)" "lex_at lx2 rest"
    using get_scolon [of lx1 "[]" rest] stopD [OF \<open>stop rest\<close>] by (auto simp: after_sym_def)
  with 1 assms(3) show "\<exists>lx1. parse_optional valid lx = Inr (Some s, lx1) \<and> lex_at lx1 rest"
    by (auto simp: parse_optional_def is_scolon_def rcslex_dup_def after_sym_def Let_def)
qed

lemma reads_optional_None: "spaces ws \<Longrightarrow> reads (parse_optional valid) (ws @ '';'') None"
  unfolding reads_to_def parse_optional_def by (auto simp: is_scolon_def dest!: get_scolon stopD)

lemma passes_branches:
  "\<forall>r \<in> set rs. rcs_num r \<Longrightarrow> passes parse_branches (concat (map (\<lambda>r. LF @ TAB @ r) rs) @ '';'')"
proof (induction rs)
  case Nil
  show ?case unfolding passes_def
    by (auto simp: parse_branches.simps dest!: get_scolon [where ws = "[]", simplified] stopD)
next
  case (Cons r rs)
  let ?rest = "concat (map (\<lambda>r. LF @ TAB @ r) rs) @ '';''"
  show ?case unfolding passes_def
  proof (intro allI impI)
    fix lx rest
    assume at: "lex_at lx ((concat (map (\<lambda>r. LF @ TAB @ r) (r # rs)) @ '';'') @ rest)" and "stop rest"
    have "stop (?rest @ rest)" by (cases rs) (auto simp: LF_def c_isspace_def)
    then obtain lx1 where "rcslex_get lx = (lx1, Some \<lparr>tok_type = RCSLEX_ID, tok_text = r\<rparr>)" "after_sym r lx1 (?rest @ rest)"
      using get_sym [of lx "LF @ TAB" r "?rest @ rest"] at Cons.prems rcs_num_symbol by auto
    then show "\<exists>lx1. parse_branches lx = Inr lx1 \<and> lex_at lx1 rest"
      using Cons \<open>stop rest\<close> unfolding passes_def by (subst parse_branches.simps) (auto simp: after_sym_def)
  qed
qed

text \<open>The phrases end at the next number or at the keyword.\<close>

lemma reads_phrases:
  "spaces ws \<Longrightarrow> symbol s \<Longrightarrow> s = kw \<or> rcs_num s \<Longrightarrow>
   reads_to (after_sym s) (parse_phrases kw) (ws @ s) \<lparr>tok_type = RCSLEX_ID, tok_text = s\<rparr>"
  unfolding reads_to_def
  by (subst parse_phrases.simps) (fastforce dest!: get_sym simp: rcstok_is_kw_def rcs_num_not_id)


record wdelta =
  w_rev :: string
  w_date :: string
  w_author :: string
  w_state :: "string option"
  w_branches :: "string list"
  w_next :: "string option"

definition wdelta_ok :: "wdelta \<Rightarrow> bool" where
  "wdelta_ok b \<longleftrightarrow> rcs_num (w_rev b) \<and> rcs_num (w_date b) \<and> rcs_id (w_author b) \<and> (\<forall>s \<in> set_option (w_state b). rcs_id s) \<and>
     (\<forall>r \<in> set (w_branches b). rcs_num r) \<and> (\<forall>n \<in> set_option (w_next b). rcs_num n)"

definition delta_body :: "wdelta \<Rightarrow> string" where
  "delta_body b = LF @ ''date'' @ TAB @ w_date b @ '';'' @ TAB @ ''author'' @ '' '' @ w_author b @ '';'' @ TAB @ ''state'' @
     (case w_state b of None \<Rightarrow> '';'' | Some s \<Rightarrow> '' '' @ s @ '';'') @ LF @ ''branches'' @
     (concat (map (\<lambda>r. LF @ TAB @ r) (w_branches b)) @ '';'') @ LF @ ''next'' @
     (case w_next b of None \<Rightarrow> TAB @ '';'' | Some n \<Rightarrow> TAB @ n @ '';'')"

lemma symbol_kws [simp]:
  "symbol ''head''" "symbol ''branch''" "symbol ''access''" "symbol ''symbols''" "symbol ''locks''" "symbol ''strict''"
  "symbol ''comment''" "symbol ''expand''" "symbol ''date''" "symbol ''author''" "symbol ''state''" "symbol ''branches''"
  "symbol ''next''" "symbol ''desc''" "symbol ''log''" "symbol ''text''"
  by (simp_all add: symbol_def id_char_def c_isspace_def)

lemma stop_ws [simp]: "stop (TAB @ s)" "stop (LF @ s)" "stop LF"
  by (simp_all add: TAB_def LF_def c_isspace_def)

lemma reads_state:
  assumes "\<forall>s \<in> set_option v. rcs_id s"
  shows "reads (parse_optional rcstok_validate_id) (case v of None \<Rightarrow> '';'' | Some s \<Rightarrow> '' '' @ s @ '';'') v"
proof (cases v)
  case None
  then show ?thesis using reads_optional_None [of "[]"] by simp
next
  case (Some s)
  then show ?thesis using assms reads_optional_Some [of "'' ''" s rcstok_validate_id] by (simp add: rcs_id_def)
qed

lemma reads_next:
  assumes "\<forall>s \<in> set_option v. rcs_num s"
  shows "reads (parse_optional rcstok_validate_num) (case v of None \<Rightarrow> TAB @ '';'' | Some n \<Rightarrow> TAB @ n @ '';'') v"
proof (cases v)
  case None
  then show ?thesis using reads_optional_None [of TAB] by simp
next
  case (Some s)
  then show ?thesis using assms reads_optional_Some [of TAB s rcstok_validate_num] by (simp add: rcs_num_symbol)
qed

lemma reads_delta:
  assumes b: "wdelta_ok b" and ws: "spaces ws" "stop ws" and s: "symbol s" "s = ''desc'' \<or> rcs_num s"
  shows "reads_to (after_sym s) parse_delta (delta_body b @ ws @ s)
    (w_date b, w_author b, w_state b, w_next b, \<lparr>tok_type = RCSLEX_ID, tok_text = s\<rparr>)"
proof -
  have ph: "reads_to (after_sym s) (\<lambda>lx. bindE (parse_phrases ''desc'' lx)
      (\<lambda>(tok, lx). Inr ((w_date b, w_author b, w_state b, w_next b, tok), lx))) (ws @ s)
      (w_date b, w_author b, w_state b, w_next b, \<lparr>tok_type = RCSLEX_ID, tok_text = s\<rparr>)"
    by (rule reads_return [OF reads_phrases]) (use ws s in auto)
  have st: "stop ((concat (map (\<lambda>r. LF @ TAB @ r) rs) @ '';'') @ t)" for rs t by (cases rs) (auto simp: LF_def c_isspace_def)
  have st2: "stop ((case v of None \<Rightarrow> '';'' | Some s \<Rightarrow> '' '' @ s @ '';'') @ t)"
    "stop ((case v of None \<Rightarrow> TAB @ '';'' | Some s \<Rightarrow> TAB @ s @ '';'') @ t)" for v t
    by (auto simp: c_isspace_def split: option.splits)
  have st3: "stop ('';'' @ t)" "stop ('' '' @ t)" "stop (ws @ t)" for t using ws stop_append by (simp_all add: c_isspace_def)
  have body: "delta_body b @ ws @ s = LF @ ''date'' @ TAB @ w_date b @ '';'' @ TAB @ ''author'' @ '' '' @ w_author b @ '';'' @ TAB @
     ''state'' @ (case w_state b of None \<Rightarrow> '';'' | Some s \<Rightarrow> '' '' @ s @ '';'') @ LF @ ''branches'' @
     (concat (map (\<lambda>r. LF @ TAB @ r) (w_branches b)) @ '';'') @ LF @ ''next'' @
     (case w_next b of None \<Rightarrow> TAB @ '';'' | Some n \<Rightarrow> TAB @ n @ '';'') @ ws @ s"
    by (simp add: delta_body_def)
  have w: "rcs_num (w_date b)" "rcs_id (w_author b)" "\<forall>s \<in> set_option (w_state b). rcs_id s"
    "\<forall>r \<in> set (w_branches b). rcs_num r" "\<forall>n \<in> set_option (w_next b). rcs_num n"
    using b by (auto simp: wdelta_ok_def)
  show ?thesis
    unfolding parse_delta_def body
    by (intro bind_kw bind_num bind_scolon bind_id reads_bind [OF reads_state [OF w(3)]] passes_bind [OF passes_branches [OF w(4)]]
        reads_bind [OF reads_next [OF w(5)]] ph w(1,2) st st2 st3 stop_ws spaces_simps symbol_kws)
qed


fun import_deltas :: "rcsfile \<Rightarrow> wdelta list \<Rightarrow> rerr + rcsfile" where
  "import_deltas rf [] = Inr rf"
| "import_deltas rf (b # bs) =
     bindE (rcsfile_importdelta rf (w_rev b) (w_date b) (w_author b) (w_state b) (w_next b)) (\<lambda>rf1. import_deltas rf1 bs)"

definition wdelta_text :: "wdelta \<Rightarrow> string" where
  "wdelta_text b = w_rev b @ delta_body b @ LF @ LF"

definition deltas_text :: "wdelta list \<Rightarrow> string" where
  "deltas_text bs = concat (map wdelta_text bs)"

lemma reads_deltas_loop:
  assumes "after_sym (w_rev b) lx (delta_body b @ LF @ LF @ deltas_text bs @ LF @ ''desc'' @ rest)" "stop rest"
    and "\<forall>b \<in> set (b # bs). wdelta_ok b" "import_deltas rf (b # bs) = Inr rf1"
  shows "\<exists>lx1. parse_deltas_loop rf \<lparr>tok_type = RCSLEX_ID, tok_text = w_rev b\<rparr> lx = Inr (rf1, lx1) \<and> lex_at lx1 (''desc'' @ rest)"
  using assms
proof (induction bs arbitrary: b rf lx)
  case Nil
  have b: "wdelta_ok b" and num: "rcs_num (w_rev b)" using Nil.prems(3) by (auto simp: wdelta_ok_def)
  have at: "lex_at lx ((delta_body b @ (LF @ LF @ LF) @ ''desc'') @ rest)"
    using Nil.prems(1) by (simp add: after_sym_def deltas_text_def)
  obtain lx1 where d: "parse_delta lx =
      Inr ((w_date b, w_author b, w_state b, w_next b, \<lparr>tok_type = RCSLEX_ID, tok_text = ''desc''\<rparr>), lx1)"
    "after_sym ''desc'' lx1 rest"
    using reads_toD [OF reads_delta [OF b] at Nil.prems(2)] by auto
  have "\<not> rcstok_validate_num \<lparr>tok_type = RCSLEX_ID, tok_text = ''desc''\<rparr>"
    by (simp add: rcstok_validate_num_def c_isdigit_def)
  then have "parse_deltas_loop rf2 \<lparr>tok_type = RCSLEX_ID, tok_text = ''desc''\<rparr> lx1 = Inr (rf2, rcslex_unget lx1)" for rf2
    by (simp add: parse_deltas_loop.simps)
  then show ?case using d Nil.prems(1,4) num
    by (subst parse_deltas_loop.simps) (auto simp: bindE_Inr after_sym_def rcslex_dup_def)
next
  case (Cons b2 bs)
  have b: "wdelta_ok b" and num: "rcs_num (w_rev b)" and num2: "rcs_num (w_rev b2)"
    using Cons.prems(3) by (auto simp: wdelta_ok_def)
  let ?rest = "delta_body b2 @ LF @ LF @ deltas_text bs @ LF @ ''desc'' @ rest"
  have at: "lex_at lx ((delta_body b @ (LF @ LF) @ w_rev b2) @ ?rest)"
    using Cons.prems(1) by (simp add: after_sym_def deltas_text_def wdelta_text_def)
  have "stop ?rest" by (simp add: delta_body_def)
  then obtain lx1 where d: "parse_delta lx =
      Inr ((w_date b, w_author b, w_state b, w_next b, \<lparr>tok_type = RCSLEX_ID, tok_text = w_rev b2\<rparr>), lx1)"
    "after_sym (w_rev b2) lx1 ?rest"
    using reads_toD [OF reads_delta [OF b] at] num2 rcs_num_symbol by auto
  obtain rf2 where rf2: "rcsfile_importdelta rf (w_rev b) (w_date b) (w_author b) (w_state b) (w_next b) = Inr rf2"
    "import_deltas rf2 (b2 # bs) = Inr rf1"
    using Cons.prems(4) by (auto simp: bindE_Inr)
  obtain lx2 where "parse_deltas_loop rf2 \<lparr>tok_type = RCSLEX_ID, tok_text = w_rev b2\<rparr> lx1 = Inr (rf1, lx2)" "lex_at lx2 (''desc'' @ rest)"
    using Cons.IH [OF d(2) Cons.prems(2) _ rf2(2)] Cons.prems(3) by auto
  then show ?case using d rf2(1) Cons.prems(1) num
    by (subst parse_deltas_loop.simps) (auto simp: after_sym_def rcslex_dup_def)
qed

lemma reads_deltas:
  assumes "bs \<noteq> []" "\<forall>b \<in> set bs. wdelta_ok b" "import_deltas rf bs = Inr rf1"
  shows "reads_to (\<lambda>lx rest. lex_at lx (''desc'' @ rest)) (parse_deltas rf) (deltas_text bs @ LF @ ''desc'') rf1"
  unfolding reads_to_def
proof (intro allI impI)
  fix lx rest
  assume at: "lex_at lx ((deltas_text bs @ LF @ ''desc'') @ rest)" and "stop rest"
  obtain b cs where bs: "bs = b # cs" using assms(1) by (cases bs) auto
  let ?rest = "delta_body b @ LF @ LF @ deltas_text cs @ LF @ ''desc'' @ rest"
  have num: "rcs_num (w_rev b)" using assms(2) by (auto simp: bs wdelta_ok_def)
  have "lex_at lx ([] @ w_rev b @ ?rest)" using at by (simp add: bs deltas_text_def wdelta_text_def)
  moreover have "stop ?rest" by (simp add: delta_body_def)
  ultimately obtain lx1 where "rcslex_get lx = (lx1, Some \<lparr>tok_type = RCSLEX_ID, tok_text = w_rev b\<rparr>)" "after_sym (w_rev b) lx1 ?rest"
    using get_sym [of lx "[]" "w_rev b" ?rest] rcs_num_symbol [OF num] by auto
  then show "\<exists>lx1. parse_deltas rf lx = Inr (rf1, lx1) \<and> lex_at lx1 (''desc'' @ rest)"
    using reads_deltas_loop [of b lx1 cs rest rf rf1] \<open>stop rest\<close> assms(2,3) by (simp add: parse_deltas_def bs)
qed

section \<open>The admin part\<close>

lemma reads_branch_None: "reads (parse_branch rf) (LF @ ''access'') (rf, \<lparr>tok_type = RCSLEX_ID, tok_text = ''access''\<rparr>)"
  unfolding reads_to_def
  by (auto dest!: get_sym [where ws = LF and s = "''access''", simplified]
      simp: parse_branch_def rcslex_want_id_def rcslex_want_def rcstok_is_kw_def after_sym_def)


lemma reads_branch_Some:
  assumes "rcs_num b"
  shows "reads (parse_branch rf) (LF @ ''branch'' @ TAB @ b @ '';'' @ LF @ ''access'')
    (rcsfile_setval rf RCSFILE_BRANCH b, \<lparr>tok_type = RCSLEX_ID, tok_text = ''access''\<rparr>)"
  unfolding reads_to_def
proof (intro allI impI)
  fix lx rest
  assume "lex_at lx ((LF @ ''branch'' @ TAB @ b @ '';'' @ LF @ ''access'') @ rest)" and r: "stop rest"
  then have "lex_at lx (LF @ ''branch'' @ TAB @ b @ '';'' @ LF @ ''access'' @ rest)" by simp
  then obtain lx1 where 1: "rcslex_get lx = (lx1, Some \<lparr>tok_type = RCSLEX_ID, tok_text = ''branch''\<rparr>)"
    "lex_at lx1 (TAB @ b @ '';'' @ LF @ ''access'' @ rest)"
    using get_sym [of lx LF "''branch''" "TAB @ b @ '';'' @ LF @ ''access'' @ rest"] by (auto simp: after_sym_def)
  have "reads (\<lambda>lx. bindE (want (rcslex_get_num lx)) (\<lambda>(num, lx2). bindE (want_scolon lx2) (\<lambda>lx3.
           case rcslex_get lx3 of (lx4, None) \<Rightarrow> Inl R_crash
           | (lx4, Some tok1) \<Rightarrow> Inr ((rcsfile_setval rf RCSFILE_BRANCH num, tok1), lx4))))
      (TAB @ b @ '';'' @ LF @ ''access'')
      (rcsfile_setval rf RCSFILE_BRANCH b, \<lparr>tok_type = RCSLEX_ID, tok_text = ''access''\<rparr>)"
  proof (intro bind_num bind_scolon)
    show "reads (\<lambda>lx. case rcslex_get lx of (lx4, None) \<Rightarrow> Inl R_crash
        | (lx4, Some tok1) \<Rightarrow> Inr ((rcsfile_setval rf RCSFILE_BRANCH b, tok1), lx4)) (LF @ ''access'')
        (rcsfile_setval rf RCSFILE_BRANCH b, \<lparr>tok_type = RCSLEX_ID, tok_text = ''access''\<rparr>)"
      unfolding reads_to_def
      by (auto dest!: get_sym [where ws = LF and s = "''access''", simplified] simp: after_sym_def)
  qed (use assms in \<open>auto simp: c_isspace_def\<close>)
  from reads_toD [OF this, of lx1 rest] 1 r
  show "\<exists>lx1. parse_branch rf lx = Inr ((rcsfile_setval rf RCSFILE_BRANCH b, \<lparr>tok_type = RCSLEX_ID, tok_text = ''access''\<rparr>), lx1) \<and> lex_at lx1 rest"
    by (simp add: parse_branch_def rcslex_want_id_def rcslex_want_def rcstok_is_kw_def)
qed

lemma reads_access: "reads (parse_access rf) '';'' rf"
  unfolding reads_to_def
  by (subst parse_access.simps) (auto dest!: get_scolon [where ws = "[]", simplified] stopD)

lemma passes_locks: "passes parse_locks '';''"
  unfolding passes_def
  by (subst parse_locks.simps) (auto dest!: get_scolon [where ws = "[]", simplified] stopD)

definition tags_text :: "(string \<times> string) list \<Rightarrow> string" where
  "tags_text tags = concat (map (\<lambda>(tag, revnum). LF @ TAB @ tag @ '':'' @ revnum) tags)"

lemma colon_num:
  assumes "lex_at lx (CHR '':'' # r @ rest)" "rcs_num r" "stop rest"
  shows "\<exists>lx1 lx2 t. rcslex_want_colon lx = (lx1, Some t) \<and> rcslex_get_num lx1 = (lx2, Some r) \<and> lex_at lx2 rest"
proof -
  have "r @ rest \<noteq> []" using assms(2) by (simp add: rcs_num_def)
  then obtain lx1 where 1: "rcslex_get lx = (lx1, Some \<lparr>tok_type = RCSLEX_COLON, tok_text = '':''\<rparr>)" "lex_at lx1 ([] @ r @ rest)"
    using lex_item [of lx "[]" Colon "r @ rest"] assms(1) by auto
  from reads_toD [OF reads_num, of "[]" r lx1 rest] assms(2,3) 1(2)
  obtain lx2 where "want (rcslex_get_num lx1) = Inr (r, lx2)" "lex_at lx2 rest" by auto
  with 1(1) show ?thesis by (auto simp: rcslex_want_colon_def rcslex_want_def want_Inr)
qed

lemma reads_symbols:
  "\<forall>(t, r) \<in> set tags. symbol t \<and> rcs_num r \<Longrightarrow>
   reads (parse_symbols rf) (tags_text tags @ '';'') (rf\<lparr>rf_tags := rf_tags rf @ tags\<rparr>)"
proof (induction tags arbitrary: rf)
  case Nil
  show ?case unfolding reads_to_def
    by (subst parse_symbols.simps) (auto simp: tags_text_def dest!: get_scolon [where ws = "[]", simplified] stopD)
next
  case (Cons p tags)
  obtain t r where p: "p = (t, r)" by (cases p)
  have tr: "symbol t" "rcs_num r" using Cons.prems by (auto simp: p)
  show ?case unfolding reads_to_def
  proof (intro allI impI)
    fix lx rest
    assume at: "lex_at lx ((tags_text (p # tags) @ '';'') @ rest)" and "stop rest"
    let ?rest = "(tags_text tags @ '';'') @ rest"
    have s: "stop ?rest" by (cases tags) (auto simp: tags_text_def LF_def c_isspace_def)
    obtain lx1 where 1: "rcslex_get lx = (lx1, Some \<lparr>tok_type = RCSLEX_ID, tok_text = t\<rparr>)" "after_sym t lx1 (CHR '':'' # r @ ?rest)"
      using get_sym [of lx "LF @ TAB" t "CHR '':'' # r @ ?rest"] at tr by (auto simp: tags_text_def p)
    then obtain lx2 lx3 c where "rcslex_want_colon lx1 = (lx2, Some c)" "rcslex_get_num lx2 = (lx3, Some r)" "lex_at lx3 ?rest"
      using colon_num [of lx1 r ?rest] tr(2) s by (auto simp: after_sym_def)
    moreover have "fst (rcslex_dup lx1) = t" using 1(2) by (simp add: rcslex_dup_def after_sym_def)
    moreover have "\<forall>(t, r) \<in> set tags. symbol t \<and> rcs_num r" using Cons.prems by simp
    ultimately obtain lx4 where "parse_symbols rf lx = Inr ((rcsfile_importtag rf t r)\<lparr>rf_tags := rf_tags (rcsfile_importtag rf t r) @ tags\<rparr>, lx4)"
      "lex_at lx4 rest"
      using reads_toD [OF Cons.IH, of lx3 rest] 1(1) \<open>stop rest\<close> by (auto simp: parse_symbols.simps [of rf lx])
    then show "\<exists>lx1. parse_symbols rf lx = Inr (rf\<lparr>rf_tags := rf_tags rf @ p # tags\<rparr>, lx1) \<and> lex_at lx1 rest"
      by (simp add: rcsfile_importtag_def p)
  qed
qed


text \<open>The options: each phrase is read, and the number behind them is put back.\<close>

abbreviation opts_end :: "string \<Rightarrow> rcslex \<Rightarrow> string \<Rightarrow> bool" where
  "opts_end s \<equiv> (\<lambda>lx rest. lex_at lx (s @ rest))"

lemma reads_options_end:
  "spaces ws \<Longrightarrow> rcs_num s \<Longrightarrow> reads_to (opts_end s) (parse_options rf) (ws @ s) rf"
  unfolding reads_to_def
proof (intro allI impI)
  fix lx rest
  assume ws: "spaces ws" and s: "rcs_num s" and at: "lex_at lx ((ws @ s) @ rest)" and "stop rest"
  then obtain lx1 where "rcslex_get lx = (lx1, Some \<lparr>tok_type = RCSLEX_ID, tok_text = s\<rparr>)" "after_sym s lx1 rest"
    using get_sym [of lx ws s rest] rcs_num_symbol by auto
  moreover have "s \<noteq> ''strict''" "s \<noteq> ''comment''" "s \<noteq> ''expand''" using s by (auto simp: rcs_num_def c_isdigit_def)
  ultimately show "\<exists>lx1. parse_options rf lx = Inr (rf, lx1) \<and> lex_at lx1 (s @ rest)"
    using s by (subst parse_options.simps) (auto simp: rcstok_is_kw_def rcs_num_not_id after_sym_def)
qed

lemma reads_option:
  assumes "spaces ws" "symbol kw" "reads_to Q p t y" "stop t"
    and "\<And>lx lx1. rcslex_get lx = (lx1, Some \<lparr>tok_type = RCSLEX_ID, tok_text = kw\<rparr>) \<Longrightarrow> parse_options rf lx = p lx1"
  shows "reads_to Q (parse_options rf) (ws @ kw @ t) y"
  unfolding reads_to_def
proof (intro allI impI)
  fix lx rest
  assume at: "lex_at lx ((ws @ kw @ t) @ rest)" and "stop rest"
  then obtain lx1 where 1: "rcslex_get lx = (lx1, Some \<lparr>tok_type = RCSLEX_ID, tok_text = kw\<rparr>)" "after_sym kw lx1 (t @ rest)"
    using get_sym [of lx ws kw "t @ rest"] assms(1,2) stop_append [OF assms(4)] by auto
  then show "\<exists>lx1. parse_options rf lx = Inr (y, lx1) \<and> Q lx1 rest"
    using reads_toD [OF assms(3) _ \<open>stop rest\<close>] assms(5) [OF 1(1)] by (simp add: after_sym_def)
qed

lemma option_strict:
  assumes "spaces ws" "stop t" "reads_to Q (parse_options (rcsfile_setstrict rf)) t y"
  shows "reads_to Q (parse_options rf) (ws @ ''strict'' @ '';'' @ t) y"
proof (rule reads_option [OF assms(1)])
  show "reads_to Q (\<lambda>lx. bindE (want_scolon lx) (\<lambda>lx. parse_options (rcsfile_setstrict rf) lx)) ('';'' @ t) y"
    by (rule bind_scolon [OF assms(2,3)])
qed (auto simp: parse_options.simps [of rf] rcstok_is_kw_def)

lemma option_comment:
  assumes "spaces ws" "stop t" "reads_to Q (parse_options (rcsfile_setval rf RCSFILE_COMMENT (rcs_quote c))) t y"
  shows "reads_to Q (parse_options rf) (ws @ ''comment'' @ TAB @ ''@'' @ rcs_quote c @ ''@'' @ '';'' @ t) y"
proof (rule reads_option [OF assms(1)])
  let ?rf = "rcsfile_setval rf RCSFILE_COMMENT (rcs_quote c)"
  have "reads (\<lambda>lx. bindE (want (rcslex_get_string lx)) (\<lambda>(sl, lx1).
      bindE (want_scolon lx1) (\<lambda>lx2. Inr (rcsfile_setval rf RCSFILE_COMMENT (fst sl), lx2))))
      (TAB @ ''@'' @ rcs_quote c @ ''@'' @ '';'') ?rf"
    by (rule bind_string) (use passes_bind_last [OF passes_scolon] in auto)
  then have "reads (parse_comment rf) (TAB @ ''@'' @ rcs_quote c @ ''@'' @ '';'') ?rf"
    by (simp add: parse_comment_def [abs_def] case_prod_beta')
  from reads_bind [OF this assms(2), of Q parse_options y] assms(3)
  show "reads_to Q (\<lambda>lx. bindE (parse_comment rf lx) (\<lambda>(rf1, lx2). parse_options rf1 lx2)) (TAB @ ''@'' @ rcs_quote c @ ''@'' @ '';'' @ t) y"
    by simp
qed (auto simp: parse_options.simps [of rf] rcstok_is_kw_def)


lemma encoded_mode:
  assumes "keyword_encode_expand e = Some s"
  shows "rcs_quote s = s" "takeWhile (\<lambda>c. c \<noteq> CHR 0x00) s = s" "keyword_decode_expand s = e" "e \<noteq> -1"
proof -
  show "keyword_decode_expand s = e" by (rule expand_code_roundtrip [OF assms])
  have "e \<in> {0, 1, 2, 3, 4, 5, 6} \<and> s \<in> {''.'', ''kv'', ''kvl'', ''k'', ''o'', ''b'', ''v''}"
    using assms by (simp add: keyword_encode_expand_def split: if_split_asm)
  then show "e \<noteq> -1" "rcs_quote s = s" "takeWhile (\<lambda>c. c \<noteq> CHR 0x00) s = s" by auto
qed

lemma option_expand:
  assumes "spaces ws" "stop t" "keyword_encode_expand e = Some s" "reads_to Q (parse_options (rcsfile_setexpand rf e)) t y"
  shows "reads_to Q (parse_options rf) (ws @ ''expand'' @ TAB @ ''@'' @ s @ ''@'' @ '';'' @ t) y"
proof (rule reads_option [OF assms(1)])
  note m = encoded_mode [OF assms(3)]
  have "reads (\<lambda>lx. bindE (want (rcslex_get_string lx)) (\<lambda>(sl, lx1).
      let expand = keyword_decode_expand (takeWhile (\<lambda>c. c \<noteq> CHR 0x00) (fst sl))
      in if expand = -1 then Inl R_error else bindE (want_scolon lx1) (\<lambda>lx2. Inr (rcsfile_setexpand rf expand, lx2))))
      (TAB @ ''@'' @ rcs_quote s @ ''@'' @ '';'') (rcsfile_setexpand rf e)"
  proof (rule bind_string)
    show "reads (\<lambda>lx1. let expand = keyword_decode_expand (takeWhile (\<lambda>c. c \<noteq> CHR 0x00) (fst (rcs_quote s, length (rcs_quote s))))
        in if expand = -1 then Inl R_error else bindE (want_scolon lx1) (\<lambda>lx2. Inr (rcsfile_setexpand rf expand, lx2)))
        '';'' (rcsfile_setexpand rf e)"
      using passes_bind_last [OF passes_scolon, of "rcsfile_setexpand rf e"] m(4) unfolding fst_conv m(1) m(2) m(3) by simp
  qed simp_all
  then have "reads (parse_expand rf) (TAB @ ''@'' @ s @ ''@'' @ '';'') (rcsfile_setexpand rf e)"
    unfolding parse_expand_def [abs_def] case_prod_beta' m(1) .
  from reads_bind [OF this assms(2), of Q parse_options y] assms(4)
  show "reads_to Q (\<lambda>lx. bindE (parse_expand rf lx) (\<lambda>(rf1, lx2). parse_options rf1 lx2)) (TAB @ ''@'' @ s @ ''@'' @ '';'' @ t) y"
    by simp
qed (auto simp: parse_options.simps [of rf] rcstok_is_kw_def)

definition admin_ok :: "rcsfile \<Rightarrow> bool" where
  "admin_ok rf \<longleftrightarrow> (\<forall>b \<in> set_option (rf_branch rf). rcs_num b) \<and> (\<forall>(t, r) \<in> set (rf_tags rf). symbol t \<and> rcs_num r) \<and>
     (\<forall>c \<in> set_option (rf_comment rf). \<exists>s. c = rcs_quote s)"

definition set_options :: "rcsfile \<Rightarrow> rcsfile \<Rightarrow> rcsfile" where
  "set_options rf rf0 =
     (let rf1 = (if rf_strict rf then rcsfile_setstrict rf0 else rf0);
          rf2 = (case rf_comment rf of None \<Rightarrow> rf1 | Some c \<Rightarrow> rcsfile_setval rf1 RCSFILE_COMMENT c)
      in if rf_expand rf = EXPAND_DEFAULT then rf2 else rcsfile_setexpand rf2 (rf_expand rf))"

definition set_admin :: "rcsfile \<Rightarrow> string \<Rightarrow> rcsfile \<Rightarrow> rcsfile" where
  "set_admin rf head rf0 =
     (let rf1 = rcsfile_setval rf0 RCSFILE_HEAD head;
          rf2 = (case rf_branch rf of None \<Rightarrow> rf1 | Some b \<Rightarrow> rcsfile_setval rf1 RCSFILE_BRANCH b)
      in set_options rf (rf2\<lparr>rf_tags := rf_tags rf2 @ rf_tags rf\<rparr>))"

definition options_text :: "rcsfile \<Rightarrow> string \<Rightarrow> string" where
  "options_text rf e = (if rf_strict rf then '' '' @ ''strict'' @ '';'' else []) @
     (case rf_comment rf of None \<Rightarrow> [] | Some c \<Rightarrow> LF @ ''comment'' @ TAB @ ''@'' @ c @ ''@'' @ '';'') @
     (if rf_expand rf \<noteq> EXPAND_DEFAULT then LF @ ''expand'' @ TAB @ ''@'' @ e @ ''@'' @ '';'' else []) @ LF @ LF @ LF"

lemma reads_options:
  assumes "admin_ok rf" "rf_expand rf \<noteq> EXPAND_DEFAULT \<Longrightarrow> keyword_encode_expand (rf_expand rf) = Some e" "rcs_num s"
  shows "reads_to (opts_end s) (parse_options rf0) (options_text rf e @ s) (set_options rf rf0)"
proof -
  let ?ex = "if rf_expand rf \<noteq> EXPAND_DEFAULT then LF @ ''expand'' @ TAB @ ''@'' @ e @ ''@'' @ '';'' else []"
  let ?co = "case rf_comment rf of None \<Rightarrow> [] | Some c \<Rightarrow> LF @ ''comment'' @ TAB @ ''@'' @ c @ ''@'' @ '';''"
  let ?u = "\<lambda>r. if rf_expand rf = EXPAND_DEFAULT then r else rcsfile_setexpand r (rf_expand rf)"
  have 1: "reads_to (opts_end s) (parse_options r) (?ex @ (LF @ LF @ LF) @ s) (?u r)" for r
  proof (cases "rf_expand rf = EXPAND_DEFAULT")
    case True
    then show ?thesis using reads_options_end [of "LF @ LF @ LF" s r] assms(3) by simp
  next
    case False
    have "reads_to (opts_end s) (parse_options r) (LF @ ''expand'' @ TAB @ ''@'' @ e @ ''@'' @ '';'' @ (LF @ LF @ LF) @ s)
        (rcsfile_setexpand r (rf_expand rf))"
      by (rule option_expand [OF _ _ assms(2) [OF False] reads_options_end]) (use assms(3) in auto)
    then show ?thesis using False by simp
  qed
  have stop1: "stop (?ex @ (LF @ LF @ LF) @ t)" "stop (?co @ ?ex @ (LF @ LF @ LF) @ t)" for t
    by (auto split: option.splits)
  have 2: "reads_to (opts_end s) (parse_options r) (?co @ ?ex @ (LF @ LF @ LF) @ s)
      (?u (case rf_comment rf of None \<Rightarrow> r | Some c \<Rightarrow> rcsfile_setval r RCSFILE_COMMENT c))" for r
  proof (cases "rf_comment rf")
    case None
    show ?thesis using 1 [of r] unfolding None option.case append_Nil .
  next
    case (Some c)
    then obtain q where c: "c = rcs_quote q" using assms(1) by (auto simp: admin_ok_def)
    have "reads_to (opts_end s) (parse_options r) (LF @ ''comment'' @ TAB @ ''@'' @ rcs_quote q @ ''@'' @ '';'' @ ?ex @ (LF @ LF @ LF) @ s)
        (?u (rcsfile_setval r RCSFILE_COMMENT (rcs_quote q)))"
      by (rule option_comment [OF _ stop1(1) 1]) simp
    then show ?thesis unfolding Some c option.case append.assoc .
  qed
  show ?thesis
  proof (cases "rf_strict rf")
    case False
    show ?thesis using 2 [of rf0] False unfolding options_text_def set_options_def Let_def append.assoc
      by (simp only: if_False append_Nil)
  next
    case True
    have "reads_to (opts_end s) (parse_options rf0) ('' '' @ ''strict'' @ '';'' @ ?co @ ?ex @ (LF @ LF @ LF) @ s)
        (?u (case rf_comment rf of None \<Rightarrow> rcsfile_setstrict rf0 | Some c \<Rightarrow> rcsfile_setval (rcsfile_setstrict rf0) RCSFILE_COMMENT c))"
      by (rule option_strict [OF _ stop1(2) 2]) simp
    then show ?thesis using True unfolding options_text_def set_options_def Let_def append.assoc
      by (simp only: if_True append.assoc)
  qed
qed


lemma reads_branch:
  assumes "\<forall>b \<in> set_option br. rcs_num b"
  shows "reads (parse_branch rf) ((case br of None \<Rightarrow> [] | Some b \<Rightarrow> LF @ ''branch'' @ TAB @ b @ '';'') @ LF @ ''access'')
    (case br of None \<Rightarrow> rf | Some b \<Rightarrow> rcsfile_setval rf RCSFILE_BRANCH b, \<lparr>tok_type = RCSLEX_ID, tok_text = ''access''\<rparr>)"
proof (cases br)
  case None
  then show ?thesis using reads_branch_None by simp
next
  case (Some b)
  then show ?thesis using reads_branch_Some [of b rf] assms by simp
qed

definition admin_lines :: "rcsfile \<Rightarrow> string \<Rightarrow> string \<Rightarrow> string" where
  "admin_lines rf head e = ''head'' @ TAB @ head @ '';'' @
     ((case rf_branch rf of None \<Rightarrow> [] | Some b \<Rightarrow> LF @ ''branch'' @ TAB @ b @ '';'') @ LF @ ''access'') @ '';'' @
     LF @ ''symbols'' @ (tags_text (rf_tags rf) @ '';'') @ LF @ ''locks'' @ '';'' @ options_text rf e"

lemma reads_admin:
  assumes ok: "admin_ok rf" "rf_expand rf \<noteq> EXPAND_DEFAULT \<Longrightarrow> keyword_encode_expand (rf_expand rf) = Some e"
    and s: "rcs_num s" "rcs_num head"
  shows "reads_to (opts_end s) (parse_admin rf0) (admin_lines rf head e @ s) (set_admin rf head rf0)"
proof -
  have b: "\<forall>b \<in> set_option (rf_branch rf). rcs_num b" and t: "\<forall>(t, r) \<in> set (rf_tags rf). symbol t \<and> rcs_num r"
    using ok(1) by (auto simp: admin_ok_def)
  have st: "stop ('';'' @ t)" "stop ((tags_text tags @ '';'') @ t)" "stop (options_text rf e @ t)"
    "stop (((case br of None \<Rightarrow> [] | Some b \<Rightarrow> LF @ ''branch'' @ TAB @ b @ '';'') @ LF @ ''access'') @ t)" for t tags br
    by (cases tags; auto simp: tags_text_def options_text_def LF_def c_isspace_def split: option.splits)+
  have kw: "rcstok_is_kw \<lparr>tok_type = RCSLEX_ID, tok_text = ''access''\<rparr> ''access'' = True" by (simp add: rcstok_is_kw_def)
  have lines: "admin_lines rf head e @ s = [] @ ''head'' @ TAB @ head @ '';'' @
     ((case rf_branch rf of None \<Rightarrow> [] | Some b \<Rightarrow> LF @ ''branch'' @ TAB @ b @ '';'') @ LF @ ''access'') @ '';'' @
     LF @ ''symbols'' @ (tags_text (rf_tags rf) @ '';'') @ LF @ ''locks'' @ '';'' @ (options_text rf e @ s)"
    unfolding admin_lines_def append.assoc append_Nil ..
  let ?rf1 = "case rf_branch rf of None \<Rightarrow> rcsfile_setval rf0 RCSFILE_HEAD head
    | Some b \<Rightarrow> rcsfile_setval (rcsfile_setval rf0 RCSFILE_HEAD head) RCSFILE_BRANCH b"
  have tail: "reads_to (opts_end s) (\<lambda>lx. if \<not> rcstok_is_kw \<lparr>tok_type = RCSLEX_ID, tok_text = ''access''\<rparr> ''access'' then Inl R_error
      else bindE (parse_access ?rf1 lx) (\<lambda>(rf, lx). bindE (want_kw lx ''symbols'') (\<lambda>lx.
        bindE (parse_symbols rf lx) (\<lambda>(rf, lx). bindE (want_kw lx ''locks'') (\<lambda>lx.
        bindE (parse_locks lx) (\<lambda>lx. parse_options rf lx))))))
      ('';'' @ LF @ ''symbols'' @ (tags_text (rf_tags rf) @ '';'') @ LF @ ''locks'' @ '';'' @ (options_text rf e @ s)) (set_admin rf head rf0)"
    unfolding kw not_True_eq_False if_False set_admin_def Let_def
    by (intro reads_bind [OF reads_access] bind_kw reads_bind [OF reads_symbols [OF t]] passes_bind [OF passes_locks]
        reads_options [OF ok s(1)] st stop_ws spaces_simps symbol_kws)
  have "reads_to (opts_end s) (\<lambda>lx. bindE (parse_branch (rcsfile_setval rf0 RCSFILE_HEAD head) lx) (\<lambda>(x, lx). (case x of (rf, tok) \<Rightarrow>
      \<lambda>lx. if \<not> rcstok_is_kw tok ''access'' then Inl R_error
      else bindE (parse_access rf lx) (\<lambda>(rf, lx). bindE (want_kw lx ''symbols'') (\<lambda>lx.
        bindE (parse_symbols rf lx) (\<lambda>(rf, lx). bindE (want_kw lx ''locks'') (\<lambda>lx.
        bindE (parse_locks lx) (\<lambda>lx. parse_options rf lx)))))) lx))
      (((case rf_branch rf of None \<Rightarrow> [] | Some b \<Rightarrow> LF @ ''branch'' @ TAB @ b @ '';'') @ LF @ ''access'') @ '';'' @
       LF @ ''symbols'' @ (tags_text (rf_tags rf) @ '';'') @ LF @ ''locks'' @ '';'' @ (options_text rf e @ s)) (set_admin rf head rf0)"
    by (rule reads_bind [OF reads_branch [OF b]]) (use st tail in auto)
  then have br: "reads_to (opts_end s) (\<lambda>lx. bindE (parse_branch (rcsfile_setval rf0 RCSFILE_HEAD head) lx) (\<lambda>((rf, tok), lx).
      if \<not> rcstok_is_kw tok ''access'' then Inl R_error
      else bindE (parse_access rf lx) (\<lambda>(rf, lx). bindE (want_kw lx ''symbols'') (\<lambda>lx.
        bindE (parse_symbols rf lx) (\<lambda>(rf, lx). bindE (want_kw lx ''locks'') (\<lambda>lx.
        bindE (parse_locks lx) (\<lambda>lx. parse_options rf lx)))))))
      (((case rf_branch rf of None \<Rightarrow> [] | Some b \<Rightarrow> LF @ ''branch'' @ TAB @ b @ '';'') @ LF @ ''access'') @ '';'' @
       LF @ ''symbols'' @ (tags_text (rf_tags rf) @ '';'') @ LF @ ''locks'' @ '';'' @ (options_text rf e @ s)) (set_admin rf head rf0)"
    by (simp add: case_prod_beta')
  show ?thesis unfolding parse_admin_def [abs_def] lines
    by (intro bind_kw bind_num bind_scolon br s(2) st stop_ws spaces_simps symbol_kws)
qed

section \<open>Texts\<close>

type_synonym wtext = "string \<times> string \<times> string"

fun wtext_text :: "wtext \<Rightarrow> string" where
  "wtext_text (r, l, t) = LF @ LF @ LF @ r @ LF @ ''log'' @ LF @ ''@'' @ l @ ''@'' @ LF @ ''text'' @ LF @ ''@'' @ t @ ''@''"

fun wtext_ok :: "wtext \<Rightarrow> bool" where
  "wtext_ok (r, l, t) \<longleftrightarrow> rcs_num r \<and> (\<exists>s. l = rcs_quote s) \<and> (\<exists>s. t = rcs_quote s)"

fun add_texts :: "rcsfile \<Rightarrow> wtext list \<Rightarrow> rerr + rcsfile" where
  "add_texts rf [] = Inr rf"
| "add_texts rf ((r, l, t) # ts) =
     (case rcsfile_getdelta rf r of
        None \<Rightarrow> Inr rf
      | Some i \<Rightarrow>
          bindE (get_delta rf i) (\<lambda>d.
            let rf1 = set_delta rf i (rcsdelta_addlog d l)
            in bindE (get_delta rf1 i) (\<lambda>d. add_texts (set_delta rf1 i (rcsdelta_addtext d t)) ts)))"

lemma get_set_delta [simp]: "get_delta (set_delta rf i d) i = Inr d"
  by (simp add: get_delta_def set_delta_def)

lemma reads_deltatext:
  assumes "get_delta rf i = Inr d"
  shows "reads (parse_deltatext rf i) (LF @ ''log'' @ LF @ ''@'' @ rcs_quote l @ ''@'' @ LF @ ''text'' @ LF @ ''@'' @ rcs_quote t @ ''@'')
    (set_delta (set_delta rf i (rcsdelta_addlog d (rcs_quote l))) i (rcsdelta_addtext (rcsdelta_addlog d (rcs_quote l)) (rcs_quote t)))"
proof -
  let ?d1 = "rcsdelta_addlog d (rcs_quote l)"
  let ?rf1 = "set_delta rf i ?d1"
  let ?rf2 = "set_delta ?rf1 i (rcsdelta_addtext ?d1 (rcs_quote t))"
  have str: "reads (\<lambda>lx. bindE (want (rcslex_want_string lx)) (\<lambda>(tok, lx).
       bindE (get_delta ?rf1 i) (\<lambda>d. Inr (set_delta ?rf1 i (rcsdelta_addtext d (tok_text tok)), lx)))) (LF @ ''@'' @ rcs_quote t @ ''@'') ?rf2"
    using reads_return [OF reads_want_string [of LF t], of "\<lambda>tok. set_delta ?rf1 i (rcsdelta_addtext ?d1 (tok_text tok))"] by simp
  have "reads (\<lambda>lx. bindE (parse_phrases ''text'' lx) (\<lambda>(tok, lx). if \<not> rcstok_is_kw tok ''text'' then Inl R_error
     else bindE (want (rcslex_want_string lx)) (\<lambda>(tok, lx).
       bindE (get_delta ?rf1 i) (\<lambda>d. Inr (set_delta ?rf1 i (rcsdelta_addtext d (tok_text tok)), lx)))))
     ((LF @ ''text'') @ LF @ ''@'' @ rcs_quote t @ ''@'') ?rf2"
  proof (rule reads_bind [where x = "\<lparr>tok_type = RCSLEX_ID, tok_text = ''text''\<rparr>"])
    show "reads (parse_phrases ''text'') (LF @ ''text'') \<lparr>tok_type = RCSLEX_ID, tok_text = ''text''\<rparr>"
      using reads_phrases [of LF "''text''" "''text''"] by (fastforce simp: reads_to_def after_sym_def)
  qed (use str in \<open>auto simp: rcstok_is_kw_def\<close>)
  then have ph: "reads (\<lambda>lx. bindE (parse_phrases ''text'' lx) (\<lambda>(tok, lx). if \<not> rcstok_is_kw tok ''text'' then Inl R_error
     else bindE (want (rcslex_want_string lx)) (\<lambda>(tok, lx).
       bindE (get_delta ?rf1 i) (\<lambda>d. Inr (set_delta ?rf1 i (rcsdelta_addtext d (tok_text tok)), lx)))))
     (LF @ ''text'' @ LF @ ''@'' @ rcs_quote t @ ''@'') ?rf2"
    by simp
  show ?thesis unfolding parse_deltatext_def [abs_def] Let_def assms bindE.simps
    by (intro bind_kw bind_want_string stop_ws spaces_simps symbol_kws) (unfold rcstok.simps, rule ph)
qed


text \<open>The texts up to the end of the file.\<close>

lemma reads_deltatexts:
  assumes "lex_at lx (concat (map wtext_text ts) @ LF)" "\<forall>t \<in> set ts. wtext_ok t" "add_texts rf ts = Inr rf1"
  shows "\<exists>lx1. parse_deltatexts rf lx = Inr (rf1, lx1)"
  using assms
proof (induction ts arbitrary: rf lx)
  case Nil
  then have "rcslex_get lx = (lx\<lparr>lexeof := True\<rparr>, None)" by (intro lex_end [of lx LF]) (auto simp: LF_def c_isspace_def)
  then show ?case using Nil.prems(3)
    by (subst parse_deltatexts.simps) (simp add: rcslex_get_num_def rcslex_want_def rcslex_eof_def)
next
  case (Cons x ts)
  obtain r l t where x: "x = (r, l, t)" by (cases x)
  obtain a b where ok: "rcs_num r" "l = rcs_quote a" "t = rcs_quote b" using Cons.prems(2) by (auto simp: x)
  let ?body = "LF @ ''log'' @ LF @ ''@'' @ rcs_quote a @ ''@'' @ LF @ ''text'' @ LF @ ''@'' @ rcs_quote b @ ''@''"
  let ?rest = "concat (map wtext_text ts) @ LF"
  have "lex_at lx (((LF @ LF @ LF) @ r) @ ?body @ ?rest)" using Cons.prems(1) by (simp add: x ok)
  from reads_toD [OF reads_num [OF _ ok(1)] this]
  obtain lx1 where 1: "rcslex_get_num lx = (lx1, Some r)" "lex_at lx1 (?body @ ?rest)" by (auto simp: want_Inr)
  show ?case
  proof (cases "rcsfile_getdelta rf r")
    case None
    then show ?thesis using 1(1) Cons.prems(3) by (subst parse_deltatexts.simps) (simp add: x)
  next
    case (Some i)
    then obtain d where d: "get_delta rf i = Inr d" using Cons.prems(3) by (auto simp: x bindE_Inr Let_def)
    let ?rf2 = "set_delta (set_delta rf i (rcsdelta_addlog d l)) i (rcsdelta_addtext (rcsdelta_addlog d l) t)"
    have "stop ?rest" by (cases ts; cases "hd ts") (auto simp: LF_def c_isspace_def)
    then obtain lx2 where 2: "parse_deltatext rf i lx1 = Inr (?rf2, lx2)" "lex_at lx2 ?rest"
      using reads_toD [OF reads_deltatext [OF d] 1(2)] ok by auto
    obtain lx3 where "parse_deltatexts ?rf2 lx2 = Inr (rf1, lx3)"
      using Cons.IH [OF 2(2), of ?rf2] Cons.prems(2,3) Some d by (auto simp: x Let_def)
    then show ?thesis using 1(1) 2(1) Some by (subst parse_deltatexts.simps) simp
  qed
qed

section \<open>What is written\<close>

definition wdelta_of :: "rcsfile \<Rightarrow> nat \<Rightarrow> delta \<Rightarrow> rerr + wdelta" where
  "wdelta_of rf i d =
     bindE (from_option R_crash (d_revdate d)) (\<lambda>revdate.
     bindE (from_option R_crash (d_author d)) (\<lambda>author.
     bindE (mapE (rev_num rf) (rev (branch_heads d))) (\<lambda>brs.
     bindE (case next_delta rf i of None \<Rightarrow> Inr None | Some j \<Rightarrow> bindE (rev_num rf j) (\<lambda>r. Inr (Some r))) (\<lambda>nxt.
       Inr \<lparr>w_rev = d_revnum d, w_date = revdate, w_author = author, w_state = d_state d, w_branches = brs, w_next = nxt\<rparr>))))"

fun wdeltas :: "nat \<Rightarrow> rcsfile \<Rightarrow> nat list \<Rightarrow> rerr + wdelta list" where
  "wdeltas n rf [] = Inr []"
| "wdeltas 0 rf (i # st) = Inl R_loop"
| "wdeltas (Suc n) rf (i # st) =
     bindE (get_delta rf i) (\<lambda>d.
       if d_placeholder d then wdeltas n rf st
       else bindE (wdelta_of rf i d) (\<lambda>b. bindE (wdeltas n rf (pushed rf i d @ st)) (\<lambda>bs. Inr (b # bs))))"

fun wtexts :: "nat \<Rightarrow> nat \<Rightarrow> (string \<Rightarrow> string option) \<Rightarrow> rcsfile \<Rightarrow> (nat \<times> nat option) list \<Rightarrow> rerr + wtext list" where
  "wtexts n m fmtdate rf [] = Inr []"
| "wtexts 0 m fmtdate rf (p # st) = Inl R_loop"
| "wtexts (Suc n) m fmtdate rf ((i, prev) # st) =
     bindE (get_delta rf i) (\<lambda>d.
       if d_placeholder d then Inr []
       else bindE (rcsfile_puttext m fmtdate rf i prev) (\<lambda>t.
            bindE (pushed_texts rf i d) (\<lambda>new.
            bindE (wtexts n m fmtdate rf (map (\<lambda>j. (j, Some i)) new @ st)) (\<lambda>ts. Inr ((d_revnum d, d_log d, t) # ts)))))"

lemma delta_text_wdelta: "delta_text rf i d = bindE (wdelta_of rf i d) (\<lambda>b. Inr (wdelta_text b))"
proof (cases "d_revdate d")
  case (Some a)
  then show ?thesis
    by (cases "d_author d"; cases "mapE (rev_num rf) (rev (branch_heads d))"; cases "next_delta rf i"; cases "rev_num rf (the (next_delta rf i))")
      (auto simp: delta_text_def wdelta_of_def wdelta_text_def delta_body_def split: option.splits)
qed (simp add: delta_text_def wdelta_of_def)

lemma write_deltas_wdeltas: "write_deltas n rf st = bindE (wdeltas n rf st) (\<lambda>bs. Inr (deltas_text bs))"
proof (induction n rf st rule: write_deltas.induct)
  case (3 n rf i st)
  show ?case
  proof (cases "get_delta rf i")
    case (Inr d)
    then show ?thesis
      using 3 by (cases "wdelta_of rf i d"; cases "wdeltas n rf (pushed rf i d @ st)") (auto simp: delta_text_wdelta deltas_text_def)
  qed simp
qed (simp_all add: deltas_text_def)

lemma write_deltatexts_wtexts:
  "write_deltatexts n m fmtdate rf st = bindE (wtexts n m fmtdate rf st) (\<lambda>ts. Inr (concat (map wtext_text ts)))"
proof (induction n m fmtdate rf st rule: write_deltatexts.induct)
  case (3 n m fmtdate rf i prev st)
  show ?case
  proof (cases "get_delta rf i")
    case (Inr d)
    show ?thesis
    proof (cases "d_placeholder d")
      case False
      then show ?thesis using 3 Inr
        by (cases "rcsfile_puttext m fmtdate rf i prev"; cases "pushed_texts rf i d") (auto simp: bindE_assoc)
    qed (use Inr in simp)
  qed simp
qed simp_all


text \<open>
  The text of the file is read as a replay: the values of the admin part, the deltas in the order
  they were written, then the texts.
\<close>

theorem rcsparse_written:
  assumes "rcsfile_write n fmtdate rf = Inr file" and "rf_trunk rf = i # l" and "rev_num rf i = Inr head" "rcs_num head"
    and "admin_ok rf" and "rf_desc rf = Some (rcs_quote desc)"
    and "wdeltas n rf [i] = Inr bs" "bs \<noteq> []" "\<forall>b \<in> set bs. wdelta_ok b"
    and "wtexts n n fmtdate rf [(i, None)] = Inr ts" "\<forall>t \<in> set ts. wtext_ok t"
    and "import_deltas (set_admin rf head rf0) bs = Inr rf1"
    and "add_texts (rcsfile_setval rf1 RCSFILE_DESC (rcs_quote desc)) ts = Inr rf2"
  shows "rcsparse rf0 (Some file) False = Inr rf2"
proof -
  define e where "e = (case keyword_encode_expand (rf_expand rf) of None \<Rightarrow> [] | Some e \<Rightarrow> e)"
  let ?desc = "LF @ ''@'' @ rcs_quote desc @ ''@''" and ?texts = "concat (map wtext_text ts) @ LF"
  obtain b cs where bs: "bs = b # cs" using assms(8) by (cases bs) auto
  obtain admin where admin: "admin_text rf head = Inr admin"
    using assms(1,2,3) by (auto simp: rcsfile_write_def bindE_Inr)
  have e: "rf_expand rf \<noteq> EXPAND_DEFAULT \<Longrightarrow> keyword_encode_expand (rf_expand rf) = Some e"
    using admin by (cases "keyword_encode_expand (rf_expand rf)") (auto simp: admin_text_def e_def)
  have lines: "admin = admin_lines rf head e"
    using admin e by (cases "rf_expand rf = EXPAND_DEFAULT")
      (auto simp: admin_text_def admin_lines_def options_text_def tags_text_def split: option.splits)
  have whole: "file = admin_lines rf head e @ deltas_text bs @ LF @ ''desc'' @ ?desc @ ?texts"
    using assms(1,2,3,6,7,10) admin
    by (simp add: rcsfile_write_def lines write_deltas_wdeltas rcsfile_write_deltatext_def write_deltatexts_wtexts)
  then have "file \<noteq> []" by (simp add: LF_def)
  then obtain lx where lx: "rcslex_new (Some file) = Some lx" "lex_at lx file" using lex_at_new by blast
  let ?rest1 = "delta_body b @ LF @ LF @ deltas_text cs @ LF @ ''desc'' @ ?desc @ ?texts"
  have num: "rcs_num (w_rev b)" using assms(9) by (auto simp: bs wdelta_ok_def)
  have "lex_at lx ((admin_lines rf head e @ w_rev b) @ ?rest1)"
    using lx(2) by (simp add: whole bs deltas_text_def wdelta_text_def)
  from reads_toD [OF reads_admin [OF assms(5) e num assms(4)] this]
  obtain lx1 where 1: "parse_admin rf0 lx = Inr (set_admin rf head rf0, lx1)" "lex_at lx1 (w_rev b @ ?rest1)"
    by (auto simp: delta_body_def)
  have "lex_at lx1 ((deltas_text bs @ LF @ ''desc'') @ ?desc @ ?texts)"
    using 1(2) by (simp add: bs deltas_text_def wdelta_text_def)
  from reads_toD [OF reads_deltas [OF assms(8,9,12)] this]
  obtain lx2 where 2: "parse_deltas (set_admin rf head rf0) lx1 = Inr (rf1, lx2)" "lex_at lx2 (''desc'' @ ?desc @ ?texts)"
    by auto
  have "stop (?desc @ ?texts)" by simp
  then obtain lx3 where 3: "want_kw lx2 ''desc'' = Inr lx3" "lex_at lx3 (?desc @ ?texts)"
    using passesD [OF passes_kw [of "[]" "''desc''"], of lx2 "?desc @ ?texts"] 2(2) by auto
  have "stop ?texts" by (cases ts; cases "hd ts") (auto simp: LF_def c_isspace_def)
  then obtain lx4 where 4: "rcslex_get_string lx3 = (lx4, Some (rcs_quote desc, length (rcs_quote desc)))" "lex_at lx4 ?texts"
    using reads_toD [OF reads_string [of LF desc], of lx3 ?texts] 3(2) by (auto simp: want_Inr)
  obtain lx5 where "parse_deltatexts (rcsfile_setval rf1 RCSFILE_DESC (rcs_quote desc)) lx4 = Inr (rf2, lx5)"
    using reads_deltatexts [OF 4(2) assms(11,13)] by blast
  with lx(1) 1(1) 2(1) 3(1) 4(1) show ?thesis by (simp add: rcsparse_def Let_def)
qed

end
