(* ===== verification/Rcstrunk.thy ===== *)
theory Rcstrunk
  imports Rcsread
begin

text \<open>
  RCS files without branches: the file that \<open>rcsfile_write\<close> writes for a trunk of revisions, read
  with \<open>rcsfile_frompath\<close>, gives the same RCS file again, delta by delta.
\<close>

section \<open>Trunk files\<close>

record tdelta =
  t_rev :: string
  t_date :: string
  t_author :: string
  t_state :: "string option"
  t_log :: string
  t_text :: string

text \<open>The delta at address \<open>i\<close>: each one but the first is a diff from the one before.\<close>

definition trunk_delta :: "tdelta list \<Rightarrow> nat \<Rightarrow> delta" where
  "trunk_delta ds i = (let t = ds ! i in
     \<lparr>d_revnum = t_rev t, d_revdate = Some (t_date t), d_author = Some (t_author t), d_state = t_state t,
      d_log = t_log t, d_text = t_text t, d_placeholder = False,
      d_diffbase = (if i = 0 then None else Some (i - 1)), d_branches = []\<rparr>)"

definition trunk_file :: "rcsfile \<Rightarrow> tdelta list \<Rightarrow> rcsfile" where
  "trunk_file base ds = base
     \<lparr>rf_head := Some (t_rev (hd ds)), rf_trunk := [0..<length ds], rf_table := rev [0..<length ds],
      rf_heap := (\<lambda>i. if i < length ds then Some (trunk_delta ds i) else None), rf_next := length ds\<rparr>"

definition tdelta_ok :: "tdelta \<Rightarrow> bool" where
  "tdelta_ok t \<longleftrightarrow> rcs_num (t_rev t) \<and> rcsrev_istrunk (t_rev t) = Some True \<and> rcs_num (t_date t) \<and> rcs_id (t_author t) \<and>
     (\<forall>s \<in> set_option (t_state t). rcs_id s) \<and> (\<exists>s. t_log t = rcs_quote s) \<and> (\<exists>s. t_text t = rcs_quote s)"

text \<open>The revisions descend, as on a trunk.\<close>

definition descending :: "tdelta list \<Rightarrow> bool" where
  "descending ds \<longleftrightarrow> (\<forall>j < length ds. \<forall>i < j. rcsnum_cmp (t_rev (ds ! j)) (t_rev (ds ! i)) < 0 \<and> t_rev (ds ! j) \<noteq> t_rev (ds ! i))"

section \<open>Importing\<close>

definition wdelta_at :: "tdelta list \<Rightarrow> nat \<Rightarrow> wdelta" where
  "wdelta_at ds i = (let t = ds ! i in
     \<lparr>w_rev = t_rev t, w_date = t_date t, w_author = t_author t, w_state = t_state t, w_branches = [],
      w_next = (if Suc i < length ds then Some (t_rev (ds ! Suc i)) else None)\<rparr>)"

text \<open>The state when \<open>k\<close> deltas are imported: the next one is a placeholder.\<close>

definition bare_delta :: "tdelta list \<Rightarrow> nat \<Rightarrow> delta" where
  "bare_delta ds i = (trunk_delta ds i)\<lparr>d_log := [], d_text := []\<rparr>"

definition placeholder_at :: "tdelta list \<Rightarrow> nat \<Rightarrow> delta" where
  "placeholder_at ds i =
     \<lparr>d_revnum = t_rev (ds ! i), d_revdate = None, d_author = None, d_state = None, d_log = [], d_text = [],
      d_placeholder = True, d_diffbase = Some (i - 1), d_branches = []\<rparr>"

definition imported :: "rcsfile \<Rightarrow> tdelta list \<Rightarrow> nat \<Rightarrow> rcsfile" where
  "imported base ds k = base
     \<lparr>rf_trunk := [0..<k], rf_table := rev [0..<min (k + 1) (length ds)],
      rf_heap := (\<lambda>i. if i < k then Some (bare_delta ds i)
                     else if i = k \<and> k < length ds then Some (placeholder_at ds i) else None),
      rf_next := min (k + 1) (length ds)\<rparr>"

lemma rev_of_imported: "i \<le> k \<Longrightarrow> i < length ds \<Longrightarrow> rev_of (imported base ds k) i = t_rev (ds ! i)"
  by (simp add: rev_of_def imported_def bare_delta_def trunk_delta_def placeholder_at_def Let_def)

lemma find_rev_unique:
  assumes "i \<in> set l" "\<And>j. j \<in> set l \<Longrightarrow> P j \<longleftrightarrow> j = i"
  shows "find P l = Some i"
  using assms by (induction l) auto

lemma getdelta_imported:
  assumes "descending ds" "k < length ds"
  shows "rcsfile_getdelta (imported base ds k) (t_rev (ds ! k)) = Some k"
proof -
  have "t_rev (ds ! j) = t_rev (ds ! k) \<longleftrightarrow> j = k" if "j \<le> k" for j
    using assms that unfolding descending_def by (metis le_neq_implies_less)
  then show ?thesis using assms(2) unfolding rcsfile_getdelta_def
    by (intro find_rev_unique) (auto simp: imported_def has_rev_def bare_delta_def trunk_delta_def placeholder_at_def Let_def)
qed

lemma insert_where_first: "(\<And>y. y \<in> set ys \<Longrightarrow> P y) \<Longrightarrow> insert_where P x ys = x # ys"
  by (cases ys) auto

lemma insert_where_last: "(\<And>y. y \<in> set ys \<Longrightarrow> \<not> P y) \<Longrightarrow> insert_where P x ys = ys @ [x]"
  by (induction ys) auto

lemma import_first:
  assumes "ds \<noteq> []" "tdelta_ok (hd ds)" "descending ds" "rf_ro base = False"
    and "rf_trunk base = []" "rf_table base = []" "rf_heap base = (\<lambda>i. None)" "rf_next base = 0"
  defines "b \<equiv> wdelta_at ds 0"
  shows "rcsfile_importdelta base (w_rev b) (w_date b) (w_author b) (w_state b) (w_next b) = Inr (imported base ds 1)"
proof -
  have t: "rcsrev_istrunk (t_rev (ds ! 0)) = Some True" using assms(1,2) by (simp add: tdelta_ok_def hd_conv_nth)
  have cmp: "rcsnum_cmp (t_rev (ds ! 1)) (t_rev (ds ! 0)) < 0" if "1 < length ds"
    using assms(3) that by (simp add: descending_def)
  show ?thesis
  proof (cases "1 < length ds")
    case True
    then show ?thesis using assms(4-8) t cmp
      by (cases base) (auto simp: b_def wdelta_at_def rcsfile_importdelta_def rcsfile_getdelta_def import_values_def import_next_def
        rcsfile_createdelta_def set_delta_def get_delta_def find_branch_def insert_at_def set_branch_list_def branch_list_def
        rcsfile_insertdelta_def rcsfile_insertsorteddelta_def table_opt_def rev_of_def imported_def bare_delta_def trunk_delta_def
        placeholder_at_def Let_def fun_eq_iff upt_conv_Cons)
  next
    case False
    then have "length ds = 1" using assms(1) by (cases ds) auto
    then show ?thesis using assms(4-8) t
      by (cases base) (auto simp: b_def wdelta_at_def rcsfile_importdelta_def rcsfile_getdelta_def import_values_def import_next_def
        rcsfile_createdelta_def set_delta_def get_delta_def find_branch_def insert_at_def set_branch_list_def branch_list_def
        rcsfile_insertdelta_def rcsfile_insertsorteddelta_def table_opt_def rev_of_def imported_def bare_delta_def trunk_delta_def
        Let_def fun_eq_iff)
  qed
qed


lemma import_step:
  assumes k: "0 < k" "k < length ds" and ok: "tdelta_ok (ds ! k)" and desc: "descending ds" and ro: "rf_ro base = False"
  defines "b \<equiv> wdelta_at ds k"
  shows "rcsfile_importdelta (imported base ds k) (w_rev b) (w_date b) (w_author b) (w_state b) (w_next b) = Inr (imported base ds (Suc k))"
proof -
  let ?rf = "imported base ds k" and ?n = "length ds"
  let ?rf1 = "set_delta ?rf k ((bare_delta ds k)\<lparr>d_placeholder := True\<rparr>)"
  define j where "j = (if Suc k < ?n then Some (Suc k) else None)"
  define rf2 where "rf2 = (if Suc k < ?n then (set_delta ?rf1 (Suc k) (placeholder_at ds (Suc k)))\<lparr>rf_next := k + 2\<rparr> else ?rf1)"
  let ?rf4 = "set_delta rf2 k (bare_delta ds k)"
  have b: "w_rev b = t_rev (ds ! k)" "w_date b = t_date (ds ! k)" "w_author b = t_author (ds ! k)" "w_state b = t_state (ds ! k)"
    "w_next b = (if Suc k < ?n then Some (t_rev (ds ! Suc k)) else None)"
    by (simp_all add: b_def wdelta_at_def Let_def)
  have heap: "rf_heap ?rf k = Some (placeholder_at ds k)" using k by (simp add: imported_def)
  have old: "rcsfile_getdelta ?rf (w_rev b) = Some k" using getdelta_imported [OF desc k(2)] by (simp add: b)
  have 1: "import_values ?rf (w_rev b) (w_date b) (w_author b) (w_state b) (Some k) = Inr (?rf1, k)"
    using heap k(1) by (simp add: import_values_def get_delta_def b placeholder_at_def bare_delta_def trunk_delta_def Let_def)
  have 2: "import_next ?rf1 k (w_next b) = Inr (rf2, j)"
    using k by (simp add: import_next_def b rf2_def j_def rcsfile_createdelta_def set_delta_def get_delta_def imported_def
        placeholder_at_def Let_def)
  have 3: "find_branch rf2 (w_rev b) = Inr (Some (rf2, Trunk))"
    using ok by (simp add: find_branch_def b tdelta_ok_def)
  have heap2: "rf_heap rf2 = (\<lambda>i. if i < k then Some (bare_delta ds i) else if i = k then Some ((bare_delta ds k)\<lparr>d_placeholder := True\<rparr>)
      else if i = Suc k \<and> Suc k < ?n then Some (placeholder_at ds (Suc k)) else None)"
    by (auto simp: rf2_def set_delta_def imported_def fun_eq_iff)
  have 4: "get_delta rf2 k = Inr ((bare_delta ds k)\<lparr>d_placeholder := True\<rparr>)" by (simp add: get_delta_def heap2)
  have bare: "(bare_delta ds k)\<lparr>d_placeholder := True, d_placeholder := False\<rparr> = bare_delta ds k"
    by (simp add: bare_delta_def trunk_delta_def Let_def)
  have r4: "rf_trunk ?rf4 = [0..<k]" "rf_table ?rf4 = rev [0..<Suc k]" "rf_ro rf2 = False" "rf_ro ?rf1 = False"
    using k(2) ro by (simp_all add: rf2_def set_delta_def imported_def)
  have rev4: "rev_of ?rf4 i = t_rev (ds ! i)" if "i < k + 1 \<or> i = Suc k \<and> Suc k < ?n" for i
    using that by (auto simp: rev_of_def set_delta_def heap2 bare_delta_def trunk_delta_def placeholder_at_def Let_def)
  have cmp: "rcsnum_cmp (t_rev (ds ! a)) (t_rev (ds ! c)) < 0" if "c < a" "a < ?n" for a c
    using desc that by (simp add: descending_def)
  have "rcsfile_insertdelta ?rf4 [0..<k] k True = [0..<Suc k]"
  proof -
    have "\<not> 0 \<le> rcsnum_cmp (rev_of ?rf4 k) (rev_of ?rf4 i)" if "i < k" for i
      using cmp [OF that k(2)] rev4 [of k] rev4 [of i] that by simp
    then show ?thesis unfolding rcsfile_insertdelta_def by (subst insert_where_last) (simp_all add: Let_def)
  qed
  then have 5: "insert_at ?rf4 Trunk k True = ?rf4\<lparr>rf_trunk := [0..<Suc k]\<rparr>"
    by (simp add: insert_at_def branch_list_def set_branch_list_def r4(1))
  have rev5: "rev_of (?rf4\<lparr>rf_trunk := l\<rparr>) i = rev_of ?rf4 i" for i l by (simp add: rev_of_def)
  have "rcsfile_insertsorteddelta (?rf4\<lparr>rf_trunk := [0..<Suc k]\<rparr>) (Suc k) =
      ?rf4\<lparr>rf_trunk := [0..<Suc k], rf_table := Suc k # rev [0..<Suc k]\<rparr>" if "Suc k < ?n"
  proof -
    have "insert_where (\<lambda>j. rcsnum_cmp (rev_of (?rf4\<lparr>rf_trunk := [0..<Suc k]\<rparr>) (Suc k)) (rev_of (?rf4\<lparr>rf_trunk := [0..<Suc k]\<rparr>) j) \<le> 0)
        (Suc k) (rev [0..<Suc k]) = Suc k # rev [0..<Suc k]"
      unfolding rev5
    proof (rule insert_where_first)
      fix i
      assume "i \<in> set (rev [0..<Suc k])"
      then have i: "i < Suc k" by (simp del: upt_Suc)
      then show "rcsnum_cmp (rev_of ?rf4 (Suc k)) (rev_of ?rf4 i) \<le> 0"
        using cmp [OF i that] rev4 [of "Suc k"] rev4 [of i] that by simp
    qed
    then show ?thesis using r4(2) by (simp add: rcsfile_insertsorteddelta_def del: upt_Suc)
  qed
  note sorted = this
  have same: "?rf4\<lparr>rf_trunk := [0..<Suc k], rf_table := l\<rparr> = imported base ds (Suc k)"
    if "l = rev [0..<min (Suc k + 1) ?n]" for l
  proof -
    have "rf_heap ?rf4 = rf_heap (imported base ds (Suc k))"
      by (rule ext) (simp add: set_delta_def heap2 imported_def)
    moreover have "rf_next ?rf4 = min (Suc k + 1) ?n"
      using k(2) by (simp add: set_delta_def rf2_def imported_def)
    moreover have "rcsfile.truncate ?rf4 = (rcsfile.truncate base)\<lparr>rf_trunk := rf_trunk ?rf4, rf_table := rf_table ?rf4,
        rf_heap := rf_heap ?rf4, rf_next := rf_next ?rf4\<rparr>"
      by (cases base) (simp add: set_delta_def rf2_def imported_def rcsfile.defs)
    ultimately show ?thesis using that unfolding imported_def
      by (cases base; cases ?rf4) (simp add: rcsfile.defs)
  qed
  have 6: "table_opt (?rf4\<lparr>rf_trunk := [0..<Suc k]\<rparr>) j = imported base ds (Suc k)"
  proof (cases "Suc k < ?n")
    case True
    then have "rev [0..<min (Suc k + 1) ?n] = Suc k # rev [0..<Suc k]" by simp
    then show ?thesis using sorted [OF True] same True by (simp add: table_opt_def j_def del: upt_Suc)
  next
    case False
    then have "?n = Suc k" using k(2) by simp
    then have "rev [0..<min (Suc k + 1) ?n] = rf_table ?rf4" using r4(2) by (simp del: upt_Suc)
    moreover have "?rf4\<lparr>rf_trunk := [0..<Suc k]\<rparr> = ?rf4\<lparr>rf_trunk := [0..<Suc k], rf_table := rf_table ?rf4\<rparr>" by simp
    ultimately show ?thesis using same [of "rf_table ?rf4"] False by (simp add: table_opt_def j_def del: upt_Suc)
  qed
  have ph: "d_placeholder (placeholder_at ds k)" by (simp add: placeholder_at_def)
  show ?thesis
    unfolding rcsfile_importdelta_def old Let_def using heap ph 1 2 3 4 5 6 r4 bare by simp
qed

lemma import_all:
  assumes "0 < k" "k \<le> length ds" "\<forall>t \<in> set ds. tdelta_ok t" "descending ds" "rf_ro base = False"
  shows "import_deltas (imported base ds k) (map (wdelta_at ds) [k..<length ds]) = Inr (imported base ds (length ds))"
  using assms(1,2)
proof (induction "length ds - k" arbitrary: k)
  case 0
  then show ?case by simp
next
  case (Suc m)
  then have k: "k < length ds" by simp
  have "tdelta_ok (ds ! k)" using assms(3) k by simp
  from import_step [OF Suc.prems(1) k this assms(4,5)] Suc.hyps(1) [of "Suc k"] Suc.hyps(2) Suc.prems k
  show ?case by (simp add: upt_conv_Cons)
qed


section \<open>Writing\<close>

lemma trunk_heap: "i < length ds \<Longrightarrow> get_delta (trunk_file base ds) i = Inr (trunk_delta ds i)"
  by (simp add: get_delta_def trunk_file_def)

lemma trunk_rev_num: "i < length ds \<Longrightarrow> rev_num (trunk_file base ds) i = Inr (t_rev (ds ! i))"
  by (simp add: rev_num_def trunk_heap) (simp add: trunk_delta_def Let_def)

lemma succ_in_upt: "a \<le> i \<Longrightarrow> i < n \<Longrightarrow> succ_in i [a..<n] = (if Suc i < n then Some (Suc i) else None)"
proof (induction "n - a" arbitrary: a)
  case (Suc m)
  then have up: "[a..<n] = a # [Suc a..<n]" by (simp add: upt_conv_Cons)
  show ?case
  proof (cases "Suc a < n")
    case True
    then have up2: "[Suc a..<n] = Suc a # [Suc (Suc a)..<n]" by (simp add: upt_conv_Cons)
    show ?thesis
    proof (cases "i = a")
      case False
      then have "succ_in i [Suc a..<n] = (if Suc i < n then Some (Suc i) else None)" using Suc by simp
      then show ?thesis using False unfolding up up2 by simp
    qed (use True in \<open>simp add: up up2\<close>)
  next
    case False
    then show ?thesis using Suc.prems by (simp add: up)
  qed
qed simp

lemma trunk_next: "i < length ds \<Longrightarrow> next_delta (trunk_file base ds) i = (if Suc i < length ds then Some (Suc i) else None)"
proof -
  assume i: "i < length ds"
  have "all_lists (trunk_file base ds) = [[0..<length ds]]"
    by (simp add: all_lists_def trunk_file_def trunk_delta_def Let_def concat_map_Nil)
  then show ?thesis using i succ_in_upt [of 0 i "length ds"] by (simp add: next_delta_def)
qed

lemma trunk_wdelta: "i < length ds \<Longrightarrow> wdelta_of (trunk_file base ds) i (trunk_delta ds i) = Inr (wdelta_at ds i)"
  by (simp add: wdelta_of_def trunk_next trunk_rev_num branch_heads_def) (simp add: trunk_delta_def wdelta_at_def Let_def)

lemma trunk_pushed: "i < length ds \<Longrightarrow> pushed (trunk_file base ds) i (trunk_delta ds i) = (if Suc i < length ds then [Suc i] else [])"
  by (simp add: pushed_def trunk_next branch_heads_def) (simp add: trunk_delta_def Let_def)

lemma trunk_wdeltas:
  "i < length ds \<Longrightarrow> length ds - i \<le> n \<Longrightarrow> wdeltas n (trunk_file base ds) [i] = Inr (map (wdelta_at ds) [i..<length ds])"
proof (induction n arbitrary: i)
  case (Suc n)
  have "\<not> d_placeholder (trunk_delta ds i)" by (simp add: trunk_delta_def Let_def)
  then show ?case using Suc by (cases "Suc i < length ds") (simp_all add: trunk_heap trunk_wdelta trunk_pushed upt_conv_Cons)
qed simp

definition wtext_at :: "tdelta list \<Rightarrow> nat \<Rightarrow> wtext" where
  "wtext_at ds i = (t_rev (ds ! i), t_log (ds ! i), t_text (ds ! i))"

lemma trunk_wtexts:
  assumes "\<forall>t \<in> set ds. tdelta_ok t"
  shows "i < length ds \<Longrightarrow> length ds - i \<le> n \<Longrightarrow>
    wtexts n m fmtdate (trunk_file base ds) [(i, if i = 0 then None else Some (i - 1))] = Inr (map (wtext_at ds) [i..<length ds])"
proof (induction n arbitrary: i)
  case (Suc n)
  let ?d = "trunk_delta ds i"
  have "rcsfile_puttext m fmtdate (trunk_file base ds) i (if i = 0 then None else Some (i - 1)) = Inr (d_text ?d)"
    using Suc.prems by (simp add: rcsfile_puttext_def trunk_heap) (simp add: trunk_delta_def Let_def)
  moreover have "pushed_texts (trunk_file base ds) i ?d = Inr (if Suc i < length ds then [Suc i] else [])"
    using assms Suc.prems by (auto simp: pushed_texts_def trunk_next trunk_rev_num tdelta_ok_def)
      (simp_all add: trunk_delta_def Let_def)
  moreover have "\<not> d_placeholder ?d" "(d_revnum ?d, d_log ?d, d_text ?d) = wtext_at ds i"
    by (simp_all add: trunk_delta_def wtext_at_def Let_def)
  moreover have "wtexts n m fmtdate (trunk_file base ds) [(Suc i, Some i)] = Inr (map (wtext_at ds) [Suc i..<length ds])"
    if "Suc i < length ds"
    using Suc.IH [OF that] Suc.prems by simp
  ultimately show ?case using Suc.prems by (cases "Suc i < length ds") (simp_all add: trunk_heap upt_conv_Cons)
qed simp

section \<open>The texts\<close>

definition texted :: "rcsfile \<Rightarrow> tdelta list \<Rightarrow> nat \<Rightarrow> rcsfile" where
  "texted base ds k = base
     \<lparr>rf_trunk := [0..<length ds], rf_table := rev [0..<length ds],
      rf_heap := (\<lambda>i. if i < k then Some (trunk_delta ds i) else if i < length ds then Some (bare_delta ds i) else None),
      rf_next := length ds\<rparr>"

lemma texted_step:
  assumes "k < length ds" "descending ds"
  shows "add_texts (texted base ds k) (wtext_at ds k # ts) = add_texts (texted base ds (Suc k)) ts"
proof -
  have "t_rev (ds ! j) = t_rev (ds ! k) \<longleftrightarrow> j = k" if "j < length ds" for j
    using assms that unfolding descending_def by (metis linorder_neqE_nat)
  then have g: "rcsfile_getdelta (texted base ds k) (t_rev (ds ! k)) = Some k" using assms(1)
    unfolding rcsfile_getdelta_def
    by (intro find_rev_unique) (auto simp: texted_def has_rev_def bare_delta_def trunk_delta_def Let_def)
  have d: "get_delta (texted base ds k) k = Inr (bare_delta ds k)" using assms(1) by (simp add: get_delta_def texted_def)
  have t: "rcsdelta_addtext (rcsdelta_addlog (bare_delta ds k) (t_log (ds ! k))) (t_text (ds ! k)) = trunk_delta ds k"
    by (simp add: rcsdelta_addtext_def rcsdelta_addlog_def bare_delta_def trunk_delta_def Let_def)
  have "set_delta (set_delta (texted base ds k) k d) k (trunk_delta ds k) = texted base ds (Suc k)" for d
    using assms(1) by (cases base) (auto simp: set_delta_def texted_def fun_eq_iff less_Suc_eq)
  then show ?thesis by (simp add: wtext_at_def g d t Let_def)
qed

lemma texted_all:
  assumes "descending ds" "k \<le> length ds"
  shows "add_texts (texted base ds k) (map (wtext_at ds) [k..<length ds]) = Inr (texted base ds (length ds))"
  using assms(2)
proof (induction "length ds - k" arbitrary: k)
  case (Suc m)
  then have "k < length ds" by simp
  with texted_step [OF this assms(1)] Suc show ?case by (simp add: upt_conv_Cons)
qed simp

text \<open>
  Claim C1. An RCS file survives the disk: what \<open>rcsfile_write\<close> writes for a file with any number of
  revisions on the trunk (of at most as many as the fuel), \<open>rcsfile_frompath\<close> reads back as the same
  file, with its head, default branch, tags, locks, comment, keyword mode and description and every
  delta's date, author, state, log, text, order and diff base. The access list, which is not
  written, is empty, and the strings are those of the grammar of RCS files.
\<close>

theorem rcsfile_roundtrip:
  assumes "ds \<noteq> []" "length ds \<le> n" "\<forall>t \<in> set ds. tdelta_ok t" "descending ds"
    and "admin_ok base" "rf_desc base = Some (rcs_quote desc)" "keyword_encode_expand (rf_expand base) \<noteq> None"
    and "rf_access base = []" "\<not> rf_ro base"
  shows "\<exists>file. rcsfile_write n fmtdate (trunk_file base ds) = Inr file \<and>
    rcsfile_frompath (Some file) (rf_name base) (rf_cvsroot base) (rf_colltag base) False = Inr (trunk_file base ds)"
proof -
  let ?rf = "trunk_file base ds" and ?n = "length ds" and ?head = "t_rev (hd ds)"
  let ?init = "rcsfile_init (rf_name base) (rf_cvsroot base) (rf_colltag base) False"
  let ?start = "set_admin ?rf ?head ?init"
  have n: "0 < ?n" using assms(1) by simp
  have hd: "hd ds = ds ! 0" by (rule hd_conv_nth [OF assms(1)])
  have ok: "tdelta_ok (ds ! i)" if "i < ?n" for i using assms(3) that by simp
  have trunk: "rf_trunk ?rf = 0 # [1..<?n]" using n by (simp add: trunk_file_def upt_conv_Cons)
  have head: "rev_num ?rf 0 = Inr ?head" using trunk_rev_num [OF n] hd by simp
  have wd: "wdeltas n ?rf [0] = Inr (map (wdelta_at ds) [0..<?n])" using trunk_wdeltas [OF n] assms(2) by simp
  have wt: "wtexts n n fmtdate ?rf [(0, None)] = Inr (map (wtext_at ds) [0..<?n])"
    using trunk_wtexts [OF assms(3) n, of n n fmtdate base] assms(2) by simp
  obtain e where "keyword_encode_expand (rf_expand ?rf) = Some e" using assms(7) by (auto simp: trunk_file_def)
  then obtain admin where "admin_text ?rf ?head = Inr admin"
    by (cases "rf_expand ?rf = EXPAND_DEFAULT") (simp_all add: admin_text_def)
  then obtain out where wr: "rcsfile_write n fmtdate ?rf = Inr out"
    using trunk head wd wt
    by (simp add: rcsfile_write_def write_deltas_wdeltas rcsfile_write_deltatext_def write_deltatexts_wtexts)
  have rf0: "rf_ro ?start = False" "rf_trunk ?start = []" "rf_table ?start = []" "rf_heap ?start = (\<lambda>i. None)" "rf_next ?start = 0"
    by (simp_all add: set_admin_def set_options_def rcsfile_setval_def rcsfile_setexpand_def rcsfile_setstrict_def
        rcsfile_init_def Let_def split: option.splits)
  have "import_deltas ?start (map (wdelta_at ds) [0..<?n]) = import_deltas (imported ?start ds 1) (map (wdelta_at ds) [1..<?n])"
    using import_first [OF assms(1) _ assms(4) rf0] ok [OF n] n hd by (simp add: upt_conv_Cons)
  also have "\<dots> = Inr (imported ?start ds ?n)"
    using n assms(3,4) rf0(1) by (intro import_all) (auto simp: Suc_le_eq)
  finally have imp: "import_deltas ?start (map (wdelta_at ds) [0..<?n]) = Inr (imported ?start ds ?n)" .
  let ?rf1 = "rcsfile_setval (imported ?start ds ?n) RCSFILE_DESC (rcs_quote desc)"
  have "?rf1 = texted (rcsfile_setval ?start RCSFILE_DESC (rcs_quote desc)) ds 0"
    by (cases ?start) (auto simp: imported_def texted_def rcsfile_setval_def fun_eq_iff)
  then have tx: "add_texts ?rf1 (map (wtext_at ds) [0..<?n]) = Inr (texted (rcsfile_setval ?start RCSFILE_DESC (rcs_quote desc)) ds ?n)"
    using texted_all [OF assms(4), of 0] by simp
  have "texted (rcsfile_setval ?start RCSFILE_DESC (rcs_quote desc)) ds ?n = ?rf"
    using assms(6,8,9) by (cases base)
      (auto simp: texted_def trunk_file_def set_admin_def set_options_def rcsfile_setval_def rcsfile_setexpand_def rcsfile_setstrict_def
        rcsfile_init_def Let_def fun_eq_iff split: option.splits)
  note final = tx [unfolded this]
  have "admin_ok ?rf" "rf_desc ?rf = Some (rcs_quote desc)" using assms(5,6) by (simp_all add: admin_ok_def trunk_file_def)
  moreover have "rcs_num ?head" using ok [OF n] hd by (simp add: tdelta_ok_def)
  moreover have "wdelta_ok b" if b: "b \<in> set (map (wdelta_at ds) [0..<?n])" for b
  proof -
    obtain i where i: "i < ?n" "b = wdelta_at ds i" using b by auto
    show ?thesis using ok [OF i(1)] ok [of "Suc i"] by (auto simp: i wdelta_at_def wdelta_ok_def tdelta_ok_def Let_def)
  qed
  moreover have "wtext_ok t" if "t \<in> set (map (wtext_at ds) [0..<?n])" for t
    using that ok by (auto simp: wtext_at_def tdelta_ok_def)
  moreover have "map (wdelta_at ds) [0..<?n] \<noteq> []" using n by simp
  ultimately have "rcsparse ?init (Some out) False = Inr ?rf"
    using rcsparse_written [OF wr trunk head _ _ _ wd _ _ wt _ imp final] by blast
  with wr show ?thesis by (auto simp: rcsfile_frompath_def)
qed


definition demo_trunk :: "tdelta list" where
  "demo_trunk =
     [\<lparr>t_rev = ''1.2'', t_date = ''2008.01.02'', t_author = ''mux'', t_state = Some ''Exp'', t_log = ''two'', t_text = ''b''\<rparr>,
      \<lparr>t_rev = ''1.1'', t_date = ''2008.01.01'', t_author = ''mux'', t_state = None, t_log = ''a@@b'', t_text = ''d1 1''\<rparr>]"

theorem rcsfile_roundtrip_witness:
  "\<exists>file. rcsfile_write 2 (\<lambda>d. Some d) (trunk_file ((rcsfile_init ''a,v'' ''/cvs'' ''HEAD'' False)
      \<lparr>rf_desc := Some [], rf_tags := [(''REL'', ''1.1'')], rf_comment := Some ''# '', rf_strict := True\<rparr>) demo_trunk) = Inr file \<and>
    rcsfile_frompath (Some file) ''a,v'' ''/cvs'' ''HEAD'' False =
      Inr (trunk_file ((rcsfile_init ''a,v'' ''/cvs'' ''HEAD'' False)
      \<lparr>rf_desc := Some [], rf_tags := [(''REL'', ''1.1'')], rf_comment := Some ''# '', rf_strict := True\<rparr>) demo_trunk)"
proof -
  let ?base = "(rcsfile_init ''a,v'' ''/cvs'' ''HEAD'' False)
      \<lparr>rf_desc := Some [], rf_tags := [(''REL'', ''1.1'')], rf_comment := Some ''# '', rf_strict := True\<rparr>"
  have q: "\<exists>s. ''two'' = rcs_quote s" "\<exists>s. ''a@@b'' = rcs_quote s" "\<exists>s. ''b'' = rcs_quote s" "\<exists>s. ''d1 1'' = rcs_quote s"
    "\<exists>s. ''# '' = rcs_quote s"
    by (rule exI [of _ "''two''"], simp) (rule exI [of _ "''a@b''"], simp, rule exI [of _ "''b''"], simp,
      rule exI [of _ "''d1 1''"], simp, rule exI [of _ "''# ''"], simp)
  have "\<forall>t \<in> set demo_trunk. tdelta_ok t"
    using q by (simp add: demo_trunk_def tdelta_ok_def rcs_num_def c_isdigit_def rcs_id_def symbol_def id_char_def c_isspace_def
        rcstok_validate_id_def c_isprint_def rcsrev_istrunk_def)
  moreover have "rcsnum_cmp ''1.1'' ''1.2'' < 0" by code_simp
  then have "descending demo_trunk" by (auto simp: descending_def demo_trunk_def less_Suc_eq)
  moreover have "admin_ok ?base"
    using q by (simp add: admin_ok_def symbol_def id_char_def c_isspace_def rcs_num_def c_isdigit_def rcsfile_init_def)
  ultimately show ?thesis
    using rcsfile_roundtrip [of demo_trunk 2 ?base "[]" "\<lambda>d. Some d"]
    by (simp add: demo_trunk_def rcsfile_init_def keyword_encode_expand_def)
qed

end
