(* ===== verification/Config.thy ===== *)
theory Config
  imports Misc Fattr Globtree Keyword
begin

text \<open>
  Collections and the supfile: \<open>config.c\<close> with the actions of the grammar in \<open>parse.y\<close>. The
  scanner and the parser that yacc generates are left out: a supfile is the list of its lines
  as the grammar reads them. An \<open>exit(1)\<close> with a message is a value of \<open>cfg_err\<close>; a failed
  assertion or the use of an uninitialised variable is \<open>CE_fault\<close>. The main result says where
  the value of an option of a collection comes from.
\<close>

section \<open>Collections\<close>

type_synonym copts = "32 word"

abbreviation CO_DELETE :: copts where "CO_DELETE \<equiv> 0x00000002"
abbreviation CO_COMPRESS :: copts where "CO_COMPRESS \<equiv> 0x00000040"
abbreviation CO_USERELSUFFIX :: copts where "CO_USERELSUFFIX \<equiv> 0x00000080"
abbreviation CO_EXACTRCS :: copts where "CO_EXACTRCS \<equiv> 0x00000100"
abbreviation CO_CHECKRCS :: copts where "CO_CHECKRCS \<equiv> 0x00000200"
abbreviation CO_SKIP :: copts where "CO_SKIP \<equiv> 0x00000400"
abbreviation CO_CHECKOUTMODE :: copts where "CO_CHECKOUTMODE \<equiv> 0x00000800"
abbreviation CO_NORSYNC :: copts where "CO_NORSYNC \<equiv> 0x00001000"
abbreviation CO_SETMODE :: copts where "CO_SETMODE \<equiv> 0x00010000"
abbreviation CO_NORCS :: copts where "CO_NORCS \<equiv> 0x00040000"
abbreviation CO_STRICTCHECKRCS :: copts where "CO_STRICTCHECKRCS \<equiv> 0x00080000"
abbreviation CO_TRUSTSTATUSFILE :: copts where "CO_TRUSTSTATUSFILE \<equiv> 0x00100000"
abbreviation CO_MASK :: copts where "CO_MASK \<equiv> 0x007fffff"

definition has_opt :: "copts \<Rightarrow> copts \<Rightarrow> bool" where
  "has_opt opts f \<longleftrightarrow> opts AND f \<noteq> 0"

record coll =
  co_name :: "string option"
  co_host :: "string option"
  co_base :: "string option"
  co_date :: "string option"
  co_prefix :: "string option"
  co_prefixlen :: nat
  co_release :: "string option"
  co_tag :: "string option"
  co_attrignore :: amask
  co_accepts :: pattlist
  co_refusals :: pattlist
  co_colldir :: "string option"
  co_listsuffix :: "string option"
  co_scantime :: int
  co_options :: copts
  co_umask :: "32 word"
  co_keyword :: keyword

definition coll_zero :: coll where
  "coll_zero =
     \<lparr>co_name = None, co_host = None, co_base = None, co_date = None, co_prefix = None, co_prefixlen = 0,
      co_release = None, co_tag = None, co_attrignore = 0, co_accepts = pattlist_new, co_refusals = pattlist_new,
      co_colldir = None, co_listsuffix = None, co_scantime = 0, co_options = 0, co_umask = 0,
      co_keyword = keyword_new\<rparr>"

definition coll_new :: "coll option \<Rightarrow> coll" where
  "coll_new def =
     (case def of
        Some d \<Rightarrow> coll_zero
          \<lparr>co_options := co_options d, co_umask := co_umask d, co_host := co_host d, co_base := co_base d,
           co_date := co_date d, co_prefix := co_prefix d, co_release := co_release d, co_tag := co_tag d,
           co_listsuffix := co_listsuffix d\<rparr>
      | None \<Rightarrow> coll_zero\<lparr>co_tag := Some ''.'', co_date := Some ''.''\<rparr>)
     \<lparr>co_attrignore := FA_DEV OR FA_INODE\<rparr>"

text \<open>A field of the collection replaced by that of the overriding one, where that is set.\<close>

definition over :: "'a option \<Rightarrow> 'a option \<Rightarrow> 'a option" where
  "over new old = (if new \<noteq> None then new else old)"

fun pattlist_addall :: "pattlist \<Rightarrow> string list \<Rightarrow> pattlist option" where
  "pattlist_addall p [] = Some p"
| "pattlist_addall p (s # ss) = Option.bind (pattlist_add p s) (\<lambda>p. pattlist_addall p ss)"

text \<open>The fields that are replaced one by one.\<close>

definition override_fields :: "coll \<Rightarrow> coll \<Rightarrow> copts \<Rightarrow> coll" where
  "override_fields c from newoptions =
     (let checkout = has_opt newoptions CO_CHECKOUTMODE in
      c\<lparr>co_release := over (co_release from) (co_release c), co_host := over (co_host from) (co_host c),
        co_base := over (co_base from) (co_base c), co_colldir := over (co_colldir from) (co_colldir c),
        co_prefix := over (co_prefix from) (co_prefix c),
        co_tag := (if checkout then over (co_tag from) (co_tag c) else co_tag c),
        co_date := (if checkout then over (co_date from) (co_date c) else co_date c),
        co_listsuffix := over (co_listsuffix from) (co_listsuffix c)\<rparr>)"

definition coll_override :: "coll \<Rightarrow> coll \<Rightarrow> copts \<Rightarrow> coll option" where
  "coll_override c from m =
     (let newoptions = co_options from AND m;
          oldoptions = co_options c AND (CO_MASK AND NOT m)
      in case (pattlist_addall (co_accepts c) (patterns (co_accepts from)),
               pattlist_addall (co_refusals c) (patterns (co_refusals from))) of
           (Some acc, Some ref) \<Rightarrow>
             Some ((override_fields c from newoptions)
               \<lparr>co_accepts := acc, co_refusals := ref, co_options := oldoptions OR newoptions\<rparr>)
         | _ \<Rightarrow> None)"

text \<open>
  The suffix of the status file. The outer \<open>None\<close>: with \<open>CO_USERELSUFFIX\<close>, no release and no
  checkout mode the variable \<open>suffix\<close> is returned without having been set.
\<close>

definition coll_statussuffix :: "coll \<Rightarrow> string option option" where
  "coll_statussuffix c =
     (case co_listsuffix c of
        Some l \<Rightarrow> Some (Some (CHR ''.'' # l))
      | None \<Rightarrow>
          if has_opt (co_options c) CO_USERELSUFFIX then
            let tag = (case co_tag c of None \<Rightarrow> ''.'' | Some t \<Rightarrow> t) in
            (case co_release c of
               Some r \<Rightarrow>
                 Some (Some (if has_opt (co_options c) CO_CHECKOUTMODE then CHR ''.'' # r @ CHR '':'' # tag
                             else CHR ''.'' # r))
             | None \<Rightarrow> if has_opt (co_options c) CO_CHECKOUTMODE then Some (Some (CHR '':'' # tag)) else None)
          else Some None)"

text \<open>Paths are printed with \<open>%s\<close>; a NULL base, directory or name is a fault.\<close>

definition coll_statuspath :: "coll \<Rightarrow> string option" where
  "coll_statuspath c =
     (case (coll_statussuffix c, co_colldir c, co_name c) of
        (Some suffix, Some colldir, Some name) \<Rightarrow>
          let suf = (case suffix of None \<Rightarrow> '''' | Some s \<Rightarrow> s) in
          if colldir \<noteq> [] \<and> hd colldir = CHR ''/''
          then Some (colldir @ ''/'' @ name @ ''/checkouts'' @ suf)
          else map_option (\<lambda>base. base @ ''/'' @ colldir @ ''/'' @ name @ ''/checkouts'' @ suf) (co_base c)
      | _ \<Rightarrow> None)"

section \<open>The actions of the grammar\<close>

datatype pt =
    PT_HOST | PT_BASE | PT_DATE | PT_PREFIX | PT_RELEASE | PT_TAG | PT_LIST | PT_UMASK
  | PT_USE_REL_SUFFIX | PT_DELETE | PT_COMPRESS | PT_NORSYNC

datatype cfg_err = CE_slash | CE_umask | CE_norelease | CE_nohost | CE_hosts | CE_empty | CE_refuse | CE_fault

text \<open>
  The value is NULL for a boolean option; the scanner gives no value to those and one to all
  others, so that a missing one only occurs where it is not used.
\<close>

definition coll_setopt :: "coll \<Rightarrow> pt \<Rightarrow> string option \<Rightarrow> cfg_err + coll" where
  "coll_setopt c opt value =
     (case opt of
        PT_HOST \<Rightarrow> Inr (c\<lparr>co_host := value\<rparr>)
      | PT_BASE \<Rightarrow> Inr (c\<lparr>co_base := value\<rparr>)
      | PT_DATE \<Rightarrow> Inr (c\<lparr>co_date := value, co_options := co_options c OR CO_CHECKOUTMODE\<rparr>)
      | PT_PREFIX \<Rightarrow> Inr (c\<lparr>co_prefix := value\<rparr>)
      | PT_RELEASE \<Rightarrow> Inr (c\<lparr>co_release := value\<rparr>)
      | PT_TAG \<Rightarrow> Inr (c\<lparr>co_tag := value, co_options := co_options c OR CO_CHECKOUTMODE\<rparr>)
      | PT_LIST \<Rightarrow>
          (case value of
             None \<Rightarrow> Inl CE_fault
           | Some v \<Rightarrow> if CHR ''/'' \<in> set v then Inl CE_slash else Inr (c\<lparr>co_listsuffix := Some v\<rparr>))
      | PT_UMASK \<Rightarrow>
          (case value of
             None \<Rightarrow> Inl CE_fault
           | Some v \<Rightarrow> (case asciitoint v 8 of None \<Rightarrow> Inl CE_umask | Some m \<Rightarrow> Inr (c\<lparr>co_umask := of_int m\<rparr>)))
      | PT_USE_REL_SUFFIX \<Rightarrow> Inr (c\<lparr>co_options := co_options c OR CO_USERELSUFFIX\<rparr>)
      | PT_DELETE \<Rightarrow> Inr (c\<lparr>co_options := co_options c OR (CO_DELETE OR CO_EXACTRCS)\<rparr>)
      | PT_COMPRESS \<Rightarrow> Inr (c\<lparr>co_options := co_options c OR CO_COMPRESS\<rparr>)
      | PT_NORSYNC \<Rightarrow> Inr (c\<lparr>co_options := co_options c OR CO_NORSYNC\<rparr>))"

type_synonym cfg_option = "pt \<times> string option"

fun coll_setopts :: "coll \<Rightarrow> cfg_option list \<Rightarrow> cfg_err + coll" where
  "coll_setopts c [] = Inr c"
| "coll_setopts c ((opt, value) # os) = bindE (coll_setopt c opt value) (\<lambda>c. coll_setopts c os)"

datatype cfg_line = Default_line "cfg_option list" | Collection_line string "cfg_option list"

record cfg =
  colls :: "coll list"
  cur_coll :: coll
  defaults :: coll

definition coll_setdef :: "cfg \<Rightarrow> cfg" where
  "coll_setdef g = g\<lparr>defaults := cur_coll g, cur_coll := coll_new (Some (cur_coll g))\<rparr>"

definition coll_add :: "coll \<Rightarrow> copts \<Rightarrow> cfg \<Rightarrow> string \<Rightarrow> cfg_err + cfg" where
  "coll_add ov m g name =
     bindE (from_option CE_fault (coll_override ((cur_coll g)\<lparr>co_name := Some name\<rparr>) ov m)) (\<lambda>c.
       if co_release c = None then Inl CE_norelease
       else if co_host c = None then Inl CE_nohost
       else if colls g \<noteq> [] \<and> co_host (last (colls g)) \<noteq> co_host c then Inl CE_hosts
       else Inr (g\<lparr>colls := colls g @ [c], cur_coll := coll_new (Some (defaults g))\<rparr>))"

text \<open>
  The actions run while the line is parsed: each option is set on \<open>cur_coll\<close>, and the end of
  the line makes it the default or adds it.
\<close>

fun cfg_line_action :: "coll \<Rightarrow> copts \<Rightarrow> cfg \<Rightarrow> cfg_line \<Rightarrow> cfg_err + cfg" where
  "cfg_line_action ov m g (Default_line os) =
     bindE (coll_setopts (cur_coll g) os) (\<lambda>c. Inr (coll_setdef (g\<lparr>cur_coll := c\<rparr>)))"
| "cfg_line_action ov m g (Collection_line name os) =
     bindE (coll_setopts (cur_coll g) os) (\<lambda>c. coll_add ov m (g\<lparr>cur_coll := c\<rparr>) name)"

fun yyparse :: "coll \<Rightarrow> copts \<Rightarrow> cfg \<Rightarrow> cfg_line list \<Rightarrow> cfg_err + cfg" where
  "yyparse ov m g [] = Inr g"
| "yyparse ov m g (l # ls) = bindE (cfg_line_action ov m g l) (\<lambda>g. yyparse ov m g ls)"

section \<open>Refuse files\<close>

text \<open>
  The words of a line, separated by blanks and tabs: the loop of \<open>config_parse_refusefile\<close>.
\<close>

definition blank :: "char \<Rightarrow> bool" where
  "blank c \<longleftrightarrow> c = CHR '' '' \<or> c = CHR 0x09"

function refuse_words :: "string \<Rightarrow> string list" where
  "refuse_words pat =
     (case dropWhile blank pat of
        [] \<Rightarrow> []
      | c # s \<Rightarrow>
          takeWhile (\<lambda>c. \<not> blank c) (c # s) #
          (case dropWhile (\<lambda>c. \<not> blank c) (c # s) of [] \<Rightarrow> [] | _ # rest \<Rightarrow> refuse_words rest))"
  by auto
termination
proof (relation "measure length")
  fix pat c s d rest
  assume "dropWhile blank pat = c # s" and "dropWhile (\<lambda>c. \<not> blank c) (c # s) = d # rest"
  then have "length rest < length (c # s)" and "length (c # s) \<le> length pat"
    by (metis length_dropWhile_less length_Cons less_SucI less_or_eq_imp_le, metis length_dropWhile_le)
  then show "(rest, pat) \<in> measure length" by simp
qed simp

declare refuse_words.simps [simp del]

text \<open>
  A file is the lines it holds and whether they end at the end of the file (and not at a read
  error); \<open>None\<close> is a file that cannot be opened.
\<close>

type_synonym cfg_files = "string \<Rightarrow> (string list \<times> bool) option"

definition config_parse_refusefile :: "cfg_files \<Rightarrow> coll \<Rightarrow> string \<Rightarrow> cfg_err + coll" where
  "config_parse_refusefile files c path =
     (case files path of
        None \<Rightarrow> Inr c
      | Some (ls, eof) \<Rightarrow>
          bindE (from_option CE_fault (pattlist_addall (co_refusals c) (concat (map refuse_words ls)))) (\<lambda>p.
            if eof then Inr (c\<lparr>co_refusals := p\<rparr>) else Inl CE_refuse))"

definition config_parse_refusefiles :: "cfg_files \<Rightarrow> coll \<Rightarrow> cfg_err + coll" where
  "config_parse_refusefiles files c =
     (case (co_colldir c, co_base c, co_name c) of
        (Some colldir, Some base, Some name) \<Rightarrow>
          let supdir = (if colldir \<noteq> [] \<and> hd colldir = CHR ''/'' then colldir else base @ ''/'' @ colldir);
              collstem = supdir @ ''/'' @ name @ ''/refuse'' in
          bindE (config_parse_refusefile files c (supdir @ ''/refuse'')) (\<lambda>c.
            bindE (config_parse_refusefile files c collstem) (\<lambda>c.
              bindE (from_option CE_fault (coll_statussuffix c)) (\<lambda>suffix.
                case suffix of None \<Rightarrow> Inr c | Some s \<Rightarrow> config_parse_refusefile files c (collstem @ s))))
      | _ \<Rightarrow> Inl CE_fault)"

section \<open>The whole configuration\<close>

text \<open>Whether to checksum RCS files, and the options that are always set.\<close>

definition checked_options :: "copts \<Rightarrow> copts" where
  "checked_options opts =
     (if has_opt opts CO_EXACTRCS then opts OR CO_CHECKRCS else opts AND NOT CO_CHECKRCS) OR CO_SETMODE OR CO_NORSYNC"

text \<open>The loop that fixes up a collection; the prefix is relative to the base.\<close>

definition coll_fixup :: "coll \<Rightarrow> coll" where
  "coll_fixup c =
     (let base = (case co_base c of None \<Rightarrow> ''/usr/local/etc/cvsup'' | Some b \<Rightarrow> b);
          prefix = (case co_prefix c of
                      None \<Rightarrow> base
                    | Some p \<Rightarrow>
                        if p \<noteq> [] \<and> hd p = CHR ''/'' then p
                        else if base \<noteq> [] \<and> last base \<noteq> CHR ''/'' then base @ ''/'' @ p else base @ p)
      in c\<lparr>co_base := Some base, co_colldir := (case co_colldir c of None \<Rightarrow> Some ''sup'' | d \<Rightarrow> d),
           co_prefix := Some prefix, co_prefixlen := length prefix,
           co_options := checked_options (co_options c)\<rparr>)"

fun fixup_colls :: "cfg_files \<Rightarrow> coll list \<Rightarrow> cfg_err + coll list" where
  "fixup_colls files [] = Inr []"
| "fixup_colls files (c # cs) =
     bindE (config_parse_refusefiles files (coll_fixup c)) (\<lambda>c.
       bindE (fixup_colls files cs) (\<lambda>cs. Inr (c # cs)))"

definition config_init :: "cfg_files \<Rightarrow> 32 word \<Rightarrow> coll \<Rightarrow> copts \<Rightarrow> cfg_line list \<Rightarrow> cfg_err + coll list" where
  "config_init files umask ov m ls =
     (let d = (coll_new None)\<lparr>co_umask := umask\<rparr> in
      bindE (yyparse ov m \<lparr>colls = [], cur_coll = coll_new (Some d), defaults = d\<rparr> ls) (\<lambda>g.
        if colls g = [] then Inl CE_empty else fixup_colls files (colls g)))"

text \<open>A collection without a prefix directory is skipped.\<close>

definition config_checkcolls :: "(string \<Rightarrow> bool) \<Rightarrow> coll list \<Rightarrow> nat \<times> coll list" where
  "config_checkcolls isdir cs =
     (length (filter (\<lambda>c. isdir (the (co_prefix c))) cs),
      map (\<lambda>c. if isdir (the (co_prefix c)) then c else c\<lparr>co_options := co_options c OR CO_SKIP\<rparr>) cs)"

section \<open>Where a value comes from\<close>

text \<open>
  The reference: the options in force for a collection are those of all default lines above it
  followed by its own, and the last one wins.
\<close>

fun collections :: "cfg_option list \<Rightarrow> cfg_line list \<Rightarrow> (string \<times> cfg_option list) list" where
  "collections D [] = []"
| "collections D (Default_line os # ls) = collections (D @ os) ls"
| "collections D (Collection_line name os # ls) = (name, D @ os) # collections D ls"

fun set_value :: "pt \<Rightarrow> string option \<Rightarrow> cfg_option list \<Rightarrow> string option" where
  "set_value p x [] = x"
| "set_value p x ((q, v) # os) = set_value p (if p = q then v else x) os"

fun set_flags :: "copts \<Rightarrow> cfg_option list \<Rightarrow> copts" where
  "set_flags fl [] = fl"
| "set_flags fl ((q, v) # os) =
     set_flags (fl OR (case q of PT_DATE \<Rightarrow> CO_CHECKOUTMODE | PT_TAG \<Rightarrow> CO_CHECKOUTMODE
       | PT_USE_REL_SUFFIX \<Rightarrow> CO_USERELSUFFIX | PT_DELETE \<Rightarrow> CO_DELETE OR CO_EXACTRCS
       | PT_COMPRESS \<Rightarrow> CO_COMPRESS | PT_NORSYNC \<Rightarrow> CO_NORSYNC | _ \<Rightarrow> 0)) os"

text \<open>The umask: an option that is not a number ends the program and is not reached.\<close>

fun set_umask :: "32 word \<Rightarrow> cfg_option list \<Rightarrow> 32 word" where
  "set_umask u [] = u"
| "set_umask u ((q, v) # os) =
     set_umask (case Option.bind (if q = PT_UMASK then v else None) (\<lambda>s. asciitoint s 8) of
       Some m \<Rightarrow> of_int m | None \<Rightarrow> u) os"

lemma set_umask_append [simp]: "set_umask u (os @ os') = set_umask (set_umask u os) os'"
  by (induction u os rule: set_umask.induct) auto

text \<open>A prefix is below the base unless it is absolute, and is the base if there is none.\<close>

definition prefix_under :: "string \<Rightarrow> string option \<Rightarrow> string" where
  "prefix_under base p =
     (case p of
        None \<Rightarrow> base
      | Some p \<Rightarrow>
          if take 1 p = ''/'' then p
          else base @ (if base = [] \<or> last base = CHR ''/'' then [] else ''/'') @ p)"

lemma set_value_append [simp]: "set_value p x (os @ os') = set_value p (set_value p x os) os'"
  by (induction p x os rule: set_value.induct) auto

lemma set_flags_append [simp]: "set_flags fl (os @ os') = set_flags (set_flags fl os) os'"
  by (induction fl os rule: set_flags.induct) auto

text \<open>The inherited fields as the options \<open>os\<close> over the built-in values determine them.\<close>

definition inherits :: "32 word \<Rightarrow> coll \<Rightarrow> cfg_option list \<Rightarrow> bool" where
  "inherits u c os \<longleftrightarrow> co_umask c = set_umask u os \<and>
     co_colldir c = None \<and> co_accepts c = pattlist_new \<and> co_attrignore c = FA_DEV OR FA_INODE \<and>
     co_host c = set_value PT_HOST None os \<and> co_base c = set_value PT_BASE None os \<and>
     co_prefix c = set_value PT_PREFIX None os \<and> co_release c = set_value PT_RELEASE None os \<and>
     co_tag c = set_value PT_TAG (Some ''.'') os \<and> co_date c = set_value PT_DATE (Some ''.'') os \<and>
     co_listsuffix c = set_value PT_LIST None os \<and> co_options c = set_flags 0 os"

lemma inherits_start: "inherits u ((coll_new None)\<lparr>co_umask := u\<rparr>) []"
  by (simp add: inherits_def coll_new_def coll_zero_def)

lemma inherits_new: "inherits u d os \<Longrightarrow> inherits u (coll_new (Some d)) os"
  by (simp add: inherits_def coll_new_def coll_zero_def)

lemma coll_setopt_inherits: "coll_setopt c p v = Inr c' \<Longrightarrow> inherits u c os \<Longrightarrow> inherits u c' (os @ [(p, v)])"
  by (cases p) (auto simp: coll_setopt_def inherits_def split: option.splits if_splits)

lemma coll_setopts_inherits: "coll_setopts c os = Inr c' \<Longrightarrow> inherits u c D \<Longrightarrow> inherits u c' (D @ os)"
proof (induction c os arbitrary: D rule: coll_setopts.induct)
  case (2 c p v os)
  then obtain c1 where "coll_setopt c p v = Inr c1" "coll_setopts c1 os = Inr c'" by (auto simp: bindE_Inr)
  with "2.IH" [of c1 "D @ [(p, v)]"] coll_setopt_inherits "2.prems"(2) show ?case by simp
qed simp

text \<open>A collection as \<open>coll_add\<close> adds it.\<close>

definition added :: "32 word \<Rightarrow> coll \<Rightarrow> copts \<Rightarrow> string \<times> cfg_option list \<Rightarrow> coll \<Rightarrow> bool" where
  "added u ov m = (\<lambda>(name, os) c.
    co_name c = Some name \<and> co_umask c = set_umask u os \<and> co_colldir c = co_colldir ov \<and>
    pattlist_addall pattlist_new (patterns (co_accepts ov)) = Some (co_accepts c) \<and> co_attrignore c = FA_DEV OR FA_INODE \<and>
     co_host c = over (co_host ov) (set_value PT_HOST None os) \<and>
     co_base c = over (co_base ov) (set_value PT_BASE None os) \<and>
     co_prefix c = over (co_prefix ov) (set_value PT_PREFIX None os) \<and>
     co_release c = over (co_release ov) (set_value PT_RELEASE None os) \<and>
     co_listsuffix c = over (co_listsuffix ov) (set_value PT_LIST None os) \<and>
     co_tag c = over (if has_opt (co_options ov AND m) CO_CHECKOUTMODE then co_tag ov else None)
       (set_value PT_TAG (Some ''.'') os) \<and>
     co_date c = over (if has_opt (co_options ov AND m) CO_CHECKOUTMODE then co_date ov else None)
       (set_value PT_DATE (Some ''.'') os) \<and>
     co_options c = (set_flags 0 os AND (CO_MASK AND NOT m)) OR (co_options ov AND m))"

lemma over_None [simp]: "over None x = x"
  by (simp add: over_def)

lemma coll_override_added:
  assumes "coll_override (c\<lparr>co_name := Some name\<rparr>) ov m = Some c'" and "inherits u c os"
  shows "added u ov m (name, os) c'"
proof -
  let ?c = "c\<lparr>co_name := Some name\<rparr>"
  obtain acc ref where "c' = (override_fields ?c ov (co_options ov AND m))
      \<lparr>co_accepts := acc, co_refusals := ref,
       co_options := (co_options c AND (CO_MASK AND NOT m)) OR (co_options ov AND m)\<rparr>"
    "pattlist_addall (co_accepts c) (patterns (co_accepts ov)) = Some acc"
    using assms(1) unfolding coll_override_def Let_def by (auto split: option.splits)
  with assms(2) show ?thesis
    by (cases "has_opt (co_options ov AND m) CO_CHECKOUTMODE")
      (simp_all add: added_def inherits_def override_fields_def Let_def over_def)
qed

lemma coll_add_added:
  assumes "coll_add ov m g name = Inr g'" and "inherits u (cur_coll g) os"
  shows "\<exists>c. g' = g\<lparr>colls := colls g @ [c], cur_coll := coll_new (Some (defaults g))\<rparr> \<and> added u ov m (name, os) c \<and>
    co_release c \<noteq> None \<and> co_host c \<noteq> None \<and> (colls g \<noteq> [] \<longrightarrow> co_host (last (colls g)) = co_host c)"
proof -
  obtain c where c: "coll_override ((cur_coll g)\<lparr>co_name := Some name\<rparr>) ov m = Some c"
    "(if co_release c = None then Inl CE_norelease
      else if co_host c = None then Inl CE_nohost
      else if colls g \<noteq> [] \<and> co_host (last (colls g)) \<noteq> co_host c then Inl CE_hosts
      else Inr (g\<lparr>colls := colls g @ [c], cur_coll := coll_new (Some (defaults g))\<rparr>)) = Inr g'"
    using assms(1) unfolding coll_add_def bindE_Inr from_option_Inr by blast
  from coll_override_added [OF c(1) assms(2)] c(2) show ?thesis
    by (intro exI [of _ c]) (auto split: if_split_asm)
qed

definition same_hosts :: "coll list \<Rightarrow> bool" where
  "same_hosts cs \<longleftrightarrow> (\<exists>h. \<forall>c \<in> set cs. co_host c = Some h \<and> co_release c \<noteq> None)"

lemma same_hosts_Nil [simp]: "same_hosts []"
  by (simp add: same_hosts_def)

lemma same_hosts_snoc:
  assumes "same_hosts cs" and "co_release c \<noteq> None" and "co_host c \<noteq> None"
    and "cs \<noteq> [] \<longrightarrow> co_host (last cs) = co_host c"
  shows "same_hosts (cs @ [c])"
proof -
  from assms(1) obtain h where h: "\<forall>c \<in> set cs. co_host c = Some h \<and> co_release c \<noteq> None" by (auto simp: same_hosts_def)
  show ?thesis
  proof (cases "cs = []")
    case True
    with assms show ?thesis by (auto simp: same_hosts_def)
  next
    case False
    with h have "co_host (last cs) = Some h" by simp
    with h assms False show ?thesis by (intro exI [of _ h] same_hosts_def [THEN iffD2]) auto
  qed
qed

lemma same_hosts_transfer:
  "list_all2 (\<lambda>c c'. co_host c' = co_host c \<and> co_release c' = co_release c) cs cs' \<Longrightarrow> same_hosts cs \<Longrightarrow> same_hosts cs'"
  unfolding same_hosts_def by (elim exE, rule_tac x = h in exI) (fastforce simp: list_all2_conv_all_nth in_set_conv_nth)

lemma yyparse_added:
  assumes "yyparse ov m g ls = Inr g'" and "inherits u (cur_coll g) D" and "inherits u (defaults g) D" and "same_hosts (colls g)"
  shows "\<exists>cs. colls g' = colls g @ cs \<and> list_all2 (added u ov m) (collections D ls) cs \<and> same_hosts (colls g @ cs)"
  using assms
proof (induction ls arbitrary: g D)
  case Nil
  then show ?case by simp
next
  case (Cons l ls)
  then obtain g1 where g1: "cfg_line_action ov m g l = Inr g1" "yyparse ov m g1 ls = Inr g'" by (auto simp: bindE_Inr)
  show ?case
  proof (cases l)
    case (Default_line os)
    with g1 obtain c where c: "coll_setopts (cur_coll g) os = Inr c" "g1 = coll_setdef (g\<lparr>cur_coll := c\<rparr>)"
      by (auto simp: bindE_Inr)
    then have "inherits u c (D @ os)" using coll_setopts_inherits Cons.prems(2) by simp
    then have "inherits u (cur_coll g1) (D @ os)" "inherits u (defaults g1) (D @ os)" "colls g1 = colls g"
      using c(2) inherits_new by (simp_all add: coll_setdef_def)
    with Cons.IH [OF g1(2)] Cons.prems(4) Default_line show ?thesis by simp
  next
    case (Collection_line name os)
    with g1 obtain c where c: "coll_setopts (cur_coll g) os = Inr c" "coll_add ov m (g\<lparr>cur_coll := c\<rparr>) name = Inr g1"
      by (auto simp: bindE_Inr)
    have "inherits u c (D @ os)" using c(1) coll_setopts_inherits Cons.prems(2) by simp
    with coll_add_added [OF c(2), of u "D @ os"] obtain c1 where
      c1: "g1 = g\<lparr>colls := colls g @ [c1], cur_coll := coll_new (Some (defaults g))\<rparr>" "added u ov m (name, D @ os) c1"
      "co_release c1 \<noteq> None" "co_host c1 \<noteq> None" "colls g \<noteq> [] \<longrightarrow> co_host (last (colls g)) = co_host c1"
      by auto
    note c1 = c1(1,2) same_hosts_snoc [OF Cons.prems(4) c1(3-5)]
    then have "inherits u (cur_coll g1) D" "inherits u (defaults g1) D" using Cons.prems(3) inherits_new by simp_all
    with Cons.IH [OF g1(2)] c1 Collection_line show ?thesis by auto
  qed
qed

lemma refusefile_frame:
  "config_parse_refusefile files c path = Inr c' \<Longrightarrow> \<exists>p. c' = c\<lparr>co_refusals := p\<rparr>"
  by (cases "files path") (auto simp: config_parse_refusefile_def bindE_Inr split: prod.splits if_splits
      intro: exI [of _ "co_refusals c"])

lemma refusefiles_frame: "config_parse_refusefiles files c = Inr c' \<Longrightarrow> \<exists>p. c' = c\<lparr>co_refusals := p\<rparr>"
  by (auto simp: config_parse_refusefiles_def bindE_Inr Let_def dest!: refusefile_frame split: option.splits)
    (metis coll.update_convs(11))

lemma fixup_colls_map: "fixup_colls files cs = Inr cs' \<Longrightarrow> list_all2 (\<lambda>c c'. \<exists>p. c' = (coll_fixup c)\<lparr>co_refusals := p\<rparr>) cs cs'"
  by (induction files cs arbitrary: cs' rule: fixup_colls.induct) (auto simp: bindE_Inr dest: refusefiles_frame)

text \<open>What the last loop and the refuse files do to a collection.\<close>

definition fixed_up :: "coll \<Rightarrow> coll \<Rightarrow> bool" where
  "fixed_up c c' \<longleftrightarrow> co_name c' = co_name c \<and> co_host c' = co_host c \<and> co_release c' = co_release c \<and>
     co_base c' = over (co_base c) (Some ''/usr/local/etc/cvsup'') \<and> co_listsuffix c' = co_listsuffix c \<and>
     co_tag c' = co_tag c \<and> co_date c' = co_date c \<and> co_umask c' = co_umask c \<and> co_accepts c' = co_accepts c \<and>
     co_attrignore c' = co_attrignore c \<and> co_colldir c' = over (co_colldir c) (Some ''sup'') \<and>
     co_prefix c' = Some (prefix_under (the (co_base c')) (co_prefix c)) \<and> co_prefixlen c' = length (the (co_prefix c')) \<and>
     co_options c' = checked_options (co_options c)"

lemma fixed_up_frame: "fixed_up c ((coll_fixup c)\<lparr>co_refusals := p\<rparr>)"
proof -
  have h: "(q \<noteq> [] \<and> hd q = CHR ''/'') = (take 1 q = ''/'')" for q :: string by (cases q) auto
  show ?thesis
    by (cases "co_base c"; cases "co_prefix c"; cases "co_colldir c")
      (auto simp: fixed_up_def coll_fixup_def Let_def over_def prefix_under_def h)
qed

text \<open>
  Claim C26. Every collection of the supfile gets its host, release, base, prefix, list suffix, tag
  and date from the command line, where that sets it, else from the last option among the default
  lines above the collection and its own line, else from the built-in default; tag and date of the
  command line count in checkout mode only. The umask is that of the last umask option, or the one
  of the process; the collection directory and the accepted patterns come from the command line, the
  directory being \<open>sup\<close> without. A prefix that is not absolute is below the base, and the base is the
  prefix if there is none. The flags are those the options set, with the overridden
  ones replaced; checksums of RCS files are on exactly for exact RCS files. All collections have
  one host and a release. (The refusals, which the refuse files add to, are not part of the claim.)
\<close>

theorem config_values:
  assumes "config_init files umask ov m ls = Inr cs"
  shows "list_all2 (\<lambda>(name, os) c.
      co_name c = Some name \<and>
      co_host c = over (co_host ov) (set_value PT_HOST None os) \<and>
      co_release c = over (co_release ov) (set_value PT_RELEASE None os) \<and>
      co_base c = over (over (co_base ov) (set_value PT_BASE None os)) (Some ''/usr/local/etc/cvsup'') \<and>
      co_prefix c = Some (prefix_under (the (co_base c)) (over (co_prefix ov) (set_value PT_PREFIX None os))) \<and>
      co_prefixlen c = length (the (co_prefix c)) \<and>
      co_listsuffix c = over (co_listsuffix ov) (set_value PT_LIST None os) \<and>
      co_tag c = over (if has_opt (co_options ov AND m) CO_CHECKOUTMODE then co_tag ov else None)
        (set_value PT_TAG (Some ''.'') os) \<and>
      co_date c = over (if has_opt (co_options ov AND m) CO_CHECKOUTMODE then co_date ov else None)
        (set_value PT_DATE (Some ''.'') os) \<and>
      co_umask c = set_umask umask os \<and>
      co_colldir c = over (co_colldir ov) (Some ''sup'') \<and>
      pattlist_addall pattlist_new (patterns (co_accepts ov)) = Some (co_accepts c) \<and>
      co_attrignore c = FA_DEV OR FA_INODE \<and>
      co_options c = checked_options ((set_flags 0 os AND (CO_MASK AND NOT m)) OR (co_options ov AND m)))
    (collections [] ls) cs \<and> cs \<noteq> [] \<and> same_hosts cs"
proof -
  let ?d = "(coll_new None)\<lparr>co_umask := umask\<rparr>"
  obtain g where g: "yyparse ov m \<lparr>colls = [], cur_coll = coll_new (Some ?d), defaults = ?d\<rparr> ls = Inr g"
    "colls g \<noteq> []" "fixup_colls files (colls g) = Inr cs"
    using assms by (auto simp: config_init_def Let_def bindE_Inr split: if_splits)
  have "inherits umask ?d []" "inherits umask (coll_new (Some ?d)) []" using inherits_start inherits_new by blast+
  with yyparse_added [OF g(1), of umask "[]"] have a: "list_all2 (added umask ov m) (collections [] ls) (colls g)" "same_hosts (colls g)"
    by auto
  have v: "list_all2 fixed_up (colls g) cs"
    using fixup_colls_map [OF g(3)] by (rule list_all2_mono) (auto intro: fixed_up_frame)
  have sh: "same_hosts cs"
    using v by (intro same_hosts_transfer [OF _ a(2)]) (auto simp: fixed_up_def elim: list_all2_mono)
  have ne: "cs \<noteq> []" using v g(2) by auto
  have "list_all2 (added umask ov m OO fixed_up) (collections [] ls) cs"
    using a(1) v by (auto simp: list.rel_compp)
  then show ?thesis
    by (intro conjI [OF _ conjI [OF ne sh]])
      (erule list_all2_mono, clarsimp simp: added_def fixed_up_def relcompp.simps split del: if_split)
qed

theorem config_values_witness:
  "let ls = [Default_line [(PT_HOST, Some ''h''), (PT_TAG, Some ''A''), (PT_UMASK, Some ''27'')],
             Collection_line ''ports'' [(PT_RELEASE, Some ''cvs''), (PT_PREFIX, Some ''p'')]];
       ov = (coll_new None)\<lparr>co_base := Some ''/b''\<rparr>
   in \<exists>c. config_init (\<lambda>_. None) 18 ov 0 ls = Inr [c] \<and> co_name c = Some ''ports'' \<and> co_host c = Some ''h'' \<and>
      co_base c = Some ''/b'' \<and> co_prefix c = Some ''/b/p'' \<and> co_tag c = Some ''A'' \<and> co_date c = Some ''.'' \<and>
      co_umask c = 23 \<and> co_colldir c = Some ''sup'' \<and> same_hosts [c]"
proof -
  let ?ls = "[Default_line [(PT_HOST, Some ''h''), (PT_TAG, Some ''A''), (PT_UMASK, Some ''27'')],
             Collection_line ''ports'' [(PT_RELEASE, Some ''cvs''), (PT_PREFIX, Some ''p'')]]"
  let ?ov = "(coll_new None)\<lparr>co_base := Some ''/b''\<rparr>"
  have u: "asciitoint ''27'' 8 = Some 23" by code_simp
  then have "\<exists>c. config_init (\<lambda>_. None) 18 ?ov 0 ?ls = Inr [c]"
    by (simp add: Let_def from_option_def config_init_def coll_new_def coll_zero_def coll_setopt_def coll_setdef_def coll_add_def coll_override_def
        override_fields_def pattlist_new_def over_def has_opt_def coll_fixup_def config_parse_refusefiles_def
        config_parse_refusefile_def coll_statussuffix_def)
  then obtain c where c: "config_init (\<lambda>_. None) 18 ?ov 0 ?ls = Inr [c]" by blast
  from config_values [OF c] c u show ?thesis
    by (auto simp: Let_def over_def coll_new_def coll_zero_def has_opt_def prefix_under_def)
qed

end
