(* ===== verification/Status.thy ===== *)
theory Status
  imports Pathcomp Proto Config
begin

text \<open>
  The status file of a collection, \<open>status.c\<close>: one line per record, sorted, with the
  directories entered and left as records of their own. An open status file reads the old file
  line by line and writes a new one next to it, which replaces the old one in \<open>status_close\<close>.
  The old file is the list of its lines and the \<open>errno\<close> of a read failure behind them, if
  there is one; the new file is the text written or, on a disk that can fill up, a stream of theory
  \<open>Stream\<close> with its buffer. The pointers
  \<open>previous\<close> and \<open>current\<close> point to the record \<open>buf\<close> or are NULL, so they are flags.
  The outer \<open>None\<close> is a failed assertion, a use of NULL or a second \<open>free\<close>.
\<close>

section \<open>Records\<close>

datatype sr_type = SR_DIRDOWN | SR_CHECKOUTLIVE | SR_CHECKOUTDEAD | SR_FILELIVE | SR_FILEDEAD | SR_DIRUP

text \<open>A pointer to file attributes: after a failed parse it may point to freed memory.\<close>

datatype attrptr = Anull | Aptr fattr | Afreed

record statusrec =
  sr_type :: sr_type
  sr_file :: string
  sr_tag :: line
  sr_date :: line
  sr_revnum :: line
  sr_revdate :: line
  sr_serverattr :: attrptr
  sr_clientattr :: attrptr

definition statusrec_init :: statusrec where
  "statusrec_init =
     \<lparr>sr_type = SR_DIRDOWN, sr_file = [], sr_tag = None, sr_date = None, sr_revnum = None, sr_revdate = None,
      sr_serverattr = Anull, sr_clientattr = Anull\<rparr>"

text \<open>Whether the pointers of the record may be freed.\<close>

definition statusrec_fini :: "statusrec \<Rightarrow> bool" where
  "statusrec_fini sr \<longleftrightarrow> sr_serverattr sr \<noteq> Afreed \<and> sr_clientattr sr \<noteq> Afreed"

text \<open>Decoding attributes: \<open>None\<close> in the argument is a NULL string.\<close>

definition cook_attr :: "idb \<Rightarrow> line \<Rightarrow> attrptr option" where
  "cook_attr db t =
     (case t of
        None \<Rightarrow> None
      | Some t \<Rightarrow> map_option (\<lambda>r. case r of None \<Rightarrow> Anull | Some fa \<Rightarrow> Aptr fa) (fattr_decode db t))"

definition cook_client :: "idb \<Rightarrow> statusrec \<Rightarrow> line \<Rightarrow> (statusrec \<times> int) option" where
  "cook_client db sr l =
     (let (clientattr, l) = proto_get_ascii l in
      if clientattr = None \<or> l \<noteq> None then Some (sr, -1)
      else map_option (\<lambda>p. (sr\<lparr>sr_clientattr := p\<rparr>, if p = Anull then -1 else 0)) (cook_attr db clientattr))"

definition statusrec_cook :: "idb \<Rightarrow> statusrec \<Rightarrow> line \<Rightarrow> (statusrec \<times> int) option" where
  "statusrec_cook db sr l =
     (case sr_type sr of
        SR_FILEDEAD \<Rightarrow> cook_client db sr l
      | SR_FILELIVE \<Rightarrow> cook_client db sr l
      | SR_DIRUP \<Rightarrow> cook_client db sr l
      | SR_DIRDOWN \<Rightarrow> Some (sr, if l \<noteq> None then -1 else 0)
      | SR_CHECKOUTLIVE \<Rightarrow>
          let (tag, l) = proto_get_ascii l; (date, l) = proto_get_ascii l; (serverattr, l) = proto_get_ascii l;
              (revnum, l) = proto_get_ascii l; (revdate, l) = proto_get_ascii l; (clientattr, l) = proto_get_ascii l;
              sr = sr\<lparr>sr_tag := tag, sr_date := date, sr_revnum := revnum, sr_revdate := revdate\<rparr>
          in if clientattr = None \<or> l \<noteq> None then Some (sr, -1)
             else (case cook_attr db serverattr of
                 None \<Rightarrow> None
               | Some Anull \<Rightarrow> Some (sr\<lparr>sr_serverattr := Anull\<rparr>, -1)
               | Some sp \<Rightarrow>
                   map_option (\<lambda>p. if p = Anull then (sr\<lparr>sr_serverattr := Afreed, sr_clientattr := Anull\<rparr>, -1)
                                   else (sr\<lparr>sr_serverattr := sp, sr_clientattr := p\<rparr>, 0))
                     (cook_attr db clientattr))
      | SR_CHECKOUTDEAD \<Rightarrow>
          let (tag, l) = proto_get_ascii l; (date, l) = proto_get_ascii l; (serverattr, l) = proto_get_ascii l;
              sr = sr\<lparr>sr_tag := tag, sr_date := date\<rparr>
          in if serverattr = None \<or> l \<noteq> None then Some (sr, -1)
             else map_option (\<lambda>p. (sr\<lparr>sr_serverattr := p\<rparr>, if p = Anull then -1 else 0)) (cook_attr db serverattr))"

text \<open>
  The order of the records: a directory up comes behind everything in the directory. The
  prefix test of the C code, with \<open>strncmp\<close> on the length of the directory's name.
\<close>

definition in_dir :: "string \<Rightarrow> string \<Rightarrow> bool" where
  "in_dir d s \<longleftrightarrow>
     (length d < length s \<and> s ! length d = CHR ''/'' \<or> length d = length s) \<and> take (length d) s = d"

definition statusrec_cmp :: "bool \<Rightarrow> statusrec \<Rightarrow> statusrec \<Rightarrow> int" where
  "statusrec_cmp sg a b =
     (if sr_type a = SR_DIRUP \<and> in_dir (sr_file a) (sr_file b) then 1
      else if sr_type b = SR_DIRUP \<and> in_dir (sr_file b) (sr_file a) then -1
      else pathcmp sg (sr_file a) (sr_file b))"

section \<open>The state\<close>

abbreviation (input) STATUS_ERR_READ :: int where "STATUS_ERR_READ \<equiv> -1"
abbreviation (input) STATUS_ERR_WRITE :: int where "STATUS_ERR_WRITE \<equiv> -2"
abbreviation (input) STATUS_ERR_PARSE :: int where "STATUS_ERR_PARSE \<equiv> -3"
abbreviation (input) STATUS_ERR_UNSORTED :: int where "STATUS_ERR_UNSORTED \<equiv> -4"
abbreviation (input) STATUS_ERR_TRUNC :: int where "STATUS_ERR_TRUNC \<equiv> -5"
abbreviation (input) STATUS_ERR_BOGUS_DIRUP :: int where "STATUS_ERR_BOGUS_DIRUP \<equiv> -6"
abbreviation (input) STATUS_ERR_BAD_TYPE :: int where "STATUS_ERR_BAD_TYPE \<equiv> -7"
abbreviation (input) STATUS_ERR_RENAME :: int where "STATUS_ERR_RENAME \<equiv> -8"

abbreviation (input) ENOSPC :: int where "ENOSPC \<equiv> 28"

text \<open>
  The new file. On a disk that never fills up the stream's buffer cannot be observed and the
  file is the text written so far (\<open>stream_session\<close>: all of it is delivered when the stream is
  closed). On one with room for \<open>n\<close> more bytes it is the buffered stream of
  \<open>stream_open_file\<close>, with no filter: its cookie is the room left and the content of the file.
\<close>

type_synonym dstream = "(nat \<times> string, string, unit) stream"

datatype wfile = Roomy string | Disk dstream

definition disk_write :: "nat \<times> string \<Rightarrow> string \<Rightarrow> (nat \<times> string) \<times> wres" where
  "disk_write k s =
     (case k of (room, w) \<Rightarrow>
        let m = min room (length s) in
        if m = 0 then (k, WFail) else ((room - m, w @ take m s), Wrote m))"

text \<open>\<open>stream_close_fd\<close> on the file; the digest and compression functions are never called.\<close>

definition wfile_open :: "nat option \<Rightarrow> wfile option" where
  "wfile_open room =
     (case room of
        None \<Rightarrow> Some (Roomy [])
      | Some n \<Rightarrow> map_option Disk (open_writer 1 plain_lib (n, []) disk_write (Some (\<lambda>k. (k, 0))) STREAM_FILTER_NULL))"

definition disk_fuel :: "dstream \<Rightarrow> nat" where
  "disk_fuel f = (case wrbuf f of Some b \<Rightarrow> bin b + 3 | None \<Rightarrow> 0)"

fun disk_puts :: "dstream \<Rightarrow> (bool \<times> string) list \<Rightarrow> (dstream \<times> int) option" where
  "disk_puts f [] = Some (f, 0)"
| "disk_puts f ((how, s) # ps) =
     (case (if how then stream_printf (disk_fuel f) plain_lib f s else stream_write (disk_fuel f) plain_lib f s) of
        None \<Rightarrow> None
      | Some (f', r) \<Rightarrow> if r = -1 then Some (f', -1) else disk_puts f' ps)"

text \<open>The content after \<open>stream_close\<close>, whose result \<open>status_free\<close> ignores.\<close>

definition wfile_close :: "wfile \<Rightarrow> string option" where
  "wfile_close f =
     (case f of
        Roomy w \<Rightarrow> Some w
      | Disk d \<Rightarrow> map_option (\<lambda>(d', _). snd (cookie d')) (stream_close (disk_fuel d) plain_lib d))"

definition STATUS_VERSION :: int where "STATUS_VERSION = 5"

record status =
  s_path :: string
  s_tempfile :: "string option"
  s_error :: int
  s_suberror :: int
  s_pc :: pathcomp
  s_buf :: statusrec
  s_previous :: bool
  s_current :: bool
  s_rd :: "(string list \<times> int option) option"
  s_wr :: "wfile option"
  s_scantime :: int
  s_eof :: bool
  s_linenum :: int
  s_depth :: int
  s_dirty :: bool

definition status_new :: "string \<Rightarrow> int \<Rightarrow> (string list \<times> int option) option \<Rightarrow> status" where
  "status_new path scantime file =
     \<lparr>s_path = path, s_tempfile = None, s_error = 0, s_suberror = 0, s_pc = pathcomp_new, s_buf = statusrec_init,
      s_previous = False, s_current = False, s_rd = file, s_wr = None, s_scantime = scantime, s_eof = False,
      s_linenum = 0, s_depth = 0, s_dirty = False\<rparr>"

definition set_err :: "int \<Rightarrow> int \<Rightarrow> status \<Rightarrow> status" where
  "set_err e sub st = st\<lparr>s_error := e, s_suberror := sub\<rparr>"

section \<open>Reading\<close>

text \<open>
  The type of a record from the letter of its line: \<open>None\<close> for an unknown letter; \<open>cmd\<close> is
  -1 where the line has no single letter in front.
\<close>

definition sr_letter :: "char option \<Rightarrow> sr_type option" where
  "sr_letter cmd =
     (if cmd = Some (CHR ''A'') then Some SR_FILELIVE else if cmd = Some (CHR ''D'') then Some SR_DIRDOWN
      else if cmd = Some (CHR ''C'') then Some SR_CHECKOUTLIVE else if cmd = Some (CHR ''c'') then Some SR_CHECKOUTDEAD
      else if cmd = Some (CHR ''U'') then Some SR_DIRUP else if cmd = Some (CHR ''V'') then Some SR_FILELIVE
      else if cmd = Some (CHR ''v'') then Some SR_FILEDEAD else None)"

text \<open>
  One raw record: \<open>Some (st, Some l)\<close> is the record in \<open>s_buf\<close> with the rest \<open>l\<close> of its line.
\<close>

definition status_rdraw :: "bool \<Rightarrow> status \<Rightarrow> (status \<times> line option) option" where
  "status_rdraw sg st =
     (if s_rd st = None \<or> s_eof st then Some (st, None)
      else case the (s_rd st) of
        ([], None) \<Rightarrow>
          Some (if s_depth st \<noteq> 0 then st\<lparr>s_error := STATUS_ERR_TRUNC\<rparr> else st\<lparr>s_eof := True\<rparr>, None)
      | ([], Some errno) \<Rightarrow> Some (set_err STATUS_ERR_READ errno st, None)
      | (l # ls, re) \<Rightarrow>
          let st = st\<lparr>s_rd := Some (ls, re), s_linenum := s_linenum st + 1\<rparr> in
          (case proto_get_char (Some l) of
             None \<Rightarrow> None
           | Some (cmd, l) \<Rightarrow>
               let (file, l) = proto_get_ascii l in
               (case file of
                  None \<Rightarrow> Some (st\<lparr>s_error := STATUS_ERR_PARSE\<rparr>, None)
                | Some file \<Rightarrow>
                    (case sr_letter cmd of
                       None \<Rightarrow>
                         Some (set_err STATUS_ERR_BAD_TYPE (case cmd of None \<Rightarrow> -1 | Some c \<Rightarrow> char_val sg c) st, None)
                     | Some t \<Rightarrow>
                         if t = SR_DIRUP \<and> s_depth st \<le> 0 then Some (st\<lparr>s_error := STATUS_ERR_BOGUS_DIRUP\<rparr>, None)
                         else
                           let st = st\<lparr>s_depth := (if t = SR_DIRDOWN then s_depth st + 1
                                                   else if t = SR_DIRUP then s_depth st - 1 else s_depth st)\<rparr>;
                               sr = statusrec_init\<lparr>sr_type := t, sr_file := file\<rparr>
                           in if s_previous st \<and> statusrec_cmp sg (s_buf st) sr \<ge> 0
                              then Some (st\<lparr>s_error := STATUS_ERR_UNSORTED\<rparr>, None)
                              else if s_previous st \<and> \<not> statusrec_fini (s_buf st) then None
                              else Some (st\<lparr>s_buf := sr, s_previous := True\<rparr>, Some l)))))"

text \<open>\<open>Some (st, True)\<close> is the complete record in \<open>s_buf\<close>.\<close>

definition status_rd :: "idb \<Rightarrow> bool \<Rightarrow> status \<Rightarrow> (status \<times> bool) option" where
  "status_rd db sg st =
     (case status_rdraw sg st of
        None \<Rightarrow> None
      | Some (st, None) \<Rightarrow> Some (st, False)
      | Some (st, Some l) \<Rightarrow>
          map_option (\<lambda>(sr, error). let st = st\<lparr>s_buf := sr\<rparr> in
              if error \<noteq> 0 then (st\<lparr>s_error := STATUS_ERR_PARSE\<rparr>, False) else (st, True))
            (statusrec_cook db (s_buf st) l))"

section \<open>Writing\<close>

definition status_printf :: "idb \<Rightarrow> status \<Rightarrow> string \<Rightarrow> parg list \<Rightarrow> (status \<times> int) option" where
  "status_printf db st fmt args =
     (case (proto_printf db fmt args, s_wr st) of
        (Some cs, Some (Roomy w)) \<Rightarrow> Some (st\<lparr>s_wr := Some (Roomy (w @ calls_text cs))\<rparr>, 0)
      | (Some cs, Some (Disk f)) \<Rightarrow>
          map_option (\<lambda>(f', r). (st\<lparr>s_wr := Some (Disk f')\<rparr>, r)) (disk_puts f cs)
      | _ \<Rightarrow> None)"

definition attr_arg :: "attrptr \<Rightarrow> parg option" where
  "attr_arg p = (case p of Aptr fa \<Rightarrow> Some (Afattr fa) | _ \<Rightarrow> None)"

text \<open>A format with its newline and the arguments; one that cannot be printed is a fault.\<close>

definition status_putln :: "idb \<Rightarrow> status \<Rightarrow> string \<Rightarrow> parg option list \<Rightarrow> (status \<times> int) option" where
  "status_putln db st fmt args = Option.bind (those args) (status_printf db st (fmt @ [CHR 0x0A]))"

definition record_pc :: "sr_type \<Rightarrow> pc_type" where
  "record_pc t = (if t = SR_DIRDOWN then PC_DIRDOWN else if t = SR_DIRUP then PC_DIRUP else PC_FILE)"

text \<open>The record's path goes into the compressor; its result -1 is ignored.\<close>

definition pc_feed :: "status \<Rightarrow> statusrec \<Rightarrow> status option" where
  "pc_feed st sr =
     (case pathcomp_put (s_pc st) (record_pc (sr_type sr)) (sr_file sr) of
        None \<Rightarrow> None | Some None \<Rightarrow> Some st | Some (Some pc) \<Rightarrow> Some (st\<lparr>s_pc := pc\<rparr>))"

definition pc_next :: "status \<Rightarrow> (status \<times> (pc_type \<times> string) option) option" where
  "pc_next st = map_option (\<lambda>(pc, ev). (st\<lparr>s_pc := pc\<rparr>, ev)) (pathcomp_get (s_pc st))"

definition wr_move :: "idb \<Rightarrow> status \<Rightarrow> attrptr \<Rightarrow> pc_type \<times> string \<Rightarrow> (status \<times> int) option" where
  "wr_move db st attr = (\<lambda>(type, name).
     case type of
       PC_DIRDOWN \<Rightarrow> status_putln db st ''D %s'' [Some (Astr (Some name))]
     | PC_DIRUP \<Rightarrow> status_putln db st ''U %s %a'' [Some (Astr (Some name)), attr_arg attr]
     | PC_FILE \<Rightarrow> Some (st, 0))"

text \<open>
  The loop over the moves, with fuel. \<open>attr\<close> is set while \<open>usedirupattr\<close> is: the attributes of the
  record for the first directory left.
\<close>

fun wr_moves :: "idb \<Rightarrow> nat \<Rightarrow> status \<Rightarrow> attrptr option \<Rightarrow> (status \<times> int) option" where
  "wr_moves db 0 st attr = None"
| "wr_moves db (Suc n) st attr =
     (case pc_next st of
        None \<Rightarrow> None
      | Some (st, None) \<Rightarrow> Some (st, 0)
      | Some (st, Some ev) \<Rightarrow>
          (case wr_move db st (case attr of None \<Rightarrow> Aptr fattr_bogus | Some p \<Rightarrow> p) ev of
             None \<Rightarrow> None
           | Some (st, error) \<Rightarrow>
               if error \<noteq> 0 then Some (st, -1)
               else wr_moves db n st (if fst ev = PC_DIRUP then None else attr)))"

definition wr_record :: "idb \<Rightarrow> status \<Rightarrow> statusrec \<Rightarrow> (status \<times> int) option" where
  "wr_record db st sr =
     (let file = Some (Astr (Some (sr_file sr))); server = attr_arg (sr_serverattr sr); client = attr_arg (sr_clientattr sr) in
      case sr_type sr of
        SR_DIRDOWN \<Rightarrow> Some (st, 0)
      | SR_DIRUP \<Rightarrow> Some (st, 0)
      | SR_CHECKOUTLIVE \<Rightarrow>
          status_putln db st ''C %s %s %s %a %s %s %a''
            [file, Some (Astr (sr_tag sr)), Some (Astr (sr_date sr)), server, Some (Astr (sr_revnum sr)),
             Some (Astr (sr_revdate sr)), client]
      | SR_CHECKOUTDEAD \<Rightarrow>
          status_putln db st ''c %s %s %s %a'' [file, Some (Astr (sr_tag sr)), Some (Astr (sr_date sr)), server]
      | SR_FILELIVE \<Rightarrow> status_putln db st ''V %s %a'' [file, client]
      | SR_FILEDEAD \<Rightarrow> status_putln db st ''v %s %a'' [file, client])"

definition status_wr :: "idb \<Rightarrow> status \<Rightarrow> statusrec \<Rightarrow> (status \<times> int) option" where
  "status_wr db st sr =
     Option.bind (pc_feed st sr) (\<lambda>st1.
     Option.bind (wr_moves db (length (sr_file sr) + curlen (s_pc st) + 2) st1
         (if sr_type sr = SR_DIRUP then Some (sr_clientattr sr) else None)) (\<lambda>(st2, error).
       if error \<noteq> 0 then Some (set_err STATUS_ERR_WRITE ENOSPC st2, -1)
       else map_option (\<lambda>(st3, error).
           if error \<noteq> 0 then (set_err STATUS_ERR_WRITE ENOSPC st3, -1) else (st3, 0)) (wr_record db st2 sr)))"

definition sr_cmd :: "sr_type \<Rightarrow> char" where
  "sr_cmd t = (case t of SR_DIRDOWN \<Rightarrow> CHR ''D'' | SR_DIRUP \<Rightarrow> CHR ''U'' | SR_CHECKOUTLIVE \<Rightarrow> CHR ''C''
     | SR_CHECKOUTDEAD \<Rightarrow> CHR ''c'' | SR_FILELIVE \<Rightarrow> CHR ''V'' | SR_FILEDEAD \<Rightarrow> CHR ''v'')"

text \<open>The compressor kept in step: exactly one move for a directory record, none for a file.\<close>

definition pc_sync :: "status \<Rightarrow> statusrec \<Rightarrow> status option" where
  "pc_sync st sr =
     Option.bind (pc_feed st sr) (\<lambda>st.
     Option.bind
       (if record_pc (sr_type sr) = PC_FILE then Some st
        else Option.bind (pc_next st) (\<lambda>(st, ev).
          if map_option fst ev = Some (record_pc (sr_type sr)) then Some st else None)) (\<lambda>st.
     Option.bind (pc_next st) (\<lambda>(st, ev). if ev = None then Some st else None)))"

definition status_wrraw :: "idb \<Rightarrow> status \<Rightarrow> statusrec \<Rightarrow> line \<Rightarrow> (status \<times> int) option" where
  "status_wrraw db st sr l =
     (if s_wr st = None then Some (st, 0)
      else Option.bind (pc_sync st sr) (\<lambda>st.
        map_option (\<lambda>(st, error). if error \<noteq> 0 then (set_err STATUS_ERR_WRITE ENOSPC st, -1) else (st, 0))
          (if sr_type sr = SR_DIRDOWN
           then status_putln db st ''%c %S'' [Some (Achar (sr_cmd (sr_type sr))), Some (Astr (Some (sr_file sr)))]
           else status_putln db st ''%c %s %S''
             [Some (Achar (sr_cmd (sr_type sr))), Some (Astr (Some (sr_file sr))), Some (Astr l)])))"

section \<open>Looking up, replacing and deleting\<close>

definition lines_left :: "status \<Rightarrow> nat" where
  "lines_left st = (case s_rd st of None \<Rightarrow> 0 | Some (ls, _) \<Rightarrow> length ls)"

lemma rdraw_lines: "status_rdraw sg st = Some (st', Some l) \<Longrightarrow> lines_left st = Suc (lines_left st')"
  by (auto simp: status_rdraw_def lines_left_def Let_def set_err_def split: option.splits list.splits prod.splits if_splits)

lemma printf_rd: "status_printf db st fmt args = Some (st', e) \<Longrightarrow> s_rd st' = s_rd st"
  by (auto simp: status_printf_def split: option.splits wfile.splits)

lemma putln_rd: "status_putln db st fmt args = Some (st', e) \<Longrightarrow> s_rd st' = s_rd st"
  by (auto simp: status_putln_def bind_eq_Some_conv dest: printf_rd)

lemma status_pc_frame: "st' = st \<or> (\<exists>pc. st' = st\<lparr>s_pc := pc\<rparr>) \<longleftrightarrow> (\<exists>pc. st' = st\<lparr>s_pc := pc\<rparr>)"
  by (metis status.surjective status.update_convs(5))

lemma pc_feed_frame: "pc_feed st sr = Some st' \<Longrightarrow> \<exists>pc. st' = st\<lparr>s_pc := pc\<rparr>"
  using status_pc_frame by (auto simp: pc_feed_def split: option.split_asm)

lemma pc_next_frame: "pc_next st = Some (st', ev) \<Longrightarrow> \<exists>pc. st' = st\<lparr>s_pc := pc\<rparr>"
  by (auto simp: pc_next_def)

lemma pc_sync_frame: "pc_sync st sr = Some st' \<Longrightarrow> \<exists>pc. st' = st\<lparr>s_pc := pc\<rparr>"
  by (auto simp: pc_sync_def bind_eq_Some_conv dest!: pc_feed_frame pc_next_frame split: if_split_asm)

lemma pc_sync_rd: "pc_sync st sr = Some st' \<Longrightarrow> s_rd st' = s_rd st"
  using pc_sync_frame by fastforce

lemma wrraw_rd: "status_wrraw db st sr l = Some (st', e) \<Longrightarrow> s_rd st' = s_rd st"
  by (auto simp: status_wrraw_def bind_eq_Some_conv set_err_def dest!: putln_rd pc_sync_rd split: if_splits)

datatype seekres = Seek_end | Seek_fail | Seek_at line int

text \<open>The loop of \<open>status_get\<close> up to the first record that is not below the key.\<close>

function status_seek :: "idb \<Rightarrow> bool \<Rightarrow> bool \<Rightarrow> statusrec \<Rightarrow> status \<Rightarrow> (status \<times> seekres) option" where
  "status_seek db sg deleteto key st =
     (case status_rdraw sg st of
        None \<Rightarrow> None
      | Some (st1, None) \<Rightarrow> Some (st1, Seek_end)
      | Some (st1, Some l) \<Rightarrow>
          let c = statusrec_cmp sg (s_buf st1) key in
          if c \<ge> 0 then Some (st1, Seek_at l c)
          else if s_wr st1 \<noteq> None \<and> \<not> deleteto then
            (case status_wrraw db st1 (s_buf st1) l of
               None \<Rightarrow> None
             | Some (st2, error) \<Rightarrow> if error \<noteq> 0 then Some (st2, Seek_fail) else status_seek db sg deleteto key st2)
          else status_seek db sg deleteto key st1)"
  by auto
termination
  by (relation "measure (\<lambda>(db, sg, deleteto, key, st). lines_left st)")
    (auto dest!: rdraw_lines wrraw_rd simp: lines_left_def split: option.splits)

declare status_seek.simps [simp del]

text \<open>
  The result of a lookup: 1 is a record found, which is \<open>s_buf\<close>; 0 none; -1 an error. First the
  part of \<open>status_get\<close> behind the record in \<open>s_buf\<close> from which the search starts.
\<close>

definition nothing :: "status \<Rightarrow> status \<times> int" where
  "nothing st = (st, if s_error st \<noteq> 0 then -1 else 0)"

definition status_look :: "idb \<Rightarrow> bool \<Rightarrow> bool \<Rightarrow> statusrec \<Rightarrow> status \<Rightarrow> (status \<times> int) option" where
  "status_look db sg deleteto key st =
     (let c = statusrec_cmp sg (s_buf st) key in
      if c \<ge> 0 then Some (st\<lparr>s_current := True\<rparr>, if c \<noteq> 0 then 0 else 1)
      else
        Option.bind (if s_wr st \<noteq> None \<and> \<not> deleteto then status_wr db st (s_buf st) else Some (st, 0)) (\<lambda>(st, error).
        if error \<noteq> 0 then Some (st, -1)
        else Option.bind (status_seek db sg deleteto key st) (\<lambda>(st, r).
          case r of
            Seek_fail \<Rightarrow> Some (st, -1)
          | Seek_end \<Rightarrow> Some (nothing st)
          | Seek_at l c \<Rightarrow>
              map_option (\<lambda>(sr, error). let st = st\<lparr>s_buf := sr\<rparr> in
                  if error \<noteq> 0 then (st\<lparr>s_error := STATUS_ERR_PARSE\<rparr>, -1)
                  else (st\<lparr>s_current := True\<rparr>, if c \<noteq> 0 then 0 else 1))
                (statusrec_cook db (s_buf st) l))))"

definition status_key :: "string \<Rightarrow> bool \<Rightarrow> statusrec" where
  "status_key name isdirup =
     statusrec_init\<lparr>sr_type := (if isdirup then SR_DIRUP else SR_CHECKOUTLIVE), sr_file := name\<rparr>"

definition status_get :: "idb \<Rightarrow> bool \<Rightarrow> status \<Rightarrow> string option \<Rightarrow> bool \<Rightarrow> bool \<Rightarrow> (status \<times> int) option" where
  "status_get db sg st name isdirup deleteto =
     (if s_eof st then Some (st, 0)
      else if s_error st \<noteq> 0 then Some (st, -1)
      else case name of
        None \<Rightarrow> map_option (\<lambda>(st, ok). if ok then (st, 1) else nothing st) (status_rd db sg st)
      | Some nm \<Rightarrow>
          Option.bind (if s_current st then Some (st\<lparr>s_current := False\<rparr>, True) else status_rd db sg st) (\<lambda>(st, ok).
          if \<not> ok then Some (nothing st) else status_look db sg deleteto (status_key nm isdirup) st))"

definition status_put :: "idb \<Rightarrow> bool \<Rightarrow> status \<Rightarrow> statusrec \<Rightarrow> (status \<times> int) option" where
  "status_put db sg st sr =
     Option.bind (status_get db sg st (Some (sr_file sr)) (sr_type sr = SR_DIRUP) False) (\<lambda>(st, ret).
     if ret = -1 then Some (st, -1)
     else
       Option.bind
         (if ret = 0 then Some (st, 0 :: int)
          else if sr_type (s_buf st) = SR_DIRDOWN then
            if sr_type sr = SR_CHECKOUTLIVE \<or> sr_type sr = SR_CHECKOUTDEAD then
              Option.bind (status_get db sg st (Some (sr_file sr)) True True) (\<lambda>(st, ret).
                if ret = -1 then Some (st, -1) else if ret = 0 then None else Some (st, 0))
            else Some (st, 0)
          else Some (st\<lparr>s_current := False\<rparr>, 0)) (\<lambda>(st, error).
       if error \<noteq> 0 then Some (st, -1)
       else map_option (\<lambda>(st, error). (st, if error \<noteq> 0 then -1 else 0)) (status_wr db (st\<lparr>s_dirty := True\<rparr>) sr)))"

definition status_delete :: "idb \<Rightarrow> bool \<Rightarrow> status \<Rightarrow> string \<Rightarrow> bool \<Rightarrow> (status \<times> int) option" where
  "status_delete db sg st name isdirup =
     map_option (\<lambda>(st, ret).
         if ret = -1 then (st, -1)
         else if ret \<noteq> 0 then (st\<lparr>s_current := False, s_dirty := True\<rparr>, 0) else (st, 0))
       (status_get db sg st (Some name) isdirup False)"

section \<open>Closing\<close>

text \<open>The message for an error; \<open>None\<close> outside is the failed assertion of an unknown error.\<close>

definition status_errmsg :: "(int \<Rightarrow> string) \<Rightarrow> status \<Rightarrow> string option option" where
  "status_errmsg strerror st =
     (let q = (\<lambda>s. [CHR 0x22] @ s @ [CHR 0x22]);
          temp = (case s_tempfile st of None \<Rightarrow> ''(null)'' | Some t \<Rightarrow> t);
          at_line = ''Error in '' @ q (s_path st) @ '': '' @ int_str (s_linenum st) @ '': '';
          e = s_error st
      in if e = 0 then Some None
         else if e = STATUS_ERR_READ then Some (Some (''Read failure on '' @ q (s_path st) @ '': '' @ strerror (s_suberror st)))
         else if e = STATUS_ERR_WRITE then Some (Some (''Write failure on '' @ q temp @ '': '' @ strerror (s_suberror st)))
         else if e = STATUS_ERR_PARSE then Some (Some (at_line @ ''Could not parse status record''))
         else if e = STATUS_ERR_UNSORTED then Some (Some (at_line @ ''File is not sorted properly''))
         else if e = STATUS_ERR_TRUNC then Some (Some (''Error in '' @ q (s_path st) @ '': File is truncated''))
         else if e = STATUS_ERR_BOGUS_DIRUP then
           Some (Some (at_line @ q ''U'' @ '' entry has no matching '' @ q ''D''))
         else if e = STATUS_ERR_BAD_TYPE then
           Some (Some (at_line @ ''Invalid file type '' @ q [char_of (nat (s_suberror st mod 256))]))
         else if e = STATUS_ERR_RENAME then
           Some (Some (''Cannot rename '' @ q temp @ '' to '' @ q (s_path st) @ '': '' @ strerror (s_suberror st)))
         else None)"

text \<open>The loop that copies the rest of the file; the flag is cleared by a write error.\<close>

function status_copy :: "idb \<Rightarrow> bool \<Rightarrow> status \<Rightarrow> (status \<times> bool) option" where
  "status_copy db sg st =
     (case status_rdraw sg st of
        None \<Rightarrow> None
      | Some (st1, None) \<Rightarrow> Some (st1, True)
      | Some (st1, Some l) \<Rightarrow>
          (case status_wrraw db st1 (s_buf st1) l of
             None \<Rightarrow> None
           | Some (st2, error) \<Rightarrow> if error \<noteq> 0 then Some (st2, False) else status_copy db sg st2))"
  by auto
termination
  by (relation "measure (\<lambda>(db, sg, st). lines_left st)")
    (auto dest!: rdraw_lines wrraw_rd simp: lines_left_def split: option.splits)

declare status_copy.simps [simp del]

text \<open>The loop that closes the open directories.\<close>

fun wr_closing :: "idb \<Rightarrow> nat \<Rightarrow> status \<Rightarrow> (status \<times> int) option" where
  "wr_closing db 0 st = None"
| "wr_closing db (Suc n) st =
     (case pc_next st of
        None \<Rightarrow> None
      | Some (st, None) \<Rightarrow> Some (st, 0)
      | Some (st, Some (type, name)) \<Rightarrow>
          if type \<noteq> PC_DIRUP then None
          else (case status_putln db st ''U %s %a'' [Some (Astr (Some name)), Some (Afattr fattr_bogus)] of
               None \<Rightarrow> None
             | Some (st, error) \<Rightarrow>
                 if error \<noteq> 0 then Some (set_err STATUS_ERR_WRITE ENOSPC st, -1) else wr_closing db n st))"

text \<open>What becomes of the temporary file.\<close>

datatype tempfate = No_tempfile | Temp_left | Temp_unlinked | Temp_renamed string

text \<open>
  \<open>rename\<close> is the \<open>errno\<close> of the system call, \<open>None\<close> where it succeeds. The result is the
  message of an error and the fate of the temporary file. The renamed file has the content that
  closing its stream leaves in it, which happens after the rename, in \<open>status_free\<close>.
\<close>

definition status_finish :: "idb \<Rightarrow> bool \<Rightarrow> int option \<Rightarrow> status \<Rightarrow> (status \<times> tempfate) option" where
  "status_finish db sg rename st =
     Option.bind
       (if s_current st
        then map_option (\<lambda>(st, error). (if error \<noteq> 0 then st else st\<lparr>s_current := False\<rparr>, error)) (status_wr db st (s_buf st))
        else Some (st, 0)) (\<lambda>(st, error).
     if error \<noteq> 0 then Some (st, Temp_left)
     else Option.bind (status_copy db sg st) (\<lambda>(st, ok).
       if \<not> ok \<or> s_error st \<noteq> 0 then Some (st, Temp_left)
       else Option.bind (wr_closing db (curlen (s_pc st) + 2) (st\<lparr>s_pc := pathcomp_finish (s_pc st)\<rparr>)) (\<lambda>(st, error).
         if error \<noteq> 0 then Some (st, Temp_left)
         else case rename of
           Some e \<Rightarrow> Some (set_err STATUS_ERR_RENAME e st, Temp_left)
         | None \<Rightarrow> map_option (\<lambda>w. (st, Temp_renamed w)) (Option.bind (s_wr st) wfile_close))))"

definition status_close ::
  "idb \<Rightarrow> bool \<Rightarrow> (int \<Rightarrow> string) \<Rightarrow> int option \<Rightarrow> status \<Rightarrow> (string option \<times> tempfate) option" where
  "status_close db sg strerror rename st =
     Option.bind
       (if s_wr st = None then Some (st, No_tempfile)
        else if s_dirty st then status_finish db sg rename st
        else Some (st, Temp_unlinked)) (\<lambda>(st, fate).
     Option.bind (if fate = Temp_left then status_errmsg strerror st else Some None) (\<lambda>msg.
       if s_previous st \<and> \<not> statusrec_fini (s_buf st) then None else Some (msg, fate)))"

section \<open>Opening\<close>

text \<open>
  The system calls: the content of a file or the \<open>errno\<close>, and for the new file, whose room is
  that of the disk, the calls that create and prepare it.
\<close>

record status_env =
  se_open :: "string \<Rightarrow> int + (string list \<times> int option)"
  se_mkdir :: "string \<Rightarrow> int option"
  se_create :: "string \<Rightarrow> int + nat option"
  se_setattr :: "string \<Rightarrow> int option"
  se_tempname :: "string \<Rightarrow> string"
  se_strerror :: "int \<Rightarrow> string"

definition status_fromrd :: "string \<Rightarrow> string list \<times> int option \<Rightarrow> status option" where
  "status_fromrd path file =
     (case file of
        ([], _) \<Rightarrow> None
      | (l # ls, re) \<Rightarrow>
          let (id, l1) = proto_get_ascii (Some l); (ver, l2) = proto_get_int l1 10; (scantime, l3) = proto_get_time l2 in
          (case (ver, scantime) of
             (Some v, Some t) \<Rightarrow>
               if l3 \<noteq> None \<or> id \<noteq> Some ''F'' \<or> v \<noteq> STATUS_VERSION then None
               else Some ((status_new path t (Some (ls, re)))\<lparr>s_linenum := 1\<rparr>)
           | _ \<Rightarrow> None))"

definition status_fromnull :: "string \<Rightarrow> status" where
  "status_fromnull path = (status_new path (-1) None)\<lparr>s_eof := True\<rparr>"

abbreviation (input) ENOENT :: int where "ENOENT \<equiv> 2"

text \<open>The part of \<open>status_open\<close> that opens the new file for writing.\<close>

definition status_open_wr ::
  "idb \<Rightarrow> status_env \<Rightarrow> coll \<Rightarrow> int \<Rightarrow> status \<Rightarrow> (string + status) option" where
  "status_open_wr db env c scantime st =
     (case (co_base c, co_colldir c, co_name c) of
        (Some base, Some colldir, Some name) \<Rightarrow>
          let dest = base @ ''/'' @ colldir @ ''/'' @ name @ ''/''; temp = se_tempname env dest;
              q = (\<lambda>s. [CHR 0x22] @ s @ [CHR 0x22]); st = st\<lparr>s_tempfile := Some temp\<rparr> in
          (case se_mkdir env dest of
             Some e \<Rightarrow> Some (Inl (''Cannot create directories leading to '' @ q dest @ '': '' @ se_strerror env e))
           | None \<Rightarrow>
               (case se_create env temp of
                  Inl e \<Rightarrow> Some (Inl (''Cannot create '' @ q temp @ '': '' @ se_strerror env e))
                | Inr room \<Rightarrow>
                    (case se_setattr env temp of
                       Some e \<Rightarrow> Some (Inl (''Cannot set attributes for '' @ q temp @ '': '' @ se_strerror env e))
                     | None \<Rightarrow>
                         Option.bind (wfile_open room) (\<lambda>f.
                         let st = st\<lparr>s_wr := Some f, s_dirty := (scantime \<noteq> s_scantime st)\<rparr> in
                         Option.bind (status_putln db st ''F %d %t'' [Some (Aint STATUS_VERSION), Some (Atime scantime)])
                           (\<lambda>(st, error).
                             if error \<noteq> 0
                             then map_option (\<lambda>m. Inl (case m of None \<Rightarrow> [] | Some m \<Rightarrow> m))
                               (status_errmsg (se_strerror env) (set_err STATUS_ERR_WRITE ENOSPC st))
                             else Some (Inr st))))))
      | _ \<Rightarrow> None)"

definition status_open :: "idb \<Rightarrow> status_env \<Rightarrow> coll \<Rightarrow> int \<Rightarrow> (string + status) option" where
  "status_open db env c scantime =
     Option.bind (coll_statuspath c) (\<lambda>path.
     let q = (\<lambda>s. [CHR 0x22] @ s @ [CHR 0x22]);
         opened = (case se_open env path of
           Inl e \<Rightarrow>
             if e \<noteq> ENOENT then Inl (''Could not open '' @ q path @ '': '' @ se_strerror env e @ [CHR 0x0A])
             else Inr (status_fromnull path)
         | Inr file \<Rightarrow>
             (case status_fromrd path file of
                None \<Rightarrow> Inl (''Error in '' @ q path @ '': Bad header line'')
              | Some st \<Rightarrow> Inr st))
     in case opened of
          Inl msg \<Rightarrow> Some (Inl msg)
        | Inr st \<Rightarrow> if scantime \<noteq> -1 then status_open_wr db env c scantime st else Some (Inr st))"

end
