(* ===== verification/Statusfile.thy ===== *)
theory Statusfile
  imports Status
begin

text \<open>
  What a session on a status file does. A status file is seen as the list of its records:
  \<open>rec_line\<close> is the line of a record, \<open>emit\<close> what writing a record adds to the new file, with
  the directory moves of the path compressor. The operations are then updates of the list: a
  refinement of \<open>status_open\<close>, \<open>status_put\<close>, \<open>status_delete\<close> and \<open>status_close\<close>.
\<close>

section \<open>Lines\<close>

definition attr_ok :: "idb \<Rightarrow> fattr \<Rightarrow> bool" where
  "attr_ok db fa \<longleftrightarrow>
     (\<exists>t. fattr_encode db fa None 0 = Some t \<and> t \<noteq> [] \<and> CHR 0x00 \<notin> set t \<and> fattr_decode db t = Some (Some fa))"

definition ptr_text :: "idb \<Rightarrow> attrptr \<Rightarrow> string" where
  "ptr_text db p = (case p of Aptr fa \<Rightarrow> esc (the (fattr_encode db fa None 0)) | _ \<Rightarrow> [])"

definition str_text :: "line \<Rightarrow> string" where
  "str_text s = esc (the s)"

definition rec_toks :: "idb \<Rightarrow> statusrec \<Rightarrow> string list" where
  "rec_toks db sr =
     (case sr_type sr of
        SR_DIRDOWN \<Rightarrow> []
      | SR_CHECKOUTLIVE \<Rightarrow>
          [str_text (sr_tag sr), str_text (sr_date sr), ptr_text db (sr_serverattr sr), str_text (sr_revnum sr),
           str_text (sr_revdate sr), ptr_text db (sr_clientattr sr)]
      | SR_CHECKOUTDEAD \<Rightarrow> [str_text (sr_tag sr), str_text (sr_date sr), ptr_text db (sr_serverattr sr)]
      | _ \<Rightarrow> [ptr_text db (sr_clientattr sr)])"

definition rest_line :: "string list \<Rightarrow> line" where
  "rest_line ws = (if ws = [] then None else Some (spaced ws))"

definition rec_line :: "idb \<Rightarrow> statusrec \<Rightarrow> string" where
  "rec_line db sr = spaced ([sr_cmd (sr_type sr)] # esc (sr_file sr) # rec_toks db sr)"

text \<open>A complete record: the fields its type has are set, the others are not.\<close>

definition str_ok :: "line \<Rightarrow> bool" where
  "str_ok s \<longleftrightarrow> (\<exists>t. s = Some t \<and> t \<noteq> [] \<and> CHR 0x00 \<notin> set t)"

definition ptr_ok :: "idb \<Rightarrow> attrptr \<Rightarrow> bool" where
  "ptr_ok db p \<longleftrightarrow> (\<exists>fa. p = Aptr fa \<and> attr_ok db fa)"

definition rec_ok :: "idb \<Rightarrow> statusrec \<Rightarrow> bool" where
  "rec_ok db sr \<longleftrightarrow> sr_file sr \<noteq> [] \<and> path_ok (sr_file sr) \<and>
     (if sr_type sr = SR_CHECKOUTLIVE
      then str_ok (sr_tag sr) \<and> str_ok (sr_date sr) \<and> ptr_ok db (sr_serverattr sr) \<and> str_ok (sr_revnum sr) \<and>
        str_ok (sr_revdate sr) \<and> ptr_ok db (sr_clientattr sr)
      else if sr_type sr = SR_CHECKOUTDEAD
      then str_ok (sr_tag sr) \<and> str_ok (sr_date sr) \<and> ptr_ok db (sr_serverattr sr) \<and> sr_revnum sr = None \<and>
        sr_revdate sr = None \<and> sr_clientattr sr = Anull
      else sr_tag sr = None \<and> sr_date sr = None \<and> sr_serverattr sr = Anull \<and> sr_revnum sr = None \<and>
        sr_revdate sr = None \<and>
        (if sr_type sr = SR_DIRDOWN then sr_clientattr sr = Anull else ptr_ok db (sr_clientattr sr)))"

lemma spaced_rest: "spaced (w # ws) = w @ line_tail (rest_line ws)"
  by (simp add: spaced_Cons rest_line_def)

lemma rest_line_Cons: "rest_line (w # ws) = Some (w @ line_tail (rest_line ws))"
  by (simp add: rest_line_def spaced_rest)

lemma get_ascii_esc:
  "s \<noteq> [] \<Longrightarrow> proto_get_ascii (Some (esc s @ line_tail r)) = (Some s, r)"
  using get_ascii_token [of "esc s" r] esc_clean [of "CHR '' ''" s] unescape_esc [of s "[]"] by simp

lemma get_str: "str_ok s \<Longrightarrow> proto_get_ascii (rest_line (str_text s # ws)) = (s, rest_line ws)"
  by (auto simp: str_ok_def str_text_def rest_line_Cons get_ascii_esc)

lemma get_ptr:
  assumes "ptr_ok db p"
  shows "\<exists>t. proto_get_ascii (rest_line (ptr_text db p # ws)) = (Some t, rest_line ws) \<and> cook_attr db (Some t) = Some p"
  using assms by (auto simp: ptr_ok_def attr_ok_def ptr_text_def rest_line_Cons get_ascii_esc cook_attr_def)

definition raw :: "statusrec \<Rightarrow> statusrec" where
  "raw sr = statusrec_init\<lparr>sr_type := sr_type sr, sr_file := sr_file sr\<rparr>"

lemma raw_simps [simp]: "sr_type (raw sr) = sr_type sr" "sr_file (raw sr) = sr_file sr" "statusrec_fini (raw sr)"
  by (simp_all add: raw_def statusrec_init_def statusrec_fini_def)

lemma cmp_raw [simp]: "statusrec_cmp sg (raw a) b = statusrec_cmp sg a b" "statusrec_cmp sg a (raw b) = statusrec_cmp sg a b"
  by (simp_all add: statusrec_cmp_def)

lemma rest_line_Nil [simp]: "rest_line [] = None"
  by (simp add: rest_line_def)

lemma cook_line:
  assumes "rec_ok db sr"
  shows "statusrec_cook db (raw sr) (rest_line (rec_toks db sr)) = Some (sr, 0)"
proof -
  note P = get_ptr [of db "sr_serverattr sr"] get_ptr [of db "sr_clientattr sr" "[]"]
  have eq: "raw sr\<lparr>sr_tag := sr_tag sr, sr_date := sr_date sr, sr_revnum := sr_revnum sr, sr_revdate := sr_revdate sr,
      sr_serverattr := sr_serverattr sr, sr_clientattr := sr_clientattr sr\<rparr> = sr"
    by (simp add: raw_def statusrec_init_def)
  show ?thesis
  proof (cases "sr_type sr")
    case SR_CHECKOUTLIVE
    with assms P(1) [of "[str_text (sr_revnum sr), str_text (sr_revdate sr), ptr_text db (sr_clientattr sr)]"] P(2) eq
    show ?thesis
      by (auto simp: statusrec_cook_def rec_ok_def rec_toks_def get_str ptr_ok_def)
  next
    case SR_CHECKOUTDEAD
    with assms P(1) [of "[]"] show ?thesis
      by (auto simp: statusrec_cook_def rec_ok_def rec_toks_def get_str ptr_ok_def raw_def statusrec_init_def
          intro!: statusrec.equality)
  qed (use assms P(2) in \<open>auto simp: statusrec_cook_def cook_client_def rec_ok_def rec_toks_def ptr_ok_def raw_def
    statusrec_init_def intro!: statusrec.equality\<close>)
qed

section \<open>Printing\<close>

text \<open>An open new file on a disk that is not full.\<close>

definition writing :: "status \<Rightarrow> string \<Rightarrow> bool" where
  "writing st w \<longleftrightarrow> s_wr st = Some (Roomy w)"

definition wrote :: "status \<Rightarrow> string \<Rightarrow> status" where
  "wrote st t = st\<lparr>s_wr := map_option (\<lambda>f. case f of Roomy w \<Rightarrow> Roomy (w @ t) | Disk d \<Rightarrow> Disk d) (s_wr st)\<rparr>"

lemma wrote_simps [simp]:
  "writing st w \<Longrightarrow> writing (wrote st t) (w @ t)" "wrote (wrote st t) u = wrote st (t @ u)"
  "wrote st [] = st"
proof -
  show "writing st w \<Longrightarrow> writing (wrote st t) (w @ t)" by (simp add: writing_def wrote_def)
  show "wrote (wrote st t) u = wrote st (t @ u)"
    by (cases "s_wr st") (auto simp: wrote_def split: wfile.split)
  show "wrote st [] = st"
    by (cases st; cases "s_wr st") (auto simp: wrote_def split: wfile.split)
qed

lemma putln_text:
  assumes "writing st w" and "those args = Some as'" and "printf_text db (fmt @ [CHR 0x0A]) as' = Some t"
  shows "status_putln db st fmt args = Some (wrote st t, 0)"
  using assms by (auto simp: status_putln_def status_printf_def printf_text_def writing_def wrote_def)

lemmas printf_simps = printf_text_conv printf_text_lit proto_conv_def proto_escape_text

lemma put_down: "writing st w \<Longrightarrow>
  status_putln db st ''D %s'' [Some (Astr (Some s))] = Some (wrote st (''D '' @ esc s @ [CHR 0x0A]), 0)"
  by (rule putln_text [where as' = "[Astr (Some s)]"]) (simp_all add: printf_simps)

definition prints :: "idb \<Rightarrow> attrptr \<Rightarrow> bool" where
  "prints db p \<longleftrightarrow> (\<exists>fa t. p = Aptr fa \<and> fattr_encode db fa None 0 = Some t)"

lemma prints_arg: "prints db p \<Longrightarrow> \<exists>fa t. p = Aptr fa \<and> fattr_encode db fa None 0 = Some t \<and> ptr_text db p = esc t"
  by (auto simp: prints_def ptr_text_def)

lemma ptr_ok_prints: "ptr_ok db p \<Longrightarrow> prints db p"
  by (auto simp: ptr_ok_def attr_ok_def prints_def)

lemma bogus_prints: "prints db (Aptr fattr_bogus)"
  by (simp add: prints_def fattr_bogus_def fattr_encode_def encode_mask_def hasa_def Let_def)

lemma put_up:
  assumes "writing st w" and "prints db p"
  shows "status_putln db st ''U %s %a'' [Some (Astr (Some s)), attr_arg p] =
    Some (wrote st (''U '' @ esc s @ '' '' @ ptr_text db p @ [CHR 0x0A]), 0)"
proof -
  from prints_arg [OF assms(2)] obtain fa t where "p = Aptr fa" "fattr_encode db fa None 0 = Some t" "ptr_text db p = esc t"
    by blast
  then show ?thesis
    using putln_text [OF assms(1), of "[Some (Astr (Some s)), attr_arg p]" "[Astr (Some s), Afattr fa]" db "''U %s %a''"]
    by (simp add: printf_simps attr_arg_def)
qed

lemma str_ok_arg: "str_ok s \<Longrightarrow> \<exists>t. s = Some t \<and> str_text s = esc t"
  by (auto simp: str_ok_def str_text_def)

lemma spaced_simps: "spaced [w] = w" "spaced (w # v # ws) = w @ CHR '' '' # spaced (v # ws)"
  by (simp_all add: spaced_def)

text \<open>The line of a record that is not a directory.\<close>

definition body_text :: "idb \<Rightarrow> statusrec \<Rightarrow> string" where
  "body_text db sr = (if record_pc (sr_type sr) = PC_FILE then rec_line db sr @ [CHR 0x0A] else [])"

lemma wr_record_text:
  assumes "writing st w" and "rec_ok db sr"
  shows "wr_record db st sr = Some (wrote st (body_text db sr), 0)"
proof (cases "sr_type sr")
  case SR_CHECKOUTLIVE
  with assms(2) have ok: "str_ok (sr_tag sr)" "str_ok (sr_date sr)" "prints db (sr_serverattr sr)" "str_ok (sr_revnum sr)"
      "str_ok (sr_revdate sr)" "prints db (sr_clientattr sr)"
    by (simp_all add: rec_ok_def ptr_ok_prints)
  from ok(1,2,4,5) [THEN str_ok_arg] ok(3,6) [THEN prints_arg]
  obtain tag date rn rd fs fc ts tc where a: "sr_tag sr = Some tag" "sr_date sr = Some date" "sr_revnum sr = Some rn"
      "sr_revdate sr = Some rd" "sr_serverattr sr = Aptr fs" "sr_clientattr sr = Aptr fc"
      "fattr_encode db fs None 0 = Some ts" "fattr_encode db fc None 0 = Some tc" by blast
  show ?thesis
    using putln_text [OF assms(1), where as' = "[Astr (Some (sr_file sr)), Astr (Some tag), Astr (Some date), Afattr fs,
        Astr (Some rn), Astr (Some rd), Afattr fc]" and db = db and fmt = "''C %s %s %s %a %s %s %a''"] a SR_CHECKOUTLIVE
    by (simp add: wr_record_def printf_simps attr_arg_def body_text_def rec_line_def rec_toks_def record_pc_def
        spaced_simps str_text_def ptr_text_def sr_cmd_def)
next
  case SR_CHECKOUTDEAD
  with assms(2) have ok: "str_ok (sr_tag sr)" "str_ok (sr_date sr)" "prints db (sr_serverattr sr)"
    by (simp_all add: rec_ok_def ptr_ok_prints)
  from ok(1,2) [THEN str_ok_arg] ok(3) [THEN prints_arg]
  obtain tag date fs ts where a: "sr_tag sr = Some tag" "sr_date sr = Some date" "sr_serverattr sr = Aptr fs"
      "fattr_encode db fs None 0 = Some ts" by blast
  show ?thesis
    using putln_text [OF assms(1), where as' = "[Astr (Some (sr_file sr)), Astr (Some tag), Astr (Some date), Afattr fs]"
        and db = db and fmt = "''c %s %s %s %a''"] a SR_CHECKOUTDEAD
    by (simp add: wr_record_def printf_simps attr_arg_def body_text_def rec_line_def rec_toks_def record_pc_def
        spaced_simps str_text_def ptr_text_def sr_cmd_def)
next
  case SR_FILELIVE
  with assms(2) have "prints db (sr_clientattr sr)" by (simp add: rec_ok_def ptr_ok_prints)
  from prints_arg [OF this] obtain fc tc where a: "sr_clientattr sr = Aptr fc" "fattr_encode db fc None 0 = Some tc" by blast
  show ?thesis
    using putln_text [OF assms(1), where as' = "[Astr (Some (sr_file sr)), Afattr fc]" and db = db and fmt = "''V %s %a''"]
      a SR_FILELIVE
    by (simp add: wr_record_def printf_simps attr_arg_def body_text_def rec_line_def rec_toks_def record_pc_def
        spaced_simps ptr_text_def sr_cmd_def)
next
  case SR_FILEDEAD
  with assms(2) have "prints db (sr_clientattr sr)" by (simp add: rec_ok_def ptr_ok_prints)
  from prints_arg [OF this] obtain fc tc where a: "sr_clientattr sr = Aptr fc" "fattr_encode db fc None 0 = Some tc" by blast
  show ?thesis
    using putln_text [OF assms(1), where as' = "[Astr (Some (sr_file sr)), Afattr fc]" and db = db and fmt = "''v %s %a''"]
      a SR_FILEDEAD
    by (simp add: wr_record_def printf_simps attr_arg_def body_text_def rec_line_def rec_toks_def record_pc_def
        spaced_simps ptr_text_def sr_cmd_def)
qed (simp_all add: wr_record_def body_text_def record_pc_def assms(1))

text \<open>The moves of the compressor, where \<open>attr\<close> are the attributes for the first directory left.\<close>

definition move_text :: "idb \<Rightarrow> attrptr \<Rightarrow> pc_type \<times> string \<Rightarrow> string" where
  "move_text db attr = (\<lambda>(type, name).
     case type of
       PC_DIRDOWN \<Rightarrow> ''D '' @ esc name @ [CHR 0x0A]
     | PC_DIRUP \<Rightarrow> ''U '' @ esc name @ '' '' @ ptr_text db attr @ [CHR 0x0A]
     | PC_FILE \<Rightarrow> [])"

fun moves_text :: "idb \<Rightarrow> attrptr option \<Rightarrow> (pc_type \<times> string) list \<Rightarrow> string" where
  "moves_text db attr [] = []"
| "moves_text db attr (ev # evs) =
     move_text db (case attr of None \<Rightarrow> Aptr fattr_bogus | Some p \<Rightarrow> p) ev @
     moves_text db (if fst ev = PC_DIRUP then None else attr) evs"

lemma wr_move_text:
  "writing st w \<Longrightarrow> prints db p \<Longrightarrow> wr_move db st p ev = Some (wrote st (move_text db p ev), 0)"
  by (cases ev; cases "fst ev") (auto simp: wr_move_def move_text_def put_down put_up)

section \<open>Writing a record\<close>

text \<open>The directory the compressor is in behind a record.\<close>

definition comps :: "statusrec \<Rightarrow> string list" where
  "comps sr = split_on (CHR ''/'') (sr_file sr)"

definition after :: "statusrec \<Rightarrow> string list" where
  "after sr = (if sr_type sr = SR_DIRDOWN then comps sr else butlast (comps sr))"

definition good :: "idb \<Rightarrow> statusrec \<Rightarrow> bool" where
  "good db sr \<longleftrightarrow> rec_ok db sr \<and> clean (comps sr)"

lemma join_split: "join_path (split_on (CHR ''/'') s) = s"
proof (induction s)
  case (Cons x s)
  obtain p ps where p: "split_on (CHR ''/'') s = p # ps" by (meson neq_Nil_conv split_on_not_Nil)
  with Cons show ?case by (cases ps) auto
qed simp

lemma good_comps: "good db sr \<Longrightarrow> clean (comps sr) \<and> comps sr \<noteq> [] \<and> sr_file sr = join_path (comps sr)"
  by (simp add: good_def comps_def join_split)

lemma clean_after: "good db sr \<Longrightarrow> clean (after sr)"
  by (auto simp: good_def after_def clean_def dest: in_set_butlastD)

lemma record_after:
  assumes "good db sr"
  shows "record_dir (record_pc (sr_type sr)) (sr_file sr) (after sr)"
proof -
  note c = good_comps [OF assms]
  then have "clean [last (comps sr)]" by (metis clean_simps(3) append_butlast_last_id)
  with c show ?thesis
    by (auto simp: record_dir_def after_def record_pc_def intro!: exI [of _ "last (comps sr)"])
qed

lemma length_join: "clean cs \<Longrightarrow> length cs \<le> length (join_path cs)"
  by (induction cs rule: join_path.induct) (auto simp: Suc_le_eq)

lemma length_after: "good db sr \<Longrightarrow> length (after sr) \<le> length (sr_file sr)"
  using good_comps [of db sr] length_join [of "comps sr"] by (auto simp: after_def)

definition steps :: "string list \<Rightarrow> string list \<Rightarrow> (pc_type \<times> string) list" where
  "steps ds ts = ups (length (lcp ds ts)) (length ds) ds @ downs (length (lcp ds ts)) ts"

definition up_attr :: "statusrec \<Rightarrow> attrptr option" where
  "up_attr sr = (if sr_type sr = SR_DIRUP then Some (sr_clientattr sr) else None)"

definition emit :: "idb \<Rightarrow> string list \<Rightarrow> statusrec \<Rightarrow> string" where
  "emit db ds sr = moves_text db (up_attr sr) (steps ds (after sr)) @ body_text db sr"

lemma writing_pc [simp]: "writing (st\<lparr>s_pc := pc\<rparr>) w \<longleftrightarrow> writing st w"
  by (simp add: writing_def)

lemma wrote_pc [simp]: "(wrote st t)\<lparr>s_pc := pc\<rparr> = wrote (st\<lparr>s_pc := pc\<rparr>) t" "s_pc (wrote st t) = s_pc st"
  by (simp_all add: wrote_def)

lemma wr_moves_drain:
  assumes "pathcomp_drain n (s_pc st) = Some (evs, pc')" and "writing st w" and "\<forall>p. attr = Some p \<longrightarrow> prints db p"
  shows "wr_moves db n st attr = Some (wrote (st\<lparr>s_pc := pc'\<rparr>) (moves_text db attr evs), 0)"
  using assms
proof (induction n arbitrary: st w attr evs)
  case (Suc n)
  obtain pc1 ev where g: "pathcomp_get (s_pc st) = Some (pc1, ev)"
    using Suc.prems(1) by (auto split: option.splits)
  show ?case
  proof (cases ev)
    case None
    with g Suc.prems show ?thesis by (simp add: pc_next_def)
  next
    case (Some e)
    obtain evs' where evs: "pathcomp_drain n pc1 = Some (evs', pc')" "evs = e # evs'"
      using Suc.prems(1) g Some by auto
    let ?p = "case attr of None \<Rightarrow> Aptr fattr_bogus | Some p \<Rightarrow> p"
    have "prints db ?p" using Suc.prems(3) bogus_prints by (cases attr) auto
    then have mv: "wr_move db (st\<lparr>s_pc := pc1\<rparr>) ?p e = Some (wrote (st\<lparr>s_pc := pc1\<rparr>) (move_text db ?p e), 0)"
      using Suc.prems(2) by (intro wr_move_text [where w = w]) simp_all
    have "wr_moves db n (wrote (st\<lparr>s_pc := pc1\<rparr>) (move_text db ?p e)) (if fst e = PC_DIRUP then None else attr) =
        Some (wrote ((wrote (st\<lparr>s_pc := pc1\<rparr>) (move_text db ?p e))\<lparr>s_pc := pc'\<rparr>)
          (moves_text db (if fst e = PC_DIRUP then None else attr) evs'), 0)"
      using evs(1) Suc.prems(2,3) by (intro Suc.IH [where w = "w @ move_text db ?p e"]) auto
    with g Some evs(2) mv show ?thesis by (simp add: pc_next_def)
  qed
qed simp

lemma status_wr_emit:
  assumes at: "at_dir (s_pc st) ds" "clean ds" and g: "good db sr" and w: "writing st w"
  shows "\<exists>pc'. status_wr db st sr = Some (wrote (st\<lparr>s_pc := pc'\<rparr>) (emit db ds sr), 0) \<and> at_dir pc' (after sr)"
proof -
  let ?n = "length (sr_file sr) + curlen (s_pc st) + 2"
  have "curlen (s_pc st) = length (join_path ds)" using at(1) by (simp add: at_dir_def)
  then have "length ds + length (after sr) < ?n" using length_join [OF at(2)] length_after [OF g] by simp
  from pathcomp_move [OF at clean_after [OF g] record_after [OF g] this]
  obtain pc1 pc2 where put: "pathcomp_put (s_pc st) (record_pc (sr_type sr)) (sr_file sr) = Some (Some pc1)"
    and dr: "pathcomp_drain ?n pc1 = Some (steps ds (after sr), pc2)" and at2: "at_dir pc2 (after sr)"
    unfolding steps_def by blast
  have feed: "pc_feed st sr = Some (st\<lparr>s_pc := pc1\<rparr>)" using put by (simp add: pc_feed_def)
  have pr: "\<forall>p. up_attr sr = Some p \<longrightarrow> prints db p"
    using g by (auto simp: up_attr_def good_def rec_ok_def intro: ptr_ok_prints)
  have mv: "wr_moves db ?n (st\<lparr>s_pc := pc1\<rparr>) (up_attr sr) =
      Some (wrote (st\<lparr>s_pc := pc2\<rparr>) (moves_text db (up_attr sr) (steps ds (after sr))), 0)"
    using wr_moves_drain [of ?n "st\<lparr>s_pc := pc1\<rparr>" _ pc2 w "up_attr sr" db] dr w pr by simp
  have "rec_ok db sr" using g by (simp add: good_def)
  have rc: "wr_record db (wrote (st\<lparr>s_pc := pc2\<rparr>) (moves_text db (up_attr sr) (steps ds (after sr)))) sr =
      Some (wrote (st\<lparr>s_pc := pc2\<rparr>) (emit db ds sr), 0)"
    using wr_record_text [OF wrote_simps(1) \<open>rec_ok db sr\<close>] w by (simp add: emit_def)
  show ?thesis
    using feed mv rc w at2 unfolding status_wr_def up_attr_def [symmetric]
    by (intro exI [of _ pc2]) (simp del: wr_moves.simps)
qed

section \<open>Copying a raw record\<close>

text \<open>
  A record that may follow in directory \<open>ds\<close>, and the condition under which its raw copy is
  right: \<open>status_wrraw\<close> does not escape the name of a directory.
\<close>

definition fits :: "string list \<Rightarrow> statusrec \<Rightarrow> bool" where
  "fits ds sr \<longleftrightarrow> (if sr_type sr = SR_DIRUP then comps sr = ds else butlast (comps sr) = ds)"

definition plain :: "statusrec \<Rightarrow> bool" where
  "plain sr \<longleftrightarrow> (sr_type sr = SR_DIRDOWN \<longrightarrow> esc (sr_file sr) = sr_file sr)"

lemma lcp_prefix [simp]: "lcp ds (ds @ es) = ds" "lcp (ds @ es) ds = ds" "lcp ds ds = ds"
  by (induction ds) auto

lemma downs_last: "ds = butlast ts \<Longrightarrow> ts \<noteq> [] \<Longrightarrow> downs (length ds) ts = [(PC_DIRDOWN, join_path ts)]"
  by (simp add: downs_def)

lemma ups_last: "ts = butlast ds \<Longrightarrow> ds \<noteq> [] \<Longrightarrow> ups (length ts) (length ds) ds = [(PC_DIRUP, join_path ds)]"
  by (cases "length ds") (auto simp: ups_def)

definition raw_move :: "statusrec \<Rightarrow> (pc_type \<times> string) list" where
  "raw_move sr = (if record_pc (sr_type sr) = PC_FILE then [] else [(record_pc (sr_type sr), sr_file sr)])"

lemma steps_fits:
  assumes "good db sr" and "fits ds sr"
  shows "steps ds (after sr) = raw_move sr"
proof -
  note c = good_comps [OF assms(1)]
  consider (down) "sr_type sr = SR_DIRDOWN" | (up) "sr_type sr = SR_DIRUP"
    | (leaf) "record_pc (sr_type sr) = PC_FILE" "sr_type sr \<noteq> SR_DIRDOWN" "sr_type sr \<noteq> SR_DIRUP"
    by (auto simp: record_pc_def)
  then show ?thesis
  proof cases
    case down
    with assms(2) have d: "ds = butlast (comps sr)" by (simp add: fits_def)
    then have "lcp ds (comps sr) = ds" using c by (metis append_butlast_last_id lcp_prefix(1))
    with down d c show ?thesis
      by (simp add: steps_def after_def raw_move_def record_pc_def downs_last del: length_butlast)
  next
    case up
    with assms(2) have d: "comps sr = ds" by (simp add: fits_def)
    then have l: "lcp ds (butlast ds) = butlast ds" using c by (metis append_butlast_last_id lcp_prefix(2))
    have "downs (length (butlast ds)) (butlast ds) = []" by (simp add: downs_def)
    with up d l c ups_last [of "butlast ds" ds] show ?thesis
      by (simp add: steps_def after_def raw_move_def record_pc_def del: length_butlast)
  next
    case leaf
    with assms(2) show ?thesis by (simp add: steps_def after_def raw_move_def fits_def downs_def)
  qed
qed

lemma drain_one:
  "pathcomp_drain n pc = Some ([ev], pc') \<Longrightarrow>
   \<exists>pc1. pathcomp_get pc = Some (pc1, Some ev) \<and> pathcomp_get pc1 = Some (pc', None)"
  by (cases n; cases "n - 1") (auto split: option.splits)

lemma drain_none: "pathcomp_drain n pc = Some ([], pc') \<Longrightarrow> pathcomp_get pc = Some (pc', None)"
  by (cases n) (auto split: option.splits)

lemma pc_sync_fits:
  assumes at: "at_dir (s_pc st) ds" "clean ds" and g: "good db sr" and f: "fits ds sr"
  shows "\<exists>pc'. pc_sync st (raw sr) = Some (st\<lparr>s_pc := pc'\<rparr>) \<and> at_dir pc' (after sr)"
proof -
  from pathcomp_move [OF at clean_after [OF g] record_after [OF g] lessI]
  obtain pc1 pc2 n where put: "pathcomp_put (s_pc st) (record_pc (sr_type sr)) (sr_file sr) = Some (Some pc1)"
    and dr: "pathcomp_drain n pc1 = Some (steps ds (after sr), pc2)" and at2: "at_dir pc2 (after sr)"
    unfolding steps_def by blast
  have feed: "pc_feed st (raw sr) = Some (st\<lparr>s_pc := pc1\<rparr>)" using put by (simp add: pc_feed_def)
  show ?thesis
  proof (cases "record_pc (sr_type sr) = PC_FILE")
    case True
    then have "pathcomp_get pc1 = Some (pc2, None)"
      using dr steps_fits [OF g f] drain_none by (simp add: raw_move_def)
    with feed True at2 show ?thesis by (intro exI [of _ pc2]) (simp add: pc_sync_def pc_next_def)
  next
    case False
    then obtain pc3 where "pathcomp_get pc1 = Some (pc3, Some (record_pc (sr_type sr), sr_file sr))"
      "pathcomp_get pc3 = Some (pc2, None)"
      using dr steps_fits [OF g f] drain_one by (fastforce simp: raw_move_def)
    with feed False at2 show ?thesis by (intro exI [of _ pc2]) (simp add: pc_sync_def pc_next_def)
  qed
qed

lemma raw_line_text:
  assumes w: "writing st w" and g: "rec_ok db sr" and p: "plain sr"
  shows "(if sr_type sr = SR_DIRDOWN
      then status_putln db st ''%c %S'' [Some (Achar (sr_cmd (sr_type sr))), Some (Astr (Some (sr_file sr)))]
      else status_putln db st ''%c %s %S'' [Some (Achar (sr_cmd (sr_type sr))), Some (Astr (Some (sr_file sr))),
        Some (Astr (rest_line (rec_toks db sr)))]) = Some (wrote st (rec_line db sr @ [CHR 0x0A]), 0)"
proof (cases "sr_type sr = SR_DIRDOWN")
  case True
  then show ?thesis
    using p putln_text [OF w, where as' = "[Achar (CHR ''D''), Astr (Some (sr_file sr))]" and db = db and fmt = "''%c %S''"]
    by (simp add: printf_simps sr_cmd_def rec_line_def rec_toks_def spaced_simps plain_def)
next
  case False
  then obtain x xs where t: "rec_toks db sr = x # xs" by (cases "sr_type sr") (simp_all add: rec_toks_def)
  show ?thesis
    using False t putln_text [OF w, where as' = "[Achar (sr_cmd (sr_type sr)), Astr (Some (sr_file sr)),
        Astr (Some (spaced (x # xs)))]" and db = db and fmt = "''%c %s %S''"]
    by (simp add: printf_simps rec_line_def spaced_simps rest_line_def)
qed

lemma emit_fits:
  assumes "good db sr" and "fits ds sr"
  shows "emit db ds sr = rec_line db sr @ [CHR 0x0A]"
  using good_comps [OF assms(1)]
  by (cases "sr_type sr") (simp_all add: emit_def steps_fits [OF assms] raw_move_def body_text_def record_pc_def
      move_text_def up_attr_def rec_line_def rec_toks_def spaced_simps sr_cmd_def)

lemma wrraw_emit:
  assumes at: "at_dir (s_pc st) ds" "clean ds" and g: "good db sr" and f: "fits ds sr" and p: "plain sr" and w: "writing st w"
  shows "\<exists>pc'. status_wrraw db st (raw sr) (rest_line (rec_toks db sr)) =
      Some (wrote (st\<lparr>s_pc := pc'\<rparr>) (emit db ds sr), 0) \<and> at_dir pc' (after sr)"
proof -
  obtain pc' where s: "pc_sync st (raw sr) = Some (st\<lparr>s_pc := pc'\<rparr>)" "at_dir pc' (after sr)"
    using pc_sync_fits [OF at g f] by blast
  have "rec_ok db sr" using g by (simp add: good_def)
  then have "(if sr_type sr = SR_DIRDOWN
      then status_putln db (st\<lparr>s_pc := pc'\<rparr>) ''%c %S'' [Some (Achar (sr_cmd (sr_type sr))), Some (Astr (Some (sr_file sr)))]
      else status_putln db (st\<lparr>s_pc := pc'\<rparr>) ''%c %s %S'' [Some (Achar (sr_cmd (sr_type sr))), Some (Astr (Some (sr_file sr))),
        Some (Astr (rest_line (rec_toks db sr)))]) = Some (wrote (st\<lparr>s_pc := pc'\<rparr>) (emit db ds sr), 0)"
    using raw_line_text [of "st\<lparr>s_pc := pc'\<rparr>" w db sr] w p emit_fits [OF g f] by simp
  moreover have "s_wr st \<noteq> None" using w by (simp add: writing_def)
  ultimately show ?thesis using s by (auto simp: status_wrraw_def)
qed

section \<open>Reading the old file\<close>

text \<open>
  A file is valid from directory \<open>ds\<close> on if its records walk the directories and are sorted.
\<close>

fun nested :: "string list \<Rightarrow> statusrec list \<Rightarrow> bool" where
  "nested ds [] \<longleftrightarrow> ds = []"
| "nested ds (e # es) \<longleftrightarrow> fits ds e \<and> nested (after e) es"

definition valid :: "idb \<Rightarrow> bool \<Rightarrow> string list \<Rightarrow> statusrec list \<Rightarrow> bool" where
  "valid db sg ds es \<longleftrightarrow> nested ds es \<and> sorted_wrt (\<lambda>a b. statusrec_cmp sg a b < 0) es \<and>
     (\<forall>e \<in> set es. good db e \<and> plain e)"

lemma valid_Cons: "valid db sg ds (e # es) \<Longrightarrow>
  fits ds e \<and> good db e \<and> plain e \<and> valid db sg (after e) es \<and> (\<forall>x \<in> set es. statusrec_cmp sg e x < 0)"
  by (simp add: valid_def)

text \<open>The reading side: the lines of \<open>es\<close> are still to come.\<close>

definition src_at :: "idb \<Rightarrow> bool \<Rightarrow> status \<Rightarrow> string list \<Rightarrow> statusrec list \<Rightarrow> bool" where
  "src_at db sg st ds es \<longleftrightarrow>
     s_error st = 0 \<and> \<not> s_eof st \<and> s_rd st = Some (map (rec_line db) es, None) \<and> s_depth st = int (length ds) \<and>
     valid db sg ds es \<and> statusrec_fini (s_buf st) \<and>
     (s_previous st \<longrightarrow> (\<forall>e \<in> set es. statusrec_cmp sg (s_buf st) e < 0))"

text \<open>What reading may change.\<close>

definition read_frame :: "status \<Rightarrow> status \<Rightarrow> bool" where
  "read_frame st st' \<longleftrightarrow> s_pc st' = s_pc st \<and> s_wr st' = s_wr st \<and> s_current st' = s_current st \<and>
     s_dirty st' = s_dirty st \<and> s_path st' = s_path st"

lemma sr_letter_cmd: "sr_letter (Some (sr_cmd t)) = Some t"
  by (cases t) (simp_all add: sr_letter_def sr_cmd_def)

lemma rec_line_read:
  assumes "sr_file e \<noteq> []"
  shows "proto_get_char (Some (rec_line db e)) = Some (Some (sr_cmd (sr_type e)), rest_line (esc (sr_file e) # rec_toks db e))"
    and "proto_get_ascii (rest_line (esc (sr_file e) # rec_toks db e)) = (Some (sr_file e), rest_line (rec_toks db e))"
proof -
  have c: "sr_cmd (sr_type e) \<notin> {CHR '' '', CHR 0x5C}" by (cases "sr_type e") (simp_all add: sr_cmd_def)
  then have "proto_get_ascii (Some ([sr_cmd (sr_type e)] @ line_tail (rest_line (esc (sr_file e) # rec_toks db e)))) =
      (Some [sr_cmd (sr_type e)], rest_line (esc (sr_file e) # rec_toks db e))"
    using get_ascii_token [of "[sr_cmd (sr_type e)]"] by auto
  then show "proto_get_char (Some (rec_line db e)) = Some (Some (sr_cmd (sr_type e)), rest_line (esc (sr_file e) # rec_toks db e))"
    by (simp add: proto_get_char_def rec_line_def spaced_rest)
  show "proto_get_ascii (rest_line (esc (sr_file e) # rec_toks db e)) = (Some (sr_file e), rest_line (rec_toks db e))"
    using assms by (simp add: rest_line_Cons get_ascii_esc)
qed

lemma depth_fits:
  assumes "good db e" and "fits ds e"
  shows "int (length (after e)) = (if sr_type e = SR_DIRDOWN then int (length ds) + 1
    else if sr_type e = SR_DIRUP then int (length ds) - 1 else int (length ds))"
    and "sr_type e = SR_DIRUP \<Longrightarrow> 0 < length ds"
proof -
  have "comps e \<noteq> []" using good_comps [OF assms(1)] by simp
  then show "int (length (after e)) = (if sr_type e = SR_DIRDOWN then int (length ds) + 1
      else if sr_type e = SR_DIRUP then int (length ds) - 1 else int (length ds))"
    and "sr_type e = SR_DIRUP \<Longrightarrow> 0 < length ds"
    using assms(2) by (cases "comps e" rule: rev_cases; auto simp: fits_def after_def)+
qed

lemma rdraw_step:
  assumes "src_at db sg st ds (e # es)"
  shows "\<exists>st'. status_rdraw sg st = Some (st', Some (rest_line (rec_toks db e))) \<and> s_buf st' = raw e \<and> s_previous st' \<and>
    src_at db sg st' (after e) es \<and> read_frame st st'"
proof -
  have v: "fits ds e" "good db e" "valid db sg (after e) es" "\<forall>x \<in> set es. statusrec_cmp sg e x < 0"
    using assms valid_Cons by (auto simp: src_at_def)
  have "sr_file e \<noteq> []" using v(2) by (simp add: good_def rec_ok_def)
  note r = rec_line_read [OF this, of db]
  let ?st = "st\<lparr>s_rd := Some (map (rec_line db) es, None), s_linenum := s_linenum st + 1,
      s_depth := int (length (after e)), s_buf := raw e, s_previous := True\<rparr>"
  have "status_rdraw sg st = Some (?st, Some (rest_line (rec_toks db e)))"
    using assms depth_fits [OF v(2,1)]
    by (auto simp: status_rdraw_def src_at_def r sr_letter_cmd raw_def [symmetric] Let_def not_le)
  moreover have "src_at db sg ?st (after e) es" using assms v(3,4) by (simp add: src_at_def)
  moreover have "read_frame st ?st" by (simp add: read_frame_def)
  ultimately show ?thesis by fastforce
qed

lemma rdraw_end:
  assumes "src_at db sg st ds []"
  shows "status_rdraw sg st = Some (st\<lparr>s_eof := True\<rparr>, None)"
  using assms by (simp add: status_rdraw_def src_at_def valid_def)

section \<open>Searching\<close>

definition dst :: "status \<Rightarrow> string list \<Rightarrow> string \<Rightarrow> bool" where
  "dst st D w \<longleftrightarrow> at_dir (s_pc st) D \<and> clean D \<and> writing st w"

fun emits :: "idb \<Rightarrow> string list \<Rightarrow> statusrec list \<Rightarrow> string" where
  "emits db D [] = []"
| "emits db D (e # es) = emit db D e @ emits db (after e) es"

fun end_dir :: "string list \<Rightarrow> statusrec list \<Rightarrow> string list" where
  "end_dir D [] = D"
| "end_dir D (e # es) = end_dir (after e) es"

lemma emits_append [simp]: "emits db D (xs @ ys) = emits db D xs @ emits db (end_dir D xs) ys"
  by (induction D xs rule: end_dir.induct) auto

lemma end_dir_append [simp]: "end_dir D (xs @ ys) = end_dir (end_dir D xs) ys"
  by (induction D xs rule: end_dir.induct) auto

lemma dst_frame: "read_frame st st' \<Longrightarrow> dst st D w \<Longrightarrow> dst st' D w"
  by (simp add: dst_def read_frame_def writing_def)

text \<open>What writing changes: the new file and the compressor.\<close>

definition write_frame :: "status \<Rightarrow> status \<Rightarrow> bool" where
  "write_frame st st' \<longleftrightarrow> (\<exists>pc wr. st' = st\<lparr>s_pc := pc, s_wr := wr\<rparr>)"

lemma src_write_frame: "write_frame st st' \<Longrightarrow> src_at db sg st ds es \<Longrightarrow> src_at db sg st' ds es"
  by (auto simp: write_frame_def src_at_def)

lemma wrote_frame: "write_frame st (wrote (st\<lparr>s_pc := pc\<rparr>) t)"
  by (auto simp: write_frame_def wrote_def)

lemma write_frame_simps:
  "write_frame st st' \<Longrightarrow> s_buf st' = s_buf st \<and> s_current st' = s_current st \<and> s_previous st' = s_previous st \<and>
    s_dirty st' = s_dirty st \<and> s_path st' = s_path st \<and> s_error st' = s_error st \<and> s_eof st' = s_eof st"
  by (auto simp: write_frame_def)

lemma status_wr_step:
  assumes "dst st D w" and "good db e"
  shows "\<exists>st'. status_wr db st e = Some (st', 0) \<and> dst st' (after e) (w @ emit db D e) \<and> write_frame st st'"
proof -
  from assms(1) have at: "at_dir (s_pc st) D" "clean D" "writing st w" by (simp_all add: dst_def)
  from status_wr_emit [OF at(1,2) assms(2) at(3)] obtain pc' where
    "status_wr db st e = Some (wrote (st\<lparr>s_pc := pc'\<rparr>) (emit db D e), 0)" "at_dir pc' (after e)" by blast
  then show ?thesis
    using at(3) clean_after [OF assms(2)] wrote_frame by (fastforce simp: dst_def)
qed

lemma wrraw_step:
  assumes "dst st ds w" and "good db e" and "fits ds e" and "plain e"
  shows "\<exists>st'. status_wrraw db st (raw e) (rest_line (rec_toks db e)) = Some (st', 0) \<and>
    dst st' (after e) (w @ emit db ds e) \<and> write_frame st st'"
proof -
  from assms(1) have at: "at_dir (s_pc st) ds" "clean ds" "writing st w" by (simp_all add: dst_def)
  from wrraw_emit [OF at(1,2) assms(2-4) at(3)] obtain pc' where
    "status_wrraw db st (raw e) (rest_line (rec_toks db e)) = Some (wrote (st\<lparr>s_pc := pc'\<rparr>) (emit db ds e), 0)"
    "at_dir pc' (after e)" by blast
  then show ?thesis
    using at(3) clean_after [OF assms(2)] wrote_frame by (fastforce simp: dst_def)
qed

definition below :: "bool \<Rightarrow> statusrec \<Rightarrow> statusrec \<Rightarrow> bool" where
  "below sg key e \<longleftrightarrow> statusrec_cmp sg e key < 0"

text \<open>The loop: it copies the records below the key and stops at the first that is not.\<close>

lemma seek_step:
  assumes "src_at db sg st ds es" and "dst st ds w"
  shows "\<exists>st' r. status_seek db sg False key st = Some (st', r) \<and>
    dst st' (end_dir ds (takeWhile (below sg key) es)) (w @ emits db ds (takeWhile (below sg key) es)) \<and>
    s_current st' = s_current st \<and> s_dirty st' = s_dirty st \<and> s_path st' = s_path st \<and> s_error st' = 0 \<and>
    (case dropWhile (below sg key) es of
       [] \<Rightarrow> r = Seek_end \<and> s_eof st' \<and> statusrec_fini (s_buf st')
     | e # hi \<Rightarrow> r = Seek_at (rest_line (rec_toks db e)) (statusrec_cmp sg e key) \<and> s_buf st' = raw e \<and> s_previous st' \<and>
         src_at db sg st' (after e) hi)"
  using assms
proof (induction es arbitrary: st ds w)
  case Nil
  then show ?case
    by (subst status_seek.simps) (auto simp: rdraw_end dst_def writing_def src_at_def)
next
  case (Cons e es)
  from rdraw_step [OF Cons.prems(1)] obtain st1 where
    st1: "status_rdraw sg st = Some (st1, Some (rest_line (rec_toks db e)))" "s_buf st1 = raw e" "s_previous st1"
    "src_at db sg st1 (after e) es" "read_frame st st1" by blast
  note d1 = dst_frame [OF st1(5) Cons.prems(2)]
  have g: "good db e" "fits ds e" "plain e" using Cons.prems(1) by (auto simp: src_at_def dest: valid_Cons)
  have f1: "s_current st1 = s_current st" "s_dirty st1 = s_dirty st" "s_path st1 = s_path st"
    using st1(5) by (simp_all add: read_frame_def)
  show ?case
  proof (cases "below sg key e")
    case False
    then show ?thesis using st1 d1 f1
      by (subst status_seek.simps) (auto simp: below_def src_at_def)
  next
    case True
    from wrraw_step [OF d1 g] obtain st2 where
      st2: "status_wrraw db st1 (raw e) (rest_line (rec_toks db e)) = Some (st2, 0)"
      "dst st2 (after e) (w @ emit db ds e)" "write_frame st1 st2" by blast
    have wr: "s_wr st1 \<noteq> None" using d1 by (simp add: dst_def writing_def)
    have "status_seek db sg False key st = status_seek db sg False key st2"
      using st1(1,2) True st2(1) wr by (subst status_seek.simps) (simp add: below_def)
    moreover note Cons.IH [OF src_write_frame [OF st2(3) st1(4)] st2(2)]
    ultimately show ?thesis using True f1 write_frame_simps [OF st2(3)] by simp
  qed
qed

section \<open>Operations\<close>

text \<open>
  The state between two operations: the records \<open>todo\<close> of the old file are still to be written,
  the first of them perhaps already read; the new file holds \<open>w\<close> and is in directory \<open>D\<close>.
\<close>

definition sess :: "idb \<Rightarrow> bool \<Rightarrow> status \<Rightarrow> statusrec list \<Rightarrow> string list \<Rightarrow> string \<Rightarrow> bool" where
  "sess db sg st todo D w \<longleftrightarrow> dst st D w \<and> s_error st = 0 \<and>
     (if s_current st then
        (\<exists>e es. todo = e # es \<and> s_buf st = e \<and> s_previous st \<and> good db e \<and> plain e \<and> src_at db sg st (after e) es)
      else if s_eof st then todo = [] \<and> statusrec_fini (s_buf st)
      else \<exists>ds. src_at db sg st ds todo)"

definition lookup_result :: "bool \<Rightarrow> statusrec \<Rightarrow> statusrec list \<Rightarrow> int" where
  "lookup_result sg key hi = (case hi of [] \<Rightarrow> 0 | e # _ \<Rightarrow> if statusrec_cmp sg e key \<noteq> 0 then 0 else 1)"

lemma good_fini: "good db e \<Longrightarrow> statusrec_fini e"
  by (auto simp: good_def rec_ok_def statusrec_fini_def ptr_ok_def split: if_splits)

lemma src_buf: "src_at db sg st ds es \<Longrightarrow> s_buf st = raw e \<Longrightarrow> good db e \<Longrightarrow> src_at db sg (st\<lparr>s_buf := e\<rparr>) ds es"
  by (auto simp: src_at_def good_fini)

lemma sess_current:
  "dst st D w \<Longrightarrow> s_buf st = e \<Longrightarrow> s_previous st \<Longrightarrow> good db e \<Longrightarrow> plain e \<Longrightarrow> src_at db sg st (after e) es \<Longrightarrow>
    sess db sg (st\<lparr>s_current := True\<rparr>) (e # es) D w"
  by (simp add: sess_def dst_def writing_def src_at_def)

lemma look_step:
  fixes key :: statusrec
  assumes st: "src_at db sg st (after e) es" "dst st D w" "s_buf st = e" "s_previous st" "\<not> s_current st"
    and g: "good db e" "plain e" and es: "\<forall>x \<in> set es. good db x \<and> plain x"
  defines "lo \<equiv> takeWhile (below sg key) (e # es)" and "hi \<equiv> dropWhile (below sg key) (e # es)"
  shows "\<exists>st'. status_look db sg False key st = Some (st', lookup_result sg key hi) \<and>
    sess db sg st' hi (end_dir D lo) (w @ emits db D lo) \<and> (if hi = [] then s_eof st' else s_current st' \<and> s_buf st' = hd hi) \<and>
    s_dirty st' = s_dirty st \<and> s_path st' = s_path st"
proof (cases "below sg key e")
  case False
  then have "status_look db sg False key st = Some (st\<lparr>s_current := True\<rparr>, lookup_result sg key (e # es))"
    using st(3) by (simp add: status_look_def below_def lookup_result_def Let_def)
  moreover have "sess db sg (st\<lparr>s_current := True\<rparr>) (e # es) D w" using st g by (intro sess_current)
  ultimately show ?thesis using False st(3) by (auto simp: lo_def hi_def)
next
  case True
  from status_wr_step [OF st(2) g(1)] obtain st1 where
    st1: "status_wr db st e = Some (st1, 0)" "dst st1 (after e) (w @ emit db D e)" "write_frame st st1" by blast
  from seek_step [OF src_write_frame [OF st1(3) st(1)] st1(2), of key] obtain st2 r where
    st2: "status_seek db sg False key st1 = Some (st2, r)"
    "dst st2 (end_dir D lo) (w @ emits db D lo)" "s_current st2 = s_current st1" "s_dirty st2 = s_dirty st1"
    "s_path st2 = s_path st1" "s_error st2 = 0"
    "case dropWhile (below sg key) es of
       [] \<Rightarrow> r = Seek_end \<and> s_eof st2 \<and> statusrec_fini (s_buf st2)
     | e # hi \<Rightarrow> r = Seek_at (rest_line (rec_toks db e)) (statusrec_cmp sg e key) \<and> s_buf st2 = raw e \<and> s_previous st2 \<and>
         src_at db sg st2 (after e) hi"
    using True by (auto simp: lo_def)
  have wr: "s_wr st \<noteq> None" using st(2) by (simp add: dst_def writing_def)
  have look: "status_look db sg False key st = (case r of
      Seek_fail \<Rightarrow> Some (st2, -1) | Seek_end \<Rightarrow> Some (nothing st2)
    | Seek_at l c \<Rightarrow> map_option (\<lambda>(sr, error). let st = st2\<lparr>s_buf := sr\<rparr> in
        if error \<noteq> 0 then (st\<lparr>s_error := STATUS_ERR_PARSE\<rparr>, -1)
        else (st\<lparr>s_current := True\<rparr>, if c \<noteq> 0 then 0 else 1)) (statusrec_cook db (s_buf st2) l))"
    using True st(3) wr st1(1) st2(1) by (simp add: status_look_def below_def)
  have hi: "hi = dropWhile (below sg key) es" using True by (simp add: hi_def)
  note f1 = write_frame_simps [OF st1(3)]
  show ?thesis
  proof (cases hi)
    case Nil
    then have e2: "r = Seek_end" "s_eof st2" "statusrec_fini (s_buf st2)" using st2(7) unfolding hi [symmetric] by simp_all
    then have "status_look db sg False key st = Some (st2, lookup_result sg key hi)"
      using look st2(6) Nil by (simp add: nothing_def lookup_result_def)
    moreover have "sess db sg st2 [] (end_dir D lo) (w @ emits db D lo)"
      using e2 st2(2,3,6) f1 st(5) by (simp add: sess_def)
    ultimately show ?thesis using Nil st2(4,5) f1 e2 by auto
  next
    case (Cons x xs)
    then have "x \<in> set es" using hi set_dropWhileD [of x "below sg key" es] by simp
    with es have x: "good db x" "plain x" by auto
    then have ck: "statusrec_cook db (raw x) (rest_line (rec_toks db x)) = Some (x, 0)" by (intro cook_line) (simp add: good_def)
    have s2: "r = Seek_at (rest_line (rec_toks db x)) (statusrec_cmp sg x key)" "s_buf st2 = raw x" "s_previous st2"
      "src_at db sg st2 (after x) xs" using st2(7) Cons hi by auto
    have "sess db sg (st2\<lparr>s_buf := x, s_current := True\<rparr>) (x # xs) (end_dir D lo) (w @ emits db D lo)"
      using st2(2) s2 x by (intro sess_current src_buf) (simp_all add: dst_def writing_def)
    with look s2(1,2) ck Cons st2(4,5) f1 show ?thesis by (simp add: lookup_result_def)
  qed
qed

lemma get_step:
  assumes "sess db sg st todo D w"
  defines "lo \<equiv> \<lambda>key. takeWhile (below sg key) todo" and "hi \<equiv> \<lambda>key. dropWhile (below sg key) todo"
  shows "\<exists>st'. status_get db sg st (Some nm) up False = Some (st', lookup_result sg (status_key nm up) (hi (status_key nm up))) \<and>
    sess db sg st' (hi (status_key nm up)) (end_dir D (lo (status_key nm up))) (w @ emits db D (lo (status_key nm up))) \<and>
    (if hi (status_key nm up) = [] then s_eof st' else s_current st' \<and> s_buf st' = hd (hi (status_key nm up))) \<and>
    s_dirty st' = s_dirty st \<and> s_path st' = s_path st"
proof -
  let ?key = "status_key nm up"
  from assms(1) have d: "dst st D w" "s_error st = 0" by (simp_all add: sess_def)
  consider (current) e es where "s_current st" "todo = e # es" "s_buf st = e" "s_previous st" "good db e" "plain e"
      "src_at db sg st (after e) es"
    | (eof) "\<not> s_current st" "s_eof st" "todo = []"
    | (stop) ds where "\<not> s_current st" "\<not> s_eof st" "src_at db sg st ds []" "todo = []"
    | (read) ds e es where "\<not> s_current st" "\<not> s_eof st" "todo = e # es" "src_at db sg st ds (e # es)"
    using assms(1) by (cases todo) (auto simp: sess_def split: if_splits)
  then show ?thesis
  proof cases
    case current
    let ?st = "st\<lparr>s_current := False\<rparr>"
    have s: "src_at db sg ?st (after e) es" "dst ?st D w" using current(7) d(1) by (simp_all add: src_at_def dst_def writing_def)
    have es: "\<forall>x \<in> set es. good db x \<and> plain x" using current(7) by (auto simp: src_at_def valid_def)
    have "\<not> s_eof st" using current(7) by (simp add: src_at_def)
    then have eq: "status_get db sg st (Some nm) up False = status_look db sg False ?key ?st"
      using current(1) d(2) by (simp add: status_get_def)
    have p: "s_buf ?st = e" "s_previous ?st" "\<not> s_current ?st" using current(3,4) by simp_all
    have "s_dirty ?st = s_dirty st" "s_path ?st = s_path st" by simp_all
    with look_step [OF s p current(5,6) es, of ?key] show ?thesis by (simp only: lo_def hi_def current(2) eq)
  next
    case eof
    then show ?thesis using assms(1) by (intro exI [of _ st]) (simp add: status_get_def lo_def hi_def lookup_result_def)
  next
    case stop
    then have "status_get db sg st (Some nm) up False = Some (st\<lparr>s_eof := True\<rparr>, 0)"
      using d(2) by (simp add: status_get_def status_rd_def rdraw_end nothing_def)
    moreover have "sess db sg (st\<lparr>s_eof := True\<rparr>) [] D w" using d stop by (simp add: sess_def src_at_def dst_def writing_def)
    ultimately show ?thesis using stop(4) by (simp add: lo_def hi_def lookup_result_def)
  next
    case read
    from rdraw_step [OF read(4)] obtain st1 where
      st1: "status_rdraw sg st = Some (st1, Some (rest_line (rec_toks db e)))" "s_buf st1 = raw e" "s_previous st1"
      "src_at db sg st1 (after e) es" "read_frame st st1" by blast
    have g: "good db e" "plain e" and es: "\<forall>x \<in> set es. good db x \<and> plain x"
      using read(4) st1(4) by (auto simp: src_at_def valid_def)
    have ck: "statusrec_cook db (raw e) (rest_line (rec_toks db e)) = Some (e, 0)"
      using g by (intro cook_line) (simp add: good_def)
    let ?st = "st1\<lparr>s_buf := e\<rparr>"
    have eq: "status_get db sg st (Some nm) up False = status_look db sg False ?key ?st"
      using read(1,2) d(2) st1(1,2) ck by (simp add: status_get_def status_rd_def)
    have s: "src_at db sg ?st (after e) es" using src_buf [OF st1(4,2) g(1)] .
    have dd: "dst ?st D w" using dst_frame [OF st1(5) d(1)] by (simp add: dst_def writing_def)
    have f: "s_dirty ?st = s_dirty st" "s_path ?st = s_path st"
      and p: "s_buf ?st = e" "s_previous ?st" "\<not> s_current ?st"
      using st1(3,5) read(1) by (simp_all add: read_frame_def)
    show ?thesis
      using look_step [OF s dd p g es, of ?key] f by (simp only: lo_def hi_def read(3) eq)
  qed
qed

lemma sess_write:
  "sess db sg st todo D w \<Longrightarrow> dst st' D' w' \<Longrightarrow> write_frame st st' \<Longrightarrow> sess db sg st' todo D' w'"
  using src_write_frame [of st st'] write_frame_simps [of st st'] by (fastforce simp: sess_def)

lemma sess_dirty [simp]: "sess db sg (st\<lparr>s_dirty := x\<rparr>) todo D w \<longleftrightarrow> sess db sg st todo D w"
  by (simp add: sess_def dst_def writing_def src_at_def)

lemma in_dir_refl [simp]: "in_dir s s"
  by (simp add: in_dir_def)

lemma key_simps [simp]: "sr_file (status_key nm up) = nm" "sr_type (status_key nm up) = (if up then SR_DIRUP else SR_CHECKOUTLIVE)"
  by (simp_all add: status_key_def)

lemma cmp_0_file:
  assumes "statusrec_cmp sg e (status_key nm up) = 0" and "path_ok (sr_file e)" and "path_ok nm"
  shows "sr_file e = nm \<and> \<not> up \<and> sr_type e \<noteq> SR_DIRUP"
  using assms pathcmp_eq_0 [of "sr_file e" nm sg] by (auto simp: statusrec_cmp_def split: if_splits)

text \<open>Whether the rest of the old file may be copied as it is.\<close>

definition ready :: "idb \<Rightarrow> bool \<Rightarrow> status \<Rightarrow> statusrec list \<Rightarrow> string list \<Rightarrow> bool" where
  "ready db sg st todo D \<longleftrightarrow> s_current st \<or> s_eof st \<or> src_at db sg st D todo"

definition key_of :: "statusrec \<Rightarrow> statusrec" where
  "key_of sr = status_key (sr_file sr) (sr_type sr = SR_DIRUP)"

definition compatible :: "bool \<Rightarrow> statusrec \<Rightarrow> statusrec list \<Rightarrow> bool" where
  "compatible sg sr es \<longleftrightarrow>
     (\<forall>e \<in> set es. statusrec_cmp sg e (key_of sr) = 0 \<longrightarrow> record_pc (sr_type e) = record_pc (sr_type sr))"

text \<open>The records left behind a \<open>put\<close>: the one of the same name is replaced.\<close>

definition put_rest :: "bool \<Rightarrow> statusrec \<Rightarrow> statusrec list \<Rightarrow> statusrec list" where
  "put_rest sg key hi = (if lookup_result sg key hi = 1 \<and> sr_type (hd hi) \<noteq> SR_DIRDOWN then tl hi else hi)"

lemma put_hit:
  assumes s: "sess db sg st (e # hi) D w" and c: "s_current st" "s_buf st = e"
    and z: "statusrec_cmp sg e (key_of sr) = 0" and p: "record_pc (sr_type e) = record_pc (sr_type sr)"
    and g: "good db sr" and d: "sr_type e \<noteq> SR_DIRDOWN"
  shows "sess db sg (st\<lparr>s_current := False\<rparr>) hi D w \<and> src_at db sg (st\<lparr>s_current := False\<rparr>) (after sr) hi"
proof -
  have e: "good db e" "src_at db sg st (after e) hi" "dst st D w" using s c by (auto simp: sess_def)
  have n: "sr_file e = sr_file sr" "sr_type e \<noteq> SR_DIRUP"
    using cmp_0_file [of sg e] z e(1) g by (auto simp: key_of_def good_def rec_ok_def)
  then have "sr_type sr \<noteq> SR_DIRDOWN" using p d by (auto simp: record_pc_def split: if_splits)
  then have "after e = after sr" using n d by (simp add: after_def comps_def)
  moreover have "src_at db sg (st\<lparr>s_current := False\<rparr>) (after e) hi" using e(2) by (simp add: src_at_def)
  moreover have "dst (st\<lparr>s_current := False\<rparr>) D w" using e(3) by (simp add: dst_def writing_def)
  ultimately show ?thesis by (auto simp: sess_def src_at_def)
qed

lemma put_step:
  assumes s: "sess db sg st todo D w" and g: "good db sr" and c: "compatible sg sr todo"
  defines "lo \<equiv> takeWhile (below sg (key_of sr)) todo" and "hi \<equiv> dropWhile (below sg (key_of sr)) todo"
  shows "\<exists>st'. status_put db sg st sr = Some (st', 0) \<and>
    sess db sg st' (put_rest sg (key_of sr) hi) (after sr) (w @ emits db D (lo @ [sr])) \<and>
    ready db sg st' (put_rest sg (key_of sr) hi) (after sr) \<and> s_dirty st' \<and> s_path st' = s_path st"
proof -
  let ?r = "lookup_result sg (key_of sr) hi" and ?D = "end_dir D lo" and ?w = "w @ emits db D lo"
  from get_step [OF s, of "sr_file sr" "sr_type sr = SR_DIRUP"] obtain st1 where
    st1: "status_get db sg st (Some (sr_file sr)) (sr_type sr = SR_DIRUP) False = Some (st1, ?r)"
    "sess db sg st1 hi ?D ?w" "if hi = [] then s_eof st1 else s_current st1 \<and> s_buf st1 = hd hi" "s_path st1 = s_path st"
    by (auto simp: lo_def hi_def key_of_def)
  have r: "?r = 0 \<or> ?r = 1" by (auto simp: lookup_result_def split: list.splits)
  have hit: "\<exists>e es. hi = e # es \<and> statusrec_cmp sg e (key_of sr) = 0 \<and> record_pc (sr_type e) = record_pc (sr_type sr)" if "?r = 1"
  proof -
    from that obtain e es where e: "hi = e # es" "statusrec_cmp sg e (key_of sr) = 0"
      by (auto simp: lookup_result_def split: list.splits if_splits)
    then have "e \<in> set todo" using set_dropWhileD [of e "below sg (key_of sr)" todo] by (simp add: hi_def)
    with e c show ?thesis by (auto simp: compatible_def)
  qed
  obtain st2 where st2: "(if ?r = 0 then Some (st1, 0::int)
      else if sr_type (s_buf st1) = SR_DIRDOWN then
        if sr_type sr = SR_CHECKOUTLIVE \<or> sr_type sr = SR_CHECKOUTDEAD then
          Option.bind (status_get db sg st1 (Some (sr_file sr)) True True) (\<lambda>(st, ret).
            if ret = -1 then Some (st, -1) else if ret = 0 then None else Some (st, 0))
        else Some (st1, 0)
      else Some (st1\<lparr>s_current := False\<rparr>, 0)) = Some (st2, 0)"
    "sess db sg st2 (put_rest sg (key_of sr) hi) ?D ?w" "ready db sg st2 (put_rest sg (key_of sr) hi) (after sr)"
    "s_path st2 = s_path st"
  proof (cases "?r = 1")
    case False
    then have "?r = 0" "put_rest sg (key_of sr) hi = hi" using r by (simp_all add: put_rest_def)
    then show ?thesis using that [of st1] st1 by (cases "hi = []") (auto simp: ready_def)
  next
    case True
    with hit obtain e es where e: "hi = e # es" "statusrec_cmp sg e (key_of sr) = 0"
      "record_pc (sr_type e) = record_pc (sr_type sr)" by blast
    with st1(3) have b: "s_current st1" "s_buf st1 = e" by auto
    show ?thesis
    proof (cases "sr_type e = SR_DIRDOWN")
      case d: True
      then have "sr_type sr = SR_DIRDOWN" using e(3) by (auto simp: record_pc_def split: if_splits)
      then show ?thesis using that [of st1] True d b e(1) st1 by (simp add: put_rest_def ready_def)
    next
      case False
      with put_hit [OF _ b e(2,3) g] st1(2) e(1) have
        "sess db sg (st1\<lparr>s_current := False\<rparr>) es ?D ?w" "src_at db sg (st1\<lparr>s_current := False\<rparr>) (after sr) es" by auto
      then show ?thesis using that [of "st1\<lparr>s_current := False\<rparr>"] True False b e(1) st1(4) by (simp add: put_rest_def ready_def)
    qed
  qed
  have "dst (st2\<lparr>s_dirty := True\<rparr>) ?D ?w" using st2(2) by (simp add: sess_def dst_def writing_def)
  from status_wr_step [OF this g] obtain st3 where
    st3: "status_wr db (st2\<lparr>s_dirty := True\<rparr>) sr = Some (st3, 0)" "dst st3 (after sr) (?w @ emit db ?D sr)"
    "write_frame (st2\<lparr>s_dirty := True\<rparr>) st3" by blast
  have "status_put db sg st sr = Some (st3, 0)"
    using st1(1) r st2(1) st3(1) by (auto simp: status_put_def)
  moreover have "sess db sg st3 (put_rest sg (key_of sr) hi) (after sr) (w @ emits db D (lo @ [sr]))"
    using sess_write [OF _ st3(2,3)] st2(2) by simp
  moreover have "ready db sg st3 (put_rest sg (key_of sr) hi) (after sr)"
    using st2(3) src_write_frame [OF st3(3)] write_frame_simps [OF st3(3)] by (auto simp: ready_def src_at_def)
  ultimately show ?thesis using write_frame_simps [OF st3(3)] st2(4) by auto
qed

lemma sess_drop:
  assumes "sess db sg st (e # hi) D w" and "s_current st" and "s_buf st = e"
  shows "sess db sg (st\<lparr>s_current := False\<rparr>) hi D w"
proof -
  have "src_at db sg st (after e) hi" "dst st D w" using assms by (auto simp: sess_def)
  then have "src_at db sg (st\<lparr>s_current := False\<rparr>) (after e) hi" "dst (st\<lparr>s_current := False\<rparr>) D w"
    by (simp_all add: src_at_def dst_def writing_def)
  then show ?thesis by (auto simp: sess_def src_at_def)
qed

lemma delete_step:
  fixes nm :: string and up :: bool
  assumes s: "sess db sg st todo D w"
  defines "lo \<equiv> takeWhile (below sg (status_key nm up)) todo" and "hi \<equiv> dropWhile (below sg (status_key nm up)) todo"
  shows "\<exists>st'. status_delete db sg st nm up = Some (st', 0) \<and>
    sess db sg st' (if lookup_result sg (status_key nm up) hi = 1 then tl hi else hi) (end_dir D lo) (w @ emits db D lo) \<and>
    (s_dirty st \<longrightarrow> s_dirty st') \<and> s_path st' = s_path st"
proof -
  let ?r = "lookup_result sg (status_key nm up) hi"
  from get_step [OF s, of nm up] obtain st1 where
    st1: "status_get db sg st (Some nm) up False = Some (st1, ?r)" "sess db sg st1 hi (end_dir D lo) (w @ emits db D lo)"
    "if hi = [] then s_eof st1 else s_current st1 \<and> s_buf st1 = hd hi" "s_dirty st1 = s_dirty st" "s_path st1 = s_path st"
    by (auto simp: lo_def hi_def)
  show ?thesis
  proof (cases "?r = 1")
    case True
    then obtain e es where e: "hi = e # es" by (auto simp: lookup_result_def split: list.splits)
    have "sess db sg (st1\<lparr>s_current := False, s_dirty := True\<rparr>) es (end_dir D lo) (w @ emits db D lo)"
      using sess_drop [of db sg st1 e es] st1(2,3) e by simp
    then show ?thesis using st1(1,5) True e by (simp add: status_delete_def)
  next
    case False
    then have "?r = 0" by (auto simp: lookup_result_def split: list.splits)
    then show ?thesis using st1 by (simp add: status_delete_def)
  qed
qed

section \<open>Closing\<close>

lemma copy_step:
  assumes "src_at db sg st ds es" and "dst st ds w"
  shows "\<exists>st'. status_copy db sg st = Some (st', True) \<and> dst st' (end_dir ds es) (w @ emits db ds es) \<and>
    s_error st' = 0 \<and> statusrec_fini (s_buf st')"
  using assms
proof (induction es arbitrary: st ds w)
  case Nil
  then show ?case
    by (subst status_copy.simps) (auto simp: rdraw_end dst_def writing_def src_at_def)
next
  case (Cons e es)
  from rdraw_step [OF Cons.prems(1)] obtain st1 where
    st1: "status_rdraw sg st = Some (st1, Some (rest_line (rec_toks db e)))" "s_buf st1 = raw e"
    "src_at db sg st1 (after e) es" "read_frame st st1" by blast
  have g: "good db e" "fits ds e" "plain e" using Cons.prems(1) by (auto simp: src_at_def dest: valid_Cons)
  from wrraw_step [OF dst_frame [OF st1(4) Cons.prems(2)] g] obtain st2 where
    st2: "status_wrraw db st1 (raw e) (rest_line (rec_toks db e)) = Some (st2, 0)"
    "dst st2 (after e) (w @ emit db ds e)" "write_frame st1 st2" by blast
  have "status_copy db sg st = status_copy db sg st2"
    using st1(1,2) st2(1) by (subst status_copy.simps) simp
  with Cons.IH [OF src_write_frame [OF st2(3) st1(3)] st2(2)] show ?case by simp
qed

text \<open>Closing the open directories: the compressor goes up to the root.\<close>

lemma up_frame: "pathcomp_up ((pc :: pathcomp)\<lparr>target := x\<rparr>) = map_option (\<lambda>(pc', ev). (pc'\<lparr>target := x\<rparr>, ev)) (pathcomp_up pc)"
  by (auto simp: pathcomp_up_def Let_def split: option.splits)

lemma get_up_frame:
  assumes "goal pc < curlen pc" and "pathcomp_get (pc\<lparr>target := Some t\<rparr>) = Some (pc', ev)" and "target pc = None"
  shows "pathcomp_get pc = Some (pc'\<lparr>target := None\<rparr>, ev)"
proof -
  have "pathcomp_up (pc\<lparr>target := Some t\<rparr>) = Some (pc', ev)" using assms(1,2) by (simp add: pathcomp_get_def)
  moreover have "pc\<lparr>target := None\<rparr> = pc" using assms(3) by (cases pc) simp
  then have "pathcomp_up pc = pathcomp_up (pc\<lparr>target := Some t, target := None\<rparr>)" by simp
  then have "pathcomp_up pc = map_option (\<lambda>(pc', ev). (pc'\<lparr>target := None\<rparr>, ev)) (pathcomp_up (pc\<lparr>target := Some t\<rparr>))"
    using up_frame [of None "pc\<lparr>target := Some t\<rparr>"] by argo
  ultimately have "pathcomp_up pc = Some (pc'\<lparr>target := None\<rparr>, ev)" by simp
  with assms(1) show ?thesis by (simp add: pathcomp_get_def)
qed

lemma closing_step:
  assumes c: "clean ds" and t: "target (s_pc st) = None" and w: "writing st w" and i: "i \<le> length ds"
    and u: "if i = 0 then curlen (s_pc st) = 0 \<and> goal (s_pc st) = 0
      else up_state ((s_pc st)\<lparr>target := Some []\<rparr>) [] ds 0 i []"
    and n: "i < n"
  shows "\<exists>pc'. wr_closing db n st = Some (wrote (st\<lparr>s_pc := pc'\<rparr>) (moves_text db None (ups 0 i ds)), 0)"
  using t w i u n
proof (induction i arbitrary: st w n)
  case 0
  then obtain m where "n = Suc m" by (cases n) auto
  with 0 show ?case
    by (intro exI [of _ "s_pc st"]) (simp add: pc_next_def pathcomp_get_def pathcomp_done_def)
next
  case (Suc i)
  then obtain m where n: "n = Suc m" "i < m" by (cases n) auto
  let ?pc = "(s_pc st)\<lparr>target := Some []\<rparr>"
  have us: "up_state ?pc [] ds 0 (Suc i) []" using Suc.prems(4) by simp
  from pathcomp_get_up [OF c us, unfolded diff_Suc_1] obtain pc1 where
    g: "pathcomp_get ?pc = Some (pc1, Some (PC_DIRUP, join_path (take (Suc i) ds)))"
    and st1: "if 0 < i then up_state pc1 [] ds 0 i []
      else target pc1 = Some [] \<and> trashed pc1 = None \<and> targetlen pc1 = length (join_path []) \<and>
        goal pc1 = length (join_path []) \<and> curlen pc1 = length (join_path (take 0 ds))" by blast
  have "0 < curlen (s_pc st)" "goal (s_pc st) = 0"
    using us join_take_less [OF c, of 0 "Suc i"] by (simp_all add: up_state_def)
  from get_up_frame [of "s_pc st"] this g Suc.prems(1)
  have g1: "pathcomp_get (s_pc st) = Some (pc1\<lparr>target := None\<rparr>, Some (PC_DIRUP, join_path (take (Suc i) ds)))" by simp
  let ?st = "st\<lparr>s_pc := pc1\<lparr>target := None\<rparr>\<rparr>"
  let ?t = "''U '' @ esc (join_path (take (Suc i) ds)) @ '' '' @ ptr_text db (Aptr fattr_bogus) @ [CHR 0x0A]"
  have put: "status_putln db ?st ''U %s %a'' [Some (Astr (Some (join_path (take (Suc i) ds)))), Some (Afattr fattr_bogus)] =
      Some (wrote ?st ?t, 0)"
    using put_up [of ?st w db "Aptr fattr_bogus"] Suc.prems(2) bogus_prints by (simp add: attr_arg_def)
  have "target pc1 = Some []" using st1 by (auto simp: up_state_def split: if_splits)
  then have "pc1\<lparr>target := None\<rparr>\<lparr>target := Some []\<rparr> = pc1" by simp
  with st1 have "if i = 0 then curlen (s_pc (wrote ?st ?t)) = 0 \<and> goal (s_pc (wrote ?st ?t)) = 0
      else up_state ((s_pc (wrote ?st ?t))\<lparr>target := Some []\<rparr>) [] ds 0 i []" by auto
  have "target (s_pc (wrote ?st ?t)) = None" "writing (wrote ?st ?t) (w @ ?t)" "i \<le> length ds"
    using Suc.prems(2,3) by simp_all
  from Suc.IH [OF this \<open>if i = 0 then _ else _\<close> n(2)]
  obtain pc' where "wr_closing db m (wrote ?st ?t) =
      Some (wrote ((wrote ?st ?t)\<lparr>s_pc := pc'\<rparr>) (moves_text db None (ups 0 i ds)), 0)" by blast
  with g1 put n(1) show ?case by (intro exI [of _ pc']) (simp add: pc_next_def ups_step [of 0 "Suc i"] move_text_def)
qed

definition closing_text :: "idb \<Rightarrow> string list \<Rightarrow> string" where
  "closing_text db ds = moves_text db None (ups 0 (length ds) ds)"

lemma finish_closing:
  assumes d: "dst st D w"
  shows "\<exists>st'. wr_closing db (curlen (s_pc st) + 2) (st\<lparr>s_pc := pathcomp_finish (s_pc st)\<rparr>) = Some (st', 0) \<and>
    s_wr st' = Some (Roomy (w @ closing_text db D)) \<and> s_error st' = s_error st \<and> s_buf st' = s_buf st \<and>
    s_previous st' = s_previous st"
proof -
  let ?pc = "pathcomp_finish (s_pc st)" and ?st = "st\<lparr>s_pc := pathcomp_finish (s_pc st)\<rparr>"
  have at: "at_dir (s_pc st) D" "clean D" "writing st w" using d by (simp_all add: dst_def)
  have u: "if length D = 0 then curlen (s_pc ?st) = 0 \<and> goal (s_pc ?st) = 0
      else up_state ((s_pc ?st)\<lparr>target := Some []\<rparr>) [] D 0 (length D) []"
    using at(1) by (auto simp: at_dir_def pathcomp_finish_def up_state_def split: option.splits)
  have "curlen (s_pc st) = length (join_path D)" using at(1) by (simp add: at_dir_def)
  then have "length D < curlen (s_pc st) + 2" using length_join [OF at(2)] by simp
  from closing_step [OF at(2) _ _ order_refl u this, of w db] at(3)
  obtain pc' where "wr_closing db (curlen (s_pc st) + 2) ?st = Some (wrote (?st\<lparr>s_pc := pc'\<rparr>) (closing_text db D), 0)"
    by (auto simp: pathcomp_finish_def closing_text_def)
  then show ?thesis using at(3) by (simp add: wrote_def writing_def)
qed

lemma copy_rest:
  assumes s: "sess db sg st todo D w" and r: "ready db sg st todo D" and c: "\<not> s_current st"
  shows "\<exists>st'. status_copy db sg st = Some (st', True) \<and> dst st' (end_dir D todo) (w @ emits db D todo) \<and>
    s_error st' = 0 \<and> statusrec_fini (s_buf st')"
proof (cases "s_eof st")
  case True
  then have "todo = []" "dst st D w" "s_error st = 0" "statusrec_fini (s_buf st)" using s c by (simp_all add: sess_def)
  moreover have "status_copy db sg st = Some (st, True)"
    using True by (subst status_copy.simps) (simp add: status_rdraw_def)
  ultimately show ?thesis by simp
next
  case False
  then have "src_at db sg st D todo" "dst st D w" using s r c by (auto simp: ready_def sess_def)
  then show ?thesis by (rule copy_step)
qed

lemma close_step:
  assumes s: "sess db sg st todo D w" and r: "ready db sg st todo D" and d: "s_dirty st"
  shows "status_close db sg strerror None st =
    Some (None, Temp_renamed (w @ emits db D todo @ closing_text db (end_dir D todo)))"
proof -
  obtain st1 D1 w1 todo1 where st1: "(if s_current st
        then map_option (\<lambda>(st, error). (if error \<noteq> 0 then st else st\<lparr>s_current := False\<rparr>, error)) (status_wr db st (s_buf st))
        else Some (st, 0)) = Some (st1, 0)"
    "sess db sg st1 todo1 D1 w1" "ready db sg st1 todo1 D1" "\<not> s_current st1"
    "w1 @ emits db D1 todo1 = w @ emits db D todo" "end_dir D1 todo1 = end_dir D todo"
  proof (cases "s_current st")
    case False
    then show ?thesis using that [of st todo D w] s r by simp
  next
    case True
    then obtain e es where e: "todo = e # es" "s_buf st = e" "good db e" "src_at db sg st (after e) es" "dst st D w"
      using s by (auto simp: sess_def)
    from status_wr_step [OF e(5,3)] obtain st1 where
      st1: "status_wr db st e = Some (st1, 0)" "dst st1 (after e) (w @ emit db D e)" "write_frame st st1" by blast
    have "src_at db sg (st1\<lparr>s_current := False\<rparr>) (after e) es"
      using src_write_frame [OF st1(3) e(4)] by (simp add: src_at_def)
    moreover have "dst (st1\<lparr>s_current := False\<rparr>) (after e) (w @ emit db D e)"
      using st1(2) by (simp add: dst_def writing_def)
    ultimately show ?thesis
      using that [of "st1\<lparr>s_current := False\<rparr>" es "after e" "w @ emit db D e"] True st1(1) e(1,2)
      by (auto simp: sess_def src_at_def ready_def)
  qed
  from copy_rest [OF st1(2-4)] st1(5,6) obtain st2 where
    st2: "status_copy db sg st1 = Some (st2, True)" "dst st2 (end_dir D todo) (w @ emits db D todo)" "s_error st2 = 0"
      "statusrec_fini (s_buf st2)" by auto
  from finish_closing [OF st2(2), of db] obtain st3 where
    st3: "wr_closing db (curlen (s_pc st2) + 2) (st2\<lparr>s_pc := pathcomp_finish (s_pc st2)\<rparr>) = Some (st3, 0)"
      "s_wr st3 = Some (Roomy (w @ emits db D todo @ closing_text db (end_dir D todo)))" "s_buf st3 = s_buf st2" by auto
  have "status_finish db sg None st = Some (st3, Temp_renamed (w @ emits db D todo @ closing_text db (end_dir D todo)))"
    using st1(1) st2(1,3) st3(1,2) by (simp add: status_finish_def wfile_close_def)
  moreover have "s_wr st \<noteq> None" using s by (simp add: sess_def dst_def writing_def)
  ultimately show ?thesis using d st2(4) st3(3) by (simp add: status_close_def)
qed

section \<open>Sessions\<close>

datatype sop = Put statusrec | Del string bool

fun run_sops :: "idb \<Rightarrow> bool \<Rightarrow> status \<Rightarrow> sop list \<Rightarrow> status option" where
  "run_sops db sg st [] = Some st"
| "run_sops db sg st (Put sr # ops) =
     Option.bind (status_put db sg st sr) (\<lambda>(st', ret). if ret = 0 then run_sops db sg st' ops else None)"
| "run_sops db sg st (Del nm up # ops) =
     Option.bind (status_delete db sg st nm up) (\<lambda>(st', ret). if ret = 0 then run_sops db sg st' ops else None)"

text \<open>
  The same on the list of records: everything below the key of an operation is passed over,
  a \<open>Put\<close> adds its record in front of the rest and takes the place of one with the same name, a
  \<open>Del\<close> drops it.
\<close>

fun session_records :: "bool \<Rightarrow> sop list \<Rightarrow> statusrec list \<Rightarrow> statusrec list" where
  "session_records sg [] es = es"
| "session_records sg (Put sr # ops) es =
     takeWhile (below sg (key_of sr)) es @ sr #
     session_records sg ops (put_rest sg (key_of sr) (dropWhile (below sg (key_of sr)) es))"
| "session_records sg (Del nm up # ops) es =
     takeWhile (below sg (status_key nm up)) es @
     (let hi = dropWhile (below sg (status_key nm up)) es in
      session_records sg ops (if lookup_result sg (status_key nm up) hi = 1 then tl hi else hi))"

definition ops_ok :: "idb \<Rightarrow> bool \<Rightarrow> sop list \<Rightarrow> statusrec list \<Rightarrow> bool" where
  "ops_ok db sg ops es \<longleftrightarrow> (\<forall>sr. Put sr \<in> set ops \<longrightarrow> good db sr \<and> compatible sg sr es)"

lemma ops_ok_sub: "ops_ok db sg (opn # ops) es \<Longrightarrow> set es' \<subseteq> set es \<Longrightarrow> ops_ok db sg ops es'"
  by (auto simp: ops_ok_def compatible_def)

lemma rest_sub: "set (put_rest sg key (dropWhile P es)) \<subseteq> set es"
  "set (if b then tl (dropWhile P es) else dropWhile P es) \<subseteq> set es"
proof -
  have d: "set (dropWhile P es) \<subseteq> set es" using set_dropWhileD by fastforce
  moreover have "set (tl xs) \<subseteq> set xs" for xs :: "statusrec list" by (cases xs) auto
  ultimately show "set (put_rest sg key (dropWhile P es)) \<subseteq> set es"
    "set (if b then tl (dropWhile P es) else dropWhile P es) \<subseteq> set es"
    by (auto simp: put_rest_def)
qed

lemma run_sops_step:
  assumes "sess db sg st todo D w" and "ops_ok db sg ops todo"
    and "ops = [] \<longrightarrow> ready db sg st todo D \<and> s_dirty st" and "ops \<noteq> [] \<longrightarrow> (\<exists>sr. last ops = Put sr)"
  shows "\<exists>st' D' w' todo'. run_sops db sg st ops = Some st' \<and> sess db sg st' todo' D' w' \<and> ready db sg st' todo' D' \<and>
    s_dirty st' \<and> w' @ emits db D' todo' = w @ emits db D (session_records sg ops todo) \<and>
    end_dir D' todo' = end_dir D (session_records sg ops todo)"
  using assms
proof (induction ops arbitrary: st todo D w)
  case Nil
  then show ?case by auto
next
  case (Cons opn ops)
  show ?case
  proof (cases opn)
    case (Put sr)
    let ?lo = "takeWhile (below sg (key_of sr)) todo"
    let ?hi = "put_rest sg (key_of sr) (dropWhile (below sg (key_of sr)) todo)"
    have "good db sr" "compatible sg sr todo" using Cons.prems(2) Put by (auto simp: ops_ok_def)
    from put_step [OF Cons.prems(1) this] obtain st1 where
      st1: "status_put db sg st sr = Some (st1, 0)" "sess db sg st1 ?hi (after sr) (w @ emits db D (?lo @ [sr]))"
      "ready db sg st1 ?hi (after sr)" "s_dirty st1" by blast
    have "ops_ok db sg ops ?hi" using Cons.prems(2) rest_sub(1) by (rule ops_ok_sub)
    from Cons.IH [OF st1(2) this] st1(3,4) Cons.prems(4) st1(1) Put show ?thesis by (cases "ops = []") auto
  next
    case (Del nm up)
    with Cons.prems(4) have ne: "ops \<noteq> []" by auto
    let ?key = "status_key nm up"
    let ?lo = "takeWhile (below sg ?key) todo" and ?hi = "dropWhile (below sg ?key) todo"
    let ?rest = "if lookup_result sg ?key ?hi = 1 then tl ?hi else ?hi"
    from delete_step [OF Cons.prems(1), of nm up] obtain st1 where
      st1: "status_delete db sg st nm up = Some (st1, 0)" "sess db sg st1 ?rest (end_dir D ?lo) (w @ emits db D ?lo)" by blast
    have "ops_ok db sg ops ?rest" using Cons.prems(2) rest_sub(2) by (rule ops_ok_sub)
    from Cons.IH [OF st1(2) this] ne Cons.prems(4) st1(1) Del show ?thesis by (auto simp: Let_def split del: if_split)
  qed
qed

definition status_header :: "int \<Rightarrow> string" where
  "status_header t = ''F '' @ int_str STATUS_VERSION @ '' '' @ int_str t"

lemma fromrd_header:
  assumes "LONG_MIN \<le> t" and "t \<le> LONG_MAX"
  shows "status_fromrd path (status_header t # ls, re) = Some ((status_new path t (Some (ls, re)))\<lparr>s_linenum := 1\<rparr>)"
proof -
  let ?r = "int_str STATUS_VERSION @ line_tail (Some (int_str t))"
  have "proto_get_ascii (Some (''F'' @ line_tail (Some ?r))) = (Some (proto_unescape ''F''), Some ?r)"
    by (rule get_ascii_token) simp_all
  then have 1: "proto_get_ascii (Some (status_header t)) = (Some ''F'', Some ?r)"
    by (simp add: status_header_def line_tail_def)
  have "field_ok undefined (Fint STATUS_VERSION)" by (simp add: STATUS_VERSION_def int_limits)
  from get_field_text [OF this, of "Some (int_str t)"]
  have 2: "proto_get_int (Some ?r) 10 = (Some STATUS_VERSION, Some (int_str t))"
    by (auto simp: get_field_def split: prod.splits option.splits)
  have "field_ok undefined (Ftime t)" using assms by simp
  from get_field_text [OF this, of None] have 3: "proto_get_time (Some (int_str t)) = (Some t, None)"
    by (auto simp: get_field_def line_tail_def split: prod.splits option.splits)
  show ?thesis using 1 2 3 by (simp add: status_fromrd_def)
qed

lemma put_header: "writing st w \<Longrightarrow>
  status_putln db st ''F %d %t'' [Some (Aint STATUS_VERSION), Some (Atime t)] = Some (wrote st (status_header t @ [CHR 0x0A]), 0)"
  by (rule putln_text [where as' = "[Aint STATUS_VERSION, Atime t]"]) (simp_all add: printf_simps status_header_def)

lemma emits_copied:
  "nested ds es \<Longrightarrow> \<forall>e \<in> set es. good db e \<Longrightarrow> emits db ds es = concat (map (\<lambda>e. rec_line db e @ [CHR 0x0A]) es)"
  by (induction ds es rule: nested.induct) (simp_all add: emit_fits)

text \<open>
  Claim C5. A session on a status file refines updates of a list, for the sessions of the client
  that replace records by records of the same kind. Opened for writing on a valid old file (its
  records sorted, properly nested, with the attributes and fields their kinds need and no
  directory name that would be escaped), on a disk with room, the operations all succeed, no
  assertion fails, and closing replaces the old file by the records of the updated list: each is
  written as its line, with the lines that leave and enter the directories between two records,
  and the directories still open are closed at the end. The operations are any sequence of puts
  and deletes that is empty or ends with a put, such that no put has the key of an old record of the
  other kind, a file for a directory or a directory for a file. Both conditions are needed: a
  session that ends with a delete can abort (\<open>delete_after_new_directory_aborts\<close>), and so does a checked-out file put
  over a directory (\<open>replace_directory_aborts\<close>). With no operation the new file holds the old lines.
\<close>

theorem status_session:
  assumes es: "valid db sg [] es" and ops: "ops_ok db sg ops es" "ops = [] \<or> (\<exists>sr. last ops = Put sr)"
    and c: "coll_statuspath c = Some path" "co_base c = Some base" "co_colldir c = Some dir" "co_name c = Some name"
    and env: "se_open env path = Inr (status_header t0 # map (rec_line db) es, None)"
      "\<And>f. se_mkdir env f = None" "\<And>f. se_create env f = Inr None" "\<And>f. se_setattr env f = None"
    and t: "LONG_MIN \<le> t0" "t0 \<le> LONG_MAX" "scantime \<noteq> -1" "ops = [] \<Longrightarrow> scantime \<noteq> t0"
  shows "\<exists>st st'. status_open db env c scantime = Some (Inr st) \<and> run_sops db sg st ops = Some st' \<and>
    (let new = session_records sg ops es in
     status_close db sg strerror None st' =
       Some (None, Temp_renamed (status_header scantime @ [CHR 0x0A] @ emits db [] new @ closing_text db (end_dir [] new)))) \<and>
    emits db [] es = concat (map (\<lambda>e. rec_line db e @ [CHR 0x0A]) es)"
proof -
  let ?tmp = "se_tempname env (base @ ''/'' @ dir @ ''/'' @ name @ ''/'')" and ?h = "status_header scantime @ [CHR 0x0A]"
  let ?st0 = "(status_new path t0 (Some (map (rec_line db) es, None)))
      \<lparr>s_linenum := 1, s_tempfile := Some ?tmp, s_wr := Some (Roomy []), s_dirty := (scantime \<noteq> t0)\<rparr>"
  have "writing ?st0 []" by (simp add: writing_def)
  then have st: "status_open db env c scantime = Some (Inr (wrote ?st0 ?h))"
    using c env t fromrd_header [OF t(1,2)] put_header [of ?st0 "[]" db scantime]
    by (simp add: status_open_def status_open_wr_def wfile_open_def Let_def status_new_def)
  let ?st = "wrote ?st0 ?h"
  have src: "src_at db sg ?st [] es"
    using es by (simp add: src_at_def wrote_def status_new_def statusrec_init_def statusrec_fini_def)
  have d: "dst ?st [] ?h" by (simp add: dst_def writing_def wrote_def status_new_def at_dir_new)
  have s: "sess db sg ?st es [] ?h" using src d by (auto simp: sess_def wrote_def status_new_def src_at_def)
  have "ready db sg ?st es []" unfolding ready_def using src by blast
  moreover have "ops = [] \<longrightarrow> s_dirty ?st" using t(4) by (simp add: wrote_def status_new_def)
  ultimately have dirty: "ops = [] \<longrightarrow> ready db sg ?st es [] \<and> s_dirty ?st" by blast
  from run_sops_step [OF s ops(1) dirty] ops(2) obtain st' D' w' todo' where
    r: "run_sops db sg ?st ops = Some st'" "sess db sg st' todo' D' w'" "ready db sg st' todo' D'" "s_dirty st'"
      "w' @ emits db D' todo' = ?h @ emits db [] (session_records sg ops es)"
      "end_dir D' todo' = end_dir [] (session_records sg ops es)"
    by blast
  have "status_close db sg strerror None st' = Some (None, Temp_renamed (?h @ emits db [] (session_records sg ops es) @
      closing_text db (end_dir [] (session_records sg ops es))))"
    using close_step [OF r(2-4), of strerror] r(5,6) by (metis append.assoc)
  moreover have "emits db [] es = concat (map (\<lambda>e. rec_line db e @ [CHR 0x0A]) es)"
    using es by (intro emits_copied) (auto simp: valid_def)
  ultimately show ?thesis using st r(1) by (auto simp: Let_def)
qed

text \<open>An example: a file is added in a directory of its own between two others.\<close>

definition demo_db :: idb where
  "demo_db = \<lparr>getuserbyid = (\<lambda>u. None), getuidbyname = (\<lambda>n. None), getgroupbyid = (\<lambda>g. None), getgidbyname = (\<lambda>n. None)\<rparr>"

definition demo_fa :: fattr where
  "demo_fa = fattr_zero\<lparr>mask := FA_FILETYPE OR FA_MODE OR FA_LINKCOUNT, ftype := 1, mode := 0x1a4, linkcount := 1\<rparr>"

definition demo_rec :: "sr_type \<Rightarrow> string \<Rightarrow> statusrec" where
  "demo_rec t name = statusrec_init\<lparr>sr_type := t, sr_file := name,
     sr_clientattr := (if t = SR_DIRDOWN then Anull else Aptr demo_fa)\<rparr>"

definition demo_env :: status_env where
  "demo_env = \<lparr>se_open = (\<lambda>_. Inr (status_header 7 # map (rec_line demo_db) [demo_rec SR_FILELIVE ''a'', demo_rec SR_FILELIVE ''z''], None)),
     se_mkdir = (\<lambda>_. None), se_create = (\<lambda>_. Inr None), se_setattr = (\<lambda>_. None), se_tempname = (\<lambda>d. d @ ''tmp''),
     se_strerror = (\<lambda>_. [])\<rparr>"

definition demo_coll :: coll where
  "demo_coll = (coll_new None)\<lparr>co_base := Some ''/b'', co_colldir := Some ''sup'', co_name := Some ''c''\<rparr>"

lemma demo_attr: "attr_ok demo_db demo_fa"
proof -
  have "fattr_encode demo_db demo_fa None 0 = Some ''2#811#13#644''" by code_simp
  moreover have "fattr_decode demo_db ''2#811#13#644'' = Some (Some demo_fa)" by code_simp
  ultimately show ?thesis by (simp add: attr_ok_def)
qed

lemmas demo_simps = good_def rec_ok_def demo_rec_def fits_def comps_def after_def plain_def ptr_ok_def statusrec_init_def
  statusrec_cmp_def in_dir_def path_char_def char_val_def ops_ok_def compatible_def key_of_def status_key_def record_pc_def
  valid_def

lemma demo_valid: "valid demo_db True [] [demo_rec SR_FILELIVE ''a'', demo_rec SR_FILELIVE ''z'']"
  using demo_attr by (simp add: demo_simps)

lemma demo_ops: "ops_ok demo_db True [Put (demo_rec SR_FILELIVE ''m/x'')] [demo_rec SR_FILELIVE ''a'', demo_rec SR_FILELIVE ''z'']"
  using demo_attr by (simp add: demo_simps)

theorem status_session_witness:
  "\<exists>st st'. status_open demo_db demo_env demo_coll 8 = Some (Inr st) \<and>
    run_sops demo_db True st [Put (demo_rec SR_FILELIVE ''m/x'')] = Some st' \<and>
    status_close demo_db True (\<lambda>_. []) None st' = Some (None, Temp_renamed (status_header 8 @ [CHR 0x0A] @
      concat (map (\<lambda>l. l @ [CHR 0x0A]) [''V a 2#811#13#644'', ''D m'', ''V m/x 2#811#13#644'', ''U m 2#861#11#01#0'',
        ''V z 2#811#13#644''])))"
proof -
  let ?es = "[demo_rec SR_FILELIVE ''a'', demo_rec SR_FILELIVE ''z'']" and ?ops = "[Put (demo_rec SR_FILELIVE ''m/x'')]"
  let ?L = "session_records True ?ops ?es"
  have t: "emits demo_db [] ?L @ closing_text demo_db (end_dir [] ?L) = concat (map (\<lambda>l. l @ [CHR 0x0A])
      [''V a 2#811#13#644'', ''D m'', ''V m/x 2#811#13#644'', ''U m 2#861#11#01#0'', ''V z 2#811#13#644''])"
    by code_simp
  have "coll_statuspath demo_coll = Some ''/b/sup/c/checkouts''"
    by (simp add: demo_coll_def coll_new_def coll_zero_def coll_statuspath_def coll_statussuffix_def has_opt_def)
  from status_session [OF demo_valid demo_ops _ this, of "''/b''" "''sup''" "''c''" demo_env 7 8 "\<lambda>_. []"] t
  show ?thesis by (auto simp: demo_env_def demo_coll_def coll_new_def coll_zero_def int_limits Let_def)
qed

section \<open>Where sessions fail\<close>

lemma seek_deleting:
  assumes "src_at db sg st ds es"
  shows "\<exists>st' r. status_seek db sg True key st = Some (st', r) \<and> s_error st' = 0 \<and>
    (case dropWhile (below sg key) es of
       [] \<Rightarrow> r = Seek_end
     | e # hi \<Rightarrow> r = Seek_at (rest_line (rec_toks db e)) (statusrec_cmp sg e key) \<and> s_buf st' = raw e)"
  using assms
proof (induction es arbitrary: st ds)
  case Nil
  then show ?case by (subst status_seek.simps) (auto simp: rdraw_end src_at_def)
next
  case (Cons e es)
  from rdraw_step [OF Cons.prems] obtain st1 where
    st1: "status_rdraw sg st = Some (st1, Some (rest_line (rec_toks db e)))" "s_buf st1 = raw e"
    "src_at db sg st1 (after e) es" by blast
  show ?case
  proof (cases "below sg key e")
    case False
    then show ?thesis using st1
      by (subst status_seek.simps) (auto simp: below_def src_at_def)
  next
    case True
    then have "status_seek db sg True key st = status_seek db sg True key st1"
      using st1(1,2) by (subst status_seek.simps) (simp add: below_def)
    with Cons.IH [OF st1(3)] True show ?thesis by simp
  qed
qed

lemma dirup_not_found:
  assumes st: "src_at db sg st (after e) es" "s_buf st = e" "good db e" and p: "path_ok nm"
  shows "\<exists>st'. status_look db sg True (status_key nm True) st = Some (st', 0)"
proof (cases "below sg (status_key nm True) e")
  case False
  moreover have "path_ok (sr_file e)" using st(3) by (simp add: good_def rec_ok_def)
  then have "statusrec_cmp sg e (status_key nm True) \<noteq> 0" using cmp_0_file [of sg e nm True] p by auto
  ultimately show ?thesis using st(2) by (simp add: status_look_def below_def)
next
  case True
  from seek_deleting [OF st(1), of "status_key nm True"] obtain st1 r where
    st1: "status_seek db sg True (status_key nm True) st = Some (st1, r)" "s_error st1 = 0"
    "case dropWhile (below sg (status_key nm True)) es of
       [] \<Rightarrow> r = Seek_end
     | e # hi \<Rightarrow> r = Seek_at (rest_line (rec_toks db e)) (statusrec_cmp sg e (status_key nm True)) \<and> s_buf st1 = raw e"
    by blast
  show ?thesis
  proof (cases "dropWhile (below sg (status_key nm True)) es")
    case Nil
    with True st(2) st1 show ?thesis by (simp add: status_look_def below_def nothing_def)
  next
    case (Cons x xs)
    then have "x \<in> set es" using set_dropWhileD [of x "below sg (status_key nm True)" es] by simp
    then have g: "good db x" using st(1) by (auto simp: src_at_def valid_def)
    then have "statusrec_cook db (raw x) (rest_line (rec_toks db x)) = Some (x, 0)" by (intro cook_line) (simp add: good_def)
    moreover have "statusrec_cmp sg x (status_key nm True) \<noteq> 0"
      using cmp_0_file [of sg x nm True] p g by (auto simp: good_def rec_ok_def)
    ultimately show ?thesis using Cons True st(2) st1 by (simp add: status_look_def below_def)
  qed
qed

text \<open>
  Claim C23. Replacing a directory by a file never works: \<open>status_put\<close> looks for the directory's end
  to delete everything inside, but a directory up compares as different from every key, itself
  included, so the lookup finds nothing and the assertion behind it fails.
\<close>

theorem replace_directory_aborts:
  assumes s: "sess db sg st todo D w" and e: "dropWhile (below sg (key_of sr)) todo = e # es"
    and d: "sr_type e = SR_DIRDOWN" "sr_file e = sr_file sr" and t: "sr_type sr = SR_CHECKOUTLIVE \<or> sr_type sr = SR_CHECKOUTDEAD"
  shows "status_put db sg st sr = None"
proof -
  have up: "(sr_type sr = SR_DIRUP) = False" using t by auto
  have z: "statusrec_cmp sg e (key_of sr) = 0" using d t by (auto simp: statusrec_cmp_def key_of_def)
  from get_step [OF s, of "sr_file sr" False] e z obtain st1 where
    st1: "status_get db sg st (Some (sr_file sr)) False False = Some (st1, 1)" "sess db sg st1 (e # es) (end_dir D (takeWhile (below sg (key_of sr)) todo))
      (w @ emits db D (takeWhile (below sg (key_of sr)) todo))" "s_current st1" "s_buf st1 = e"
    unfolding key_of_def up by (auto simp: lookup_result_def)
  have f: "good db e" "src_at db sg st1 (after e) es" using st1(2-4) by (auto simp: sess_def)
  have "src_at db sg (st1\<lparr>s_current := False\<rparr>) (after e) es" using f(2) by (simp add: src_at_def)
  moreover have "path_ok (sr_file sr)" using f(1) d(2) by (simp add: good_def rec_ok_def)
  ultimately obtain st2 where "status_look db sg True (status_key (sr_file sr) True) (st1\<lparr>s_current := False\<rparr>) = Some (st2, 0)"
    using dirup_not_found [of db sg "st1\<lparr>s_current := False\<rparr>" e es "sr_file sr"] st1(4) f(1) by auto
  then have "status_get db sg st1 (Some (sr_file sr)) True True = Some (st2, 0)"
    using st1(3) f(2) by (simp add: status_get_def src_at_def)
  then show ?thesis using st1(1,4) d(1) t up by (auto simp: status_put_def)
qed

theorem replace_directory_aborts_witness:
  "let sr = demo_rec SR_DIRDOWN ''d''; old = [sr, demo_rec SR_DIRUP ''d''];
       st = (status_new ''checkouts'' 7 (Some (map (rec_line demo_db) old, None)))\<lparr>s_wr := Some (Roomy [])\<rparr>
   in sess demo_db True st old [] [] \<and> status_put demo_db True st (sr\<lparr>sr_type := SR_CHECKOUTLIVE\<rparr>) = None"
proof -
  let ?sr = "demo_rec SR_DIRDOWN ''d''"
  let ?old = "[?sr, demo_rec SR_DIRUP ''d'']"
  let ?st = "(status_new ''checkouts'' 7 (Some (map (rec_line demo_db) ?old, None)))\<lparr>s_wr := Some (Roomy [])\<rparr>"
  have v: "valid demo_db True [] ?old" using demo_attr by (simp add: demo_simps esc_def needs_escape_def)
  have s: "sess demo_db True ?st ?old [] []"
    using v at_dir_new
    by (auto simp: sess_def dst_def writing_def status_new_def src_at_def statusrec_init_def statusrec_fini_def)
  have e: "dropWhile (below True (key_of (?sr\<lparr>sr_type := SR_CHECKOUTLIVE\<rparr>))) ?old = ?sr # [demo_rec SR_DIRUP ''d'']"
    by (simp add: below_def demo_simps)
  from replace_directory_aborts [OF s e] s show ?thesis by (simp add: demo_rec_def)
qed

text \<open>
  A deletion can leave the compressor in the directory of the record written before; when the file
  is closed then, the next raw record does not fit and the assertion in \<open>status_wrraw\<close> fails.
\<close>

lemma delete_after_new_directory_aborts:
  "let st = (status_new ''checkouts'' 7 (Some (map (rec_line demo_db) [demo_rec SR_FILELIVE ''y'', demo_rec SR_FILELIVE ''z''], None)))
       \<lparr>s_wr := Some (Roomy [])\<rparr>
   in Option.bind (run_sops demo_db True st [Put (demo_rec SR_FILELIVE ''m/x''), Del ''y'' False])
        (status_close demo_db True (\<lambda>_. []) None) = None"
  by code_simp

text \<open>
  A directory whose name holds a blank is copied without its escape; the copy cannot be read.
\<close>

lemma raw_directory_not_escaped:
  "let old = [demo_rec SR_DIRDOWN ''a b'', demo_rec SR_DIRUP ''a b''];
       st = (status_new ''checkouts'' 7 (Some (map (rec_line demo_db) old, None)))\<lparr>s_wr := Some (Roomy []), s_dirty := True\<rparr>
   in (case status_close demo_db True (\<lambda>_. []) None st of
         Some (None, Temp_renamed w) \<Rightarrow> w = ''D a b'' @ [CHR 0x0A] @ ''U a'' @ [CHR 0x5C] @ ''_b 2#811#13#644'' @ [CHR 0x0A]
       | _ \<Rightarrow> False)"
  by code_simp

text \<open>
  A new file on a disk with room for \<open>n\<close> bytes whose stream holds all of the text \<open>w\<close> in its buffer.
\<close>

definition pending :: "nat \<Rightarrow> string \<Rightarrow> dstream \<Rightarrow> bool" where
  "pending n w f \<longleftrightarrow> writefn f = Some disk_write \<and> closefn f = Some (\<lambda>k. (k, 0)) \<and> sfilter f = STREAM_FILTER_NULL \<and>
     cookie f = (n, []) \<and>
     (\<exists>b. wrbuf f = Some b \<and> buf_ok b \<and> boff b = 0 \<and> bsize b = STREAM_BUFSIZ \<and> buf_bytes b = w)"

lemma disk_writer: "writer disk_write snd (\<lambda>_. 0) (\<lambda>k. fst k + length (snd k) = n)"
  by unfold_locales (auto simp: disk_write_def Let_def split: if_splits prod.splits)

lemma pending_wrbuf: "pending n w f \<Longrightarrow> buf_ok b \<Longrightarrow> boff b = 0 \<Longrightarrow> bsize b = STREAM_BUFSIZ \<Longrightarrow> buf_bytes b = w' \<Longrightarrow>
    pending n w' (f\<lparr>wrbuf := Some b\<rparr>)"
  by (simp add: pending_def)

lemma disk_puts_pending:
  "pending n w f \<Longrightarrow> length w + length (calls_text cs) < STREAM_BUFSIZ \<Longrightarrow>
    \<exists>f'. disk_puts f cs = Some (f', 0) \<and> pending n (w @ calls_text cs) f'"
proof (induction cs arbitrary: w f)
  case Nil
  then show ?case by (simp add: calls_text_def)
next
  case (Cons c cs)
  obtain how s where c: "c = (how, s)" by force
  from Cons.prems(1) obtain b where b: "wrbuf f = Some b" "buf_ok b" "boff b = 0" "bsize b = STREAM_BUFSIZ" "buf_bytes b = w"
    by (auto simp: pending_def)
  have len: "length w + length s + length (calls_text cs) < STREAM_BUFSIZ" using Cons.prems(2) c by (simp add: calls_text_def)
  have "bin b = length w" using b(2,5) buf_bytes_length by fastforce
  then have av: "length s < buf_avail b" using len b(3,4) by (simp add: buf_avail_def)
  have "\<exists>b'. (if how then stream_printf (disk_fuel f) plain_lib f s else stream_write (disk_fuel f) plain_lib f s) =
      Some (f\<lparr>wrbuf := Some b'\<rparr>, int (length s)) \<and> buf_ok b' \<and> boff b' = 0 \<and> bsize b' = STREAM_BUFSIZ \<and> buf_bytes b' = w @ s"
  proof (cases how)
    case True
    from vsnprintf_more [OF b(2) av] obtain b' where b': "buf_more (vsnprintf b s) (length s) = Some b'" "buf_ok b'"
      "buf_bytes b' = w @ s" "bsize b' = STREAM_BUFSIZ" using b(4,5) by auto
    have "boff b' = 0" using b'(1) b(3) by (auto simp: buf_more_def vsnprintf_def buf_copyin_def split: if_splits)
    moreover have "disk_fuel f = Suc (bin b + 2)" using b(1) by (simp add: disk_fuel_def)
    ultimately show ?thesis using True b b' av vsnprintf_ok [OF b(2), of s] by (auto simp: Let_def)
  next
    case False
    from buf_copyin_more [OF b(2), of s] av obtain b' where b': "buf_more (buf_copyin b s) (length s) = Some b'" "buf_ok b'"
      "buf_bytes b' = w @ s" "bsize b' = STREAM_BUFSIZ" using b(4,5) by auto
    have "boff b' = 0" using b'(1) b(3) by (auto simp: buf_more_def buf_copyin_def split: if_splits)
    moreover have "\<not> length s > bsize b" "\<not> length s > buf_avail b" using av by (auto simp: buf_avail_def)
    moreover have "f\<lparr>wrbuf := Some b, wrbuf := Some b'\<rparr> = f\<lparr>wrbuf := Some b'\<rparr>" by simp
    ultimately show ?thesis using False b b' by (auto simp: stream_write_def Let_def)
  qed
  then obtain b' where p: "(if how then stream_printf (disk_fuel f) plain_lib f s else stream_write (disk_fuel f) plain_lib f s) =
      Some (f\<lparr>wrbuf := Some b'\<rparr>, int (length s))" "buf_ok b'" "boff b' = 0" "bsize b' = STREAM_BUFSIZ" "buf_bytes b' = w @ s"
    by blast
  have "pending n (w @ s) (f\<lparr>wrbuf := Some b'\<rparr>)" by (rule pending_wrbuf [OF Cons.prems(1) p(2-5)])
  from Cons.IH [OF this] len obtain f' where "disk_puts (f\<lparr>wrbuf := Some b'\<rparr>) cs = Some (f', 0)"
    "pending n ((w @ s) @ calls_text cs) f'" by auto
  then show ?case using p(1) c by (auto simp: calls_text_def)
qed

lemma pending_close:
  assumes p: "pending n w f"
  shows "\<exists>t u. wfile_close (Disk f) = Some t \<and> w = t @ u \<and> length t \<le> n"
proof -
  from p obtain b where b: "wrbuf f = Some b" "buf_ok b" "buf_bytes b = w" by (auto simp: pending_def)
  note wr = disk_writer [of n]
  have x: "md5_appends plain_lib" by (simp add: md5_appends_def plain_lib_def)
  have i: "writer.out_inv disk_write snd (\<lambda>k. fst k + length (snd k) = n) plain_lib [] [] f b"
    using p b by (simp add: writer.out_inv_def [OF wr] pending_def filter_digested_def)
  have r: "writer.room (\<lambda>_. 0) (disk_fuel f) (cookie f) b"
    using b by (simp add: writer.room_def [OF wr] disk_fuel_def)
  from writer.close_ok [OF wr x i r] obtain f' r k1 where c: "stream_close (disk_fuel f) plain_lib f = Some (f', r)"
    "writer.session_end disk_write snd (\<lambda>k. fst k + length (snd k) = n) plain_lib (closefn f) (sfilter f) [] ([] @ buf_bytes b) k1 f' r"
    by blast
  then have "fst k1 + length (snd k1) = n" "cookie f' = k1" "\<exists>u. w = snd k1 @ u"
    using p b(3) by (auto simp: writer.session_end_def [OF wr] writer.gave_up_def [OF wr] pending_def)
  then show ?thesis using c(1) by (auto simp: wfile_close_def)
qed

lemma pending_open: "\<exists>f. wfile_open (Some n) = Some (Disk f) \<and> pending n [] f"
  by (simp add: wfile_open_def open_writer_def stream_new_def stream_filter_start_def stream_filter_fini_def
    stream_filter_init_def pending_def buf_new_def buf_ok_def buf_bytes_def)

lemma num_str_pow10: "n < 10 ^ Suc k \<Longrightarrow> length (num_str 10 n) \<le> Suc k"
proof (induction k arbitrary: n)
  case 0
  then show ?case by (subst num_str.simps) simp
next
  case (Suc k)
  then have "n div 10 < 10 ^ Suc k" by simp
  from Suc.IH [OF this] show ?case by (subst num_str.simps) simp
qed

lemma header_short:
  assumes "LONG_MIN \<le> t" and "t \<le> LONG_MAX"
  shows "length (status_header t) < 30"
proof -
  have "nat i < 10 ^ Suc 19" if "i \<le> 9223372036854775808" for i :: int using that by simp
  then have "length (num_str 10 (nat t)) \<le> Suc 19" "length (num_str 10 (nat (- t))) \<le> Suc 19"
    using assms num_str_pow10 [of "nat t" 19] num_str_pow10 [of "nat (- t)" 19] by (simp_all add: int_limits)
  moreover have "length (int_str STATUS_VERSION) = 1"
    by (simp add: STATUS_VERSION_def int_str_def num_str.simps)
  ultimately show ?thesis by (auto simp: status_header_def int_str_def)
qed

text \<open>
  Claim C39. A full disk goes unnoticed. Opened for writing over an old file without records and closed again with no operation,
  on a disk with room for \<open>n\<close> bytes, a session reports no error and replaces the old file by at
  most \<open>n\<close> bytes of the new one: the text is in the stream's buffer until the file has been
  renamed.
\<close>

theorem full_disk_unnoticed:
  assumes c: "coll_statuspath c = Some path" "co_base c = Some base" "co_colldir c = Some dir" "co_name c = Some name"
    and env: "se_open env path = Inr ([status_header t0], None)"
      "\<And>f. se_mkdir env f = None" "\<And>f. se_create env f = Inr (Some n)" "\<And>f. se_setattr env f = None"
    and t: "LONG_MIN \<le> t0" "t0 \<le> LONG_MAX" "LONG_MIN \<le> scantime" "scantime \<le> LONG_MAX" "scantime \<noteq> -1" "scantime \<noteq> t0"
  shows "\<exists>st w u. status_open db env c scantime = Some (Inr st) \<and>
    status_close db sg strerror None st = Some (None, Temp_renamed w) \<and>
    status_header scantime @ [CHR 0x0A] = w @ u \<and> length w \<le> n"
proof -
  let ?h = "status_header scantime @ [CHR 0x0A]"
  obtain cs where cs: "proto_printf db (''F %d %t'' @ [CHR 0x0A]) [Aint STATUS_VERSION, Atime scantime] = Some cs" "calls_text cs = ?h"
  proof -
    have "printf_text db (''F %d %t'' @ [CHR 0x0A]) [Aint STATUS_VERSION, Atime scantime] = Some ?h"
      by (simp add: printf_simps status_header_def)
    then show ?thesis using that by (auto simp: printf_text_def)
  qed
  obtain f where f: "wfile_open (Some n) = Some (Disk f)" "pending n [] f" using pending_open by blast
  have "length ([] :: string) + length (calls_text cs) < STREAM_BUFSIZ"
    using header_short [OF t(3,4)] cs(2) by (simp add: STREAM_BUFSIZ_def)
  from disk_puts_pending [OF f(2) this] obtain f' where f': "disk_puts f cs = Some (f', 0)" "pending n ?h f'" using cs(2) by auto
  let ?tmp = "se_tempname env (base @ ''/'' @ dir @ ''/'' @ name @ ''/'')"
  let ?st = "(status_new path t0 (Some ([], None)))
      \<lparr>s_linenum := 1, s_tempfile := Some ?tmp, s_wr := Some (Disk f'), s_dirty := True\<rparr>"
  have st: "status_open db env c scantime = Some (Inr ?st)"
    using c env t(5,6) fromrd_header [OF t(1,2), of path "[]" None] f(1) cs(1) f'(1)
    by (simp add: status_open_def status_open_wr_def Let_def status_new_def status_putln_def status_printf_def)
  obtain w u where w: "wfile_close (Disk f') = Some w" "?h = w @ u" "length w \<le> n" using pending_close [OF f'(2)] by blast
  have cp: "status_copy db sg ?st = Some (?st\<lparr>s_eof := True\<rparr>, True)"
    by (subst status_copy.simps) (simp add: status_rdraw_def status_new_def)
  have "pathcomp_get (pathcomp_finish pathcomp_new) = Some (pathcomp_finish pathcomp_new, None)"
    by (simp add: pathcomp_finish_def pathcomp_new_def pathcomp_get_def pathcomp_done_def)
  then have "status_close db sg strerror None ?st = Some (None, Temp_renamed w)"
    using cp w(1) by (simp add: status_close_def status_finish_def status_new_def pc_next_def pathcomp_new_def statusrec_init_def eval_nat_numeral)
  with st w(2,3) show ?thesis by blast
qed

theorem full_disk_unnoticed_witness:
  "\<exists>st w u. status_open demo_db (demo_env\<lparr>se_open := (\<lambda>_. Inr ([status_header 7], None)), se_create := (\<lambda>_. Inr (Some 3))\<rparr>) demo_coll 8 = Some (Inr st) \<and>
    status_close demo_db True (\<lambda>_. []) None st = Some (None, Temp_renamed w) \<and>
    status_header 8 @ [CHR 0x0A] = w @ u \<and> length w \<le> 3"
proof -
  have "coll_statuspath demo_coll = Some ''/b/sup/c/checkouts''"
    by (simp add: demo_coll_def coll_new_def coll_zero_def coll_statuspath_def coll_statussuffix_def has_opt_def)
  from full_disk_unnoticed [OF this, of "''/b''" "''sup''" "''c''"
      "demo_env\<lparr>se_open := (\<lambda>_. Inr ([status_header 7], None)), se_create := (\<lambda>_. Inr (Some 3))\<rparr>" 7 3 8]
  show ?thesis by (simp add: demo_env_def demo_coll_def coll_new_def coll_zero_def int_limits)
qed

end
