(* ===== verification/Spec2Isabelle.thy ===== *)
theory Spec2Isabelle
  imports Misc Pathcomp Stream Muxnet Fattr Proto Globtree Fixups Keyword Diff Reverse Rcstrunk Config Statusfile
begin

text \<open>
  A verification library for csup, the CVSup client (\<open>src/\<close>).

  The program. A client connects to a server, opens two channels of a multiplexer (\<open>mux.c\<close>)
  over one socket and runs three threads on them: the lister sends what the client has, the
  detailer answers questions about single files, the updater applies the changes the server
  sends. All of them speak a line protocol (\<open>proto.c\<close>) over buffered streams
  (\<open>stream.c\<close>); what the client has is kept in a status file (\<open>status.c\<close>) whose
  directories are managed by a path compressor (\<open>pathcomp.c\<close>); files have attributes
  (\<open>fattr.c\<close>), are selected by patterns (\<open>fnmatch.c\<close>, \<open>globtree.c\<close>), and are edited as
  RCS files (\<open>rcsfile.c\<close>, \<open>rcslex.c\<close>, \<open>rcsparse.c\<close>) with diffs (\<open>diff.c\<close>) and
  keyword expansion (\<open>keyword.c\<close>). A file whose checksum is wrong goes back from the updater to
  the detailer through the queue of \<open>fixups.c\<close>.

  The theories, in the order of their imports.

  \<^item> \<open>Prelude\<close>: lists, splitting, bytes as signed and unsigned \<open>char\<close>, numbers in text
    (\<open>strtol\<close>, \<open>%d\<close>), the error monad.
  \<^item> \<open>Misc\<close> (\<open>misc.c\<close>): order of paths (\<open>pathcmp\<close>), common directories, RCS names,
    checkout paths, revision numbers, pattern lists. The lemmas show that \<open>pathcmp\<close> is a total
    order in which a directory's entries are contiguous, and that \<open>rcsnum_cmp\<close> is the numeric order.
  \<^item> \<open>Pathcomp\<close> (\<open>pathcomp.c\<close>): the C buffers with the NUL that cuts them, \<open>pathcomp_put\<close>,
    \<open>pathcomp_get\<close>, \<open>pathcomp_finish\<close>; the moves emitted are the way between the directories.
  \<^item> \<open>Stream\<close> (\<open>stream.c\<close>): \<open>struct buf\<close>, \<open>struct stream\<close>, fill and flush functions and
    filters. The locales \<open>writer\<close> and \<open>reader\<close> are the contracts of the functions a stream is opened
    with; in-memory buffers are their interpretation. Reading by lines and write sessions do not
    depend on how the data is cut, and report an error only over functions that can fail; the
    MD5RCS digest does not depend on the pieces.
  \<^item> \<open>Ringbuf\<close>, \<open>Mux\<close>, \<open>Muxnet\<close> (\<open>mux.c\<close>): the circular buffers as a refinement of a
    queue; packet headers, channels, the critical sections of sender and receiver, shutdown with
    the conditions it broadcasts, and the socket helpers; two
    multiplexers joined by a wire as a step relation in which any action of either side may come
    next, with the invariants of flow control and the stream a channel is. The sender's transfer
    there is \<open>sock_writev\<close> over a scripted socket, restricted to the scripts on which it sends
    everything; \<open>sock_writev_sends\<close> says what it loses on the others.
  \<^item> \<open>Fattr\<close> (\<open>fattr.c\<close> with \<open>fattr_posix.h\<close>): attribute structures, their text form, merging,
    comparison, and \<open>fattr_install\<close> as the sequence of system calls it makes on a file system.
  \<^item> \<open>Proto\<close> (\<open>proto.c\<close>): escaping, \<open>proto_printf\<close>, token readers, the first exchanges.
  \<^item> \<open>Fnmatch\<close>, \<open>Globtree\<close> (\<open>fnmatch.c\<close>, \<open>globtree.c\<close>): matching against a declarative
    meaning of patterns; the loop with an explicit stack against the recursive value of a tree.
  \<^item> \<open>Fixups\<close> (\<open>fixups.c\<close>): the queue with its condition variable as a step relation.
  \<^item> \<open>Keyword\<close>, \<open>Diff\<close>, \<open>Reverse\<close> (\<open>keyword.c\<close>, \<open>diff.c\<close>): expansion of a line,
    application of an RCS diff to a file and its reversal.
  \<^item> \<open>Rcslex\<close>, \<open>Rcsfile\<close>, \<open>Rcsparse\<close>, \<open>Rcswrite\<close> (\<open>rcslex.c\<close>, \<open>rcsfile.c\<close>,
    \<open>rcsparse.c\<close>): the lexer, the file in memory (a list of deltas referred to by index, since
    the C code links them by pointers), the parser, the extraction of texts and the writer.
    \<open>Rcsread\<close> is a calculus of what a parsing step reads from a text, and \<open>Rcstrunk\<close> closes
    the circle from the writer through lexer and parser back to the file.
  \<^item> \<open>Config\<close> (\<open>config.c\<close> and the actions of \<open>parse.y\<close>): collections, defaults, overriding
    options, refuse files, status paths; where each value of a collection comes from.
  \<^item> \<open>Status\<close>, \<open>Statusfile\<close> (\<open>status.c\<close>): the records of the status file, reading, writing,
    lookup, put, delete, opening and closing; a session refines an update of the sorted list of
    records. The new file is the text written, or on a disk with limited room the buffered stream
    it is written through. \<open>Statusfile\<close> also shows the sessions that abort and the full disk
    nobody notices.

  Conventions. A failed assertion, a NULL dereference, an access outside an array or a double free
  is the outer \<open>None\<close> (in the RCS theories \<open>Inl R_crash\<close>); an error the code reports is a value
  of the result. Bytes are \<^typ>\<open>char\<close>; flags, masks, headers and sequence numbers are words of
  their width; \<open>long\<close> values carry their bounds. Loops that consume their input are total
  recursive functions with a termination proof, among them the lexer and every loop of the parser.
  Fuel is used only where the code loops on what another party does: filling and flushing a
  stream, where one unit per byte and per retry of the system call is enough
  (\<open>stream_getln_lines\<close>, \<open>stream_session\<close>), draining the path compressor, where twice the
  depth of the paths plus one is (\<open>pathcomp_emits_moves\<close>), following \<open>next\<close> links of an RCS
  file, which a damaged file can make cyclic, where the number of deltas plus one is
  (\<open>rcsfile_roundtrip\<close>), and the partial writes of a socket, where one unit per byte or per
  scripted write is (\<open>sock_write_delivers\<close>, \<open>sock_writev_sends\<close>). Each
  of these theorems says that the result is there, not only what it is.

  Parameters. System calls, user and group databases, MD5 and zlib, \<open>strptime\<close> and the clock are
  arguments of the definitions that use them; what is required of them is stated as hypotheses
  or as the assumptions of the locale, and each such theorem has an instance.

  Not modelled. Failing memory allocation and running out of address space; reading and writing
  of files, sockets and directories below the stream functions; pthread calls other than the
  order of critical sections they impose, the wake-ups of \<open>fixups.c\<close> and the broadcasts of
  \<open>mux_shutdown\<close>; what lies in memory behind a string (\<open>Oob\<close> in \<open>fattr_scanattr\<close>); failures of
  \<open>regcomp\<close> and \<open>regexec\<close>, which are assertions; the wall clock and the random backoff. Of the parts of
  the program: the scanner and the parser tables of the supfile (\<open>token.l\<close>, the generated part of
  \<open>parse.y\<close>), the option parsing of \<open>main.c\<close>, \<open>auth.c\<close>, the caches of \<open>idcache.c\<close>, and the three worker loops
  (\<open>lister.c\<close>, \<open>detailer.c\<close>, \<open>updater.c\<close>), which drive the parts above against the file
  system.
\<close>

end
